(* ===== verification/Prelude.thy ===== *)
theory Prelude
  imports Main "HOL-Library.Word"
begin

section \<open>Prelude: shared types, hints and list lemmas\<close>

text \<open>
  The types and facts every component shares. A byte is an 8-bit word (an element of a
  \<open>Uint8Array\<close>), a JavaScript string is a list of UTF-16 code units. Out-of-range reads of a
  JavaScript array give \<open>undefined\<close>: \<open>nth_opt\<close> makes that a value.
\<close>

unbundle bit_operations_syntax

type_synonym byte = "8 word"
type_synonym jsstr = "16 word list"

text \<open>Collections of hints: defining equations of the model, and facts that locate list entries.\<close>

named_theorems session_defs \<open>defining equations of the session layer's operations\<close>
named_theorems assoc_simps \<open>association lists read by key\<close>

subsection \<open>JavaScript strings from literals\<close>

definition js :: "string \<Rightarrow> jsstr" where
  "js s = map (\<lambda>c. of_nat (of_char c)) s"

lemma js_Nil [simp]: "js [] = []"
  by (simp add: js_def)

lemma js_Cons: "js (c # cs) = of_nat (of_char c) # js cs"
  by (simp add: js_def)

lemma js_append: "js (xs @ ys) = js xs @ js ys"
  by (simp add: js_def)

lemma of_nat_of_char_inject:
  "(of_nat (of_char c) :: 16 word) = of_nat (of_char d) \<longleftrightarrow> c = d"
proof
  assume "(of_nat (of_char c) :: 16 word) = of_nat (of_char d)"
  then have "unat (of_nat (of_char c) :: 16 word) = unat (of_nat (of_char d) :: 16 word)"
    by simp
  moreover have "take_bit 16 (of_char x :: nat) = of_char x" for x
    by (rule take_bit_nat_eq_self) (rule order_less_trans [OF nat_of_char_less_256], simp)
  ultimately have "(of_char c :: nat) = of_char d"
    by (simp add: unsigned_of_nat)
  then show "c = d" by simp
qed simp

lemma js_inject [simp]: "js s = js t \<longleftrightarrow> s = t"
  unfolding js_def by (rule inj_map_eq_map) (auto simp: inj_def of_nat_of_char_inject)

subsection \<open>Lists\<close>

lemma length_filter_imp:
  "(\<And>x. x \<in> set xs \<Longrightarrow> P x \<Longrightarrow> Q x) \<Longrightarrow> length (filter P xs) \<le> length (filter Q xs)"
  by (induction xs) (auto simp: le_SucI)

end
