(* ===== verification/JsValue.thy ===== *)
theory JsValue
  imports Prelude
begin

section \<open>JavaScript values at the API boundary\<close>

text \<open>
  The dynamically typed values the SDK passes around: protocol arguments and results
  (\<open>ProtoArgs\<close>, \<open>ProtoValue\<close>), JSON trees and sproto field values. A safe integral
  number is \<open>JNum\<close>; any other number is \<open>JDbl\<close> with its IEEE 754 bit pattern; a \<open>bigint\<close>
  is \<open>JBig\<close>; a \<open>Uint8Array\<close> is \<open>JU8\<close>. A plain object is the list of its own properties.
\<close>

datatype jsval =
    JUndef
  | JNull
  | JBool bool
  | JNum int
  | JDbl "64 word"
  | JBig int
  | JStr jsstr
  | JU8 "byte list"
  | JArr "jsval list"
  | JObj "(jsstr \<times> jsval) list"

text \<open>\<open>v == null\<close>, also the test of the operator \<open>v ?? w\<close>.\<close>

fun nullish :: "jsval \<Rightarrow> bool" where
  "nullish JUndef = True"
| "nullish JNull = True"
| "nullish _ = False"

definition coalesce :: "jsval \<Rightarrow> jsval \<Rightarrow> jsval" where
  "coalesce v w = (if nullish v then w else v)"

text \<open>The coercion of \<open>if (v)\<close>. Of the doubles only NaN and the two zeros are falsy.\<close>

definition dbl_truthy :: "64 word \<Rightarrow> bool" where
  "dbl_truthy w =
     (let m = w AND 0x7FFFFFFFFFFFFFFF in m \<noteq> 0 \<and> m \<le> 0x7FF0000000000000)"

fun truthy :: "jsval \<Rightarrow> bool" where
  "truthy JUndef = False"
| "truthy JNull = False"
| "truthy (JBool b) = b"
| "truthy (JNum n) = (n \<noteq> 0)"
| "truthy (JDbl w) = dbl_truthy w"
| "truthy (JBig n) = (n \<noteq> 0)"
| "truthy (JStr s) = (s \<noteq> [])"
| "truthy (JU8 _) = True"
| "truthy (JArr _) = True"
| "truthy (JObj _) = True"

text \<open>The property read \<open>v.k\<close> of an object; other values have no such property here.\<close>

fun prop_of :: "jsval \<Rightarrow> jsstr \<Rightarrow> jsval" where
  "prop_of (JObj kvs) k = (case map_of kvs k of None \<Rightarrow> JUndef | Some v \<Rightarrow> v)"
| "prop_of _ k = JUndef"

lemma truthy_not_nullish: "truthy v \<Longrightarrow> \<not> nullish v"
  by (cases v) auto

lemma coalesce_not_undef: "w \<noteq> JUndef \<Longrightarrow> coalesce v w \<noteq> JUndef"
  by (cases v) (auto simp: coalesce_def)

lemma prop_of_Cons:
  "prop_of (JObj ((k, v) # kvs)) x = (if x = k then v else prop_of (JObj kvs) x)"
  by simp

text \<open>The object properties in insertion order.\<close>

type_synonym jsobj = "(jsstr \<times> jsval) list"

fun obj_put :: "jsobj \<Rightarrow> jsstr \<Rightarrow> jsval \<Rightarrow> jsobj" where
  "obj_put [] k v = [(k, v)]"
| "obj_put ((k', v') # kvs) k v = (if k' = k then (k, v) # kvs else (k', v') # obj_put kvs k v)"

lemma map_of_obj_put: "map_of (obj_put kvs k v) = (map_of kvs)(k \<mapsto> v)"
  by (induction kvs) auto

end
