(* ===== verification/Session.thy ===== *)
theory Session
  imports JsValue
begin

section \<open>The session layer: state and operations\<close>

text \<open>
  \<open>sdk/ts/src/session.ts\<close>: one client session over connections that come and go. The code
  is a set of \<open>async\<close> functions over one object. Each stretch of code between two \<open>await\<close>s is
  a function here; where an \<open>async\<close> function waits is a value of \<open>pc\<close>, kept per running
  call in \<open>tasks\<close>; promises that have settled but whose waiting code has not run yet stand in
  the queue \<open>micro\<close> (the microtask queue). What the code does to the outside (packets,
  callbacks, settled promises) is appended to \<open>out\<close>.
\<close>

subsection \<open>Data\<close>

datatype session_state = Online | Offline | Relogin

record pending =
  pname :: jsstr
  pparam :: jsval

datatype codec_result =
    CRequest jsstr jsval
  | CResponse int jsval

text \<open>
  The two operations of the codec the session calls. The codec has state of its own (the
  types of the responses it still expects). \<open>pack\<close> may throw: \<open>None\<close>.
\<close>

record 'c codec =
  cpack :: "'c \<Rightarrow> jsstr \<Rightarrow> jsval \<Rightarrow> int \<Rightarrow> 'c \<times> byte list option"
  cdispatch :: "'c \<Rightarrow> byte list \<Rightarrow> 'c \<times> codec_result option"

record session_options =
  o_pingIntervalMs :: "int option"
  o_pingTolerance :: "int option"
  o_reconnectDelayMs :: "int option"
  o_handshakeTimeoutMs :: "int option"

record session_conf =
  pingIntervalMs :: int
  pingTolerance :: int
  reconnectDelayMs :: int
  handshakeTimeoutMs :: int

datatype caller = ByStart | BySupervisor

type_synonym endpoint = jsstr

datatype pc =
    Resolving caller                      \<comment> \<open>\<open>await resolveEndpoints()\<close>\<close>
  | Connecting caller "endpoint list"     \<comment> \<open>\<open>await connect(ep)\<close>; the endpoints still to try\<close>
  | Resuming caller nat int               \<comment> \<open>\<open>login.resume\<close> on a connection, with its request id\<close>
  | LoginParaming caller nat              \<comment> \<open>\<open>await loginParam()\<close>\<close>
  | LoggingIn caller nat int              \<comment> \<open>\<open>login.login\<close> on a connection, with its request id\<close>
  | SupSleep                              \<comment> \<open>\<open>supervisor\<close> in its sleep\<close>
  | HbSleep int                           \<comment> \<open>\<open>heartbeat\<close> in its sleep, with its misses\<close>
  | HbPing int "nat option" int           \<comment> \<open>\<open>login.ping\<close>: misses, connection, request id\<close>

datatype microtask = MSettled int jsval | MWake nat

datatype effect =
    Sent nat int jsstr jsval "byte list"
  | ConnClose nat
  | ConnectTo endpoint
  | Notify session_state
  | Pushed jsstr jsval
  | Settled int jsval
  | Started bool

record 'c session_client =
  codec_st :: 'c
  conn :: "nat option"
  online :: bool
  closed :: bool
  loopsStarted :: bool
  rid :: jsval
  nonce :: jsval
  recv :: int
  nextReqId :: int
  pendings :: "(int \<times> pending) list"
  tasks :: "(nat \<times> pc) list"
  nextTask :: nat
  nextConn :: nat
  broken :: "nat list"     \<comment> \<open>connections whose \<open>send\<close> throws\<close>
  micro :: "microtask list"
  out :: "effect list"

definition UNCOUNTED_RESPONSE :: "jsstr list" where
  "UNCOUNTED_RESPONSE = [js ''login.login'', js ''login.resume'', js ''login.ping'']"

definition uncounted :: "jsstr \<Rightarrow> bool" where
  "uncounted n \<longleftrightarrow> n \<in> set UNCOUNTED_RESPONSE"

definition ErrCode_OK :: int where
  "ErrCode_OK = 0"

text \<open>The constructor: options with their defaults, and the fields' initial values.\<close>

definition conf_of :: "session_options \<Rightarrow> session_conf" where
  "conf_of o' = \<lparr>
     pingIntervalMs = (case o_pingIntervalMs o' of None \<Rightarrow> 15000 | Some v \<Rightarrow> v),
     pingTolerance = (case o_pingTolerance o' of None \<Rightarrow> 2 | Some v \<Rightarrow> v),
     reconnectDelayMs = (case o_reconnectDelayMs o' of None \<Rightarrow> 1000 | Some v \<Rightarrow> v),
     handshakeTimeoutMs = (case o_handshakeTimeoutMs o' of None \<Rightarrow> 5000 | Some v \<Rightarrow> v)\<rparr>"

definition new_session :: "'c \<Rightarrow> 'c session_client" where
  "new_session cs = \<lparr>
     codec_st = cs, conn = None, online = False, closed = True, loopsStarted = False,
     rid = JNull, nonce = JNull, recv = 0, nextReqId = 0, pendings = [],
     tasks = [], nextTask = 0, nextConn = 0, broken = [], micro = [], out = []\<rparr>"

subsection \<open>Sending, receiving, dropping\<close>

definition emit :: "effect \<Rightarrow> 'c session_client \<Rightarrow> 'c session_client" where
  [session_defs]: "emit e s = s\<lparr>out := out s @ [e]\<rparr>"

definition notifyState :: "session_state \<Rightarrow> 'c session_client \<Rightarrow> 'c session_client" where
  [session_defs]: "notifyState st s = emit (Notify st) s"

definition send ::
  "'c codec \<Rightarrow> int \<Rightarrow> pending \<Rightarrow> 'c session_client \<Rightarrow> bool \<times> 'c session_client" where
  "send cd reqId p s =
     (case conn s of
        None \<Rightarrow> (False, s)
      | Some c \<Rightarrow>
          (case cpack cd (codec_st s) (pname p) (pparam p) reqId of
             (cs, None) \<Rightarrow> (False, s\<lparr>codec_st := cs\<rparr>)
           | (cs, Some bs) \<Rightarrow>
               if c \<in> set (broken s) then (False, s\<lparr>codec_st := cs\<rparr>)
               else (True, emit (Sent c reqId (pname p) (pparam p) bs) (s\<lparr>codec_st := cs\<rparr>))))"

definition request ::
  "'c codec \<Rightarrow> jsstr \<Rightarrow> jsval \<Rightarrow> 'c session_client \<Rightarrow> int \<times> 'c session_client" where
  "request cd name param s =
     (let reqId = nextReqId s + 1;
          p = \<lparr>pname = name, pparam = param\<rparr>;
          s1 = s\<lparr>nextReqId := reqId, pendings := pendings s @ [(reqId, p)]\<rparr>
      in (reqId, snd (send cd reqId p s1)))"

text \<open>\<open>p.resolve(v)\<close>: the code waiting for request \<open>reqId\<close> will run as a microtask.\<close>

definition resolve :: "int \<Rightarrow> jsval \<Rightarrow> 'c session_client \<Rightarrow> 'c session_client" where
  [session_defs]:
  "resolve reqId v s = emit (Settled reqId v) (s\<lparr>micro := micro s @ [MSettled reqId v]\<rparr>)"

definition count :: "'c session_client \<Rightarrow> 'c session_client" where
  [session_defs]: "count s = s\<lparr>recv := recv s + 1\<rparr>"

definition forget :: "int \<Rightarrow> 'c session_client \<Rightarrow> 'c session_client" where
  [session_defs]: "forget reqId s = s\<lparr>pendings := filter (\<lambda>e. fst e \<noteq> reqId) (pendings s)\<rparr>"

definition handle :: "'c codec \<Rightarrow> byte list \<Rightarrow> 'c session_client \<Rightarrow> 'c session_client" where
  "handle cd bytes s0 =
     (case cdispatch cd (codec_st s0) bytes of (cs, r) \<Rightarrow>
        let s = s0\<lparr>codec_st := cs\<rparr> in
        case r of
          None \<Rightarrow> count s
        | Some (CRequest name args) \<Rightarrow> emit (Pushed name args) (count s)
        | Some (CResponse i args) \<Rightarrow>
            (case map_of (pendings s) i of
               None \<Rightarrow> count s
             | Some p \<Rightarrow>
                 let s1 = forget i s;
                     s2 = (if uncounted (pname p) then s1 else count s1)
                 in resolve i (coalesce args JNull) s2))"

definition drop_conn :: "nat option \<Rightarrow> 'c session_client \<Rightarrow> 'c session_client" where
  "drop_conn c s =
     (case c of
        None \<Rightarrow> s
      | Some i \<Rightarrow>
          if conn s \<noteq> Some i then s
          else notifyState Offline (emit (ConnClose i) (s\<lparr>conn := None, online := False\<rparr>)))"

subsection \<open>The requests in flight after a reconnect\<close>

fun resend_list ::
  "'c codec \<Rightarrow> (int \<times> pending) list \<Rightarrow> 'c session_client \<Rightarrow> 'c session_client" where
  "resend_list cd [] s = s"
| "resend_list cd ((reqId, p) # ps) s =
     resend_list cd ps
       (if uncounted (pname p) then resolve reqId JNull (forget reqId s)
        else snd (send cd reqId p s))"

definition resendPending :: "'c codec \<Rightarrow> 'c session_client \<Rightarrow> 'c session_client" where
  "resendPending cd s = resend_list cd (pendings s) s"

fun resolve_all :: "(int \<times> pending) list \<Rightarrow> 'c session_client \<Rightarrow> 'c session_client" where
  "resolve_all [] s = s"
| "resolve_all ((reqId, p) # ps) s = resolve_all ps (resolve reqId JNull s)"

definition failPending :: "'c session_client \<Rightarrow> 'c session_client" where
  "failPending s = (resolve_all (pendings s) s)\<lparr>pendings := []\<rparr>"

subsection \<open>Running calls\<close>

text \<open>The running calls: what each waits for. A call that has returned is not in the list.\<close>

definition task_pc :: "nat \<Rightarrow> 'c session_client \<Rightarrow> pc option" where
  "task_pc t s = map_of (tasks s) t"

definition set_task :: "nat \<Rightarrow> pc \<Rightarrow> 'c session_client \<Rightarrow> 'c session_client" where
  [session_defs]:
  "set_task t p s = s\<lparr>tasks := map (\<lambda>e. if fst e = t then (t, p) else e) (tasks s)\<rparr>"

definition end_task :: "nat \<Rightarrow> 'c session_client \<Rightarrow> 'c session_client" where
  [session_defs]: "end_task t s = s\<lparr>tasks := filter (\<lambda>e. fst e \<noteq> t) (tasks s)\<rparr>"

definition spawn :: "pc \<Rightarrow> 'c session_client \<Rightarrow> 'c session_client" where
  [session_defs]:
  "spawn p s = s\<lparr>tasks := tasks s @ [(nextTask s, p)], nextTask := nextTask s + 1\<rparr>"

subsection \<open>The supervisor and heartbeat loops, and the end of a handshake\<close>

text \<open>
  The loop heads. \<open>supervisor\<close>: \<open>while (!closed)\<close>, reconnect if there is no connection, sleep.
  \<open>heartbeat\<close>: \<open>while (!closed)\<close>, sleep first. Both are started by the first \<open>start()\<close>.
\<close>

definition supervisor_loop :: "nat \<Rightarrow> 'c session_client \<Rightarrow> 'c session_client" where
  "supervisor_loop t s =
     (if closed s then end_task t s
      else if conn s = None then set_task t (Resolving BySupervisor) s
      else set_task t SupSleep s)"

definition heartbeat_loop :: "nat \<Rightarrow> int \<Rightarrow> 'c session_client \<Rightarrow> 'c session_client" where
  "heartbeat_loop t misses s =
     (if closed s then end_task t s else set_task t (HbSleep misses) s)"

definition start_loops :: "'c session_client \<Rightarrow> 'c session_client" where
  "start_loops s =
     (let s1 = supervisor_loop (nextTask s) (spawn SupSleep (s\<lparr>loopsStarted := True\<rparr>))
      in heartbeat_loop (nextTask s1) 0 (spawn (HbSleep 0) s1))"

text \<open>\<open>establish\<close> returns \<open>ok\<close> to \<open>start\<close> or to the supervisor.\<close>

definition establish_return ::
  "nat \<Rightarrow> caller \<Rightarrow> bool \<Rightarrow> 'c session_client \<Rightarrow> 'c session_client" where
  "establish_return t cl ok s =
     (case cl of
        ByStart \<Rightarrow>
          emit (Started ok) ((if loopsStarted s then id else start_loops) (end_task t s))
      | BySupervisor \<Rightarrow> set_task t SupSleep s)"

text \<open>\<open>doLogin\<close> after the response, or after its timeout (\<open>JNull\<close>).\<close>

definition resp_ok :: "jsval \<Rightarrow> bool" where
  "resp_ok resp \<longleftrightarrow> truthy resp \<and> prop_of resp (js ''code'') = JNum ErrCode_OK"

definition establish_fail ::
  "nat \<Rightarrow> caller \<Rightarrow> nat \<Rightarrow> 'c session_client \<Rightarrow> 'c session_client" where
  "establish_fail t cl c s = establish_return t cl False (drop_conn (Some c) s)"

definition login_result ::
  "nat \<Rightarrow> caller \<Rightarrow> nat \<Rightarrow> jsval \<Rightarrow> 'c session_client \<Rightarrow> 'c session_client" where
  "login_result t cl c resp s =
     (if \<not> resp_ok resp then establish_fail t cl c s
      else
        let s1 = s\<lparr>rid := coalesce (prop_of resp (js ''rid'')) JNull,
                   nonce := coalesce (prop_of resp (js ''nonce'')) JNull,
                   recv := 0, online := True\<rparr>
        in establish_return t cl True (notifyState Online (failPending s1)))"

definition login_param_ready ::
  "'c codec \<Rightarrow> nat \<Rightarrow> caller \<Rightarrow> nat \<Rightarrow> jsval option \<Rightarrow> 'c session_client \<Rightarrow> 'c session_client"
where
  "login_param_ready cd t cl c param s =
     (case param of
        None \<Rightarrow> establish_fail t cl c s
      | Some v \<Rightarrow>
          if \<not> truthy v then establish_fail t cl c s
          else
            let (i, s1) = request cd (js ''login.login'') v s
            in set_task t (LoggingIn cl c i) s1)"

text \<open>\<open>tryResume\<close>: its first part, and its end after the response or timeout.\<close>

definition resume_failed ::
  "nat \<Rightarrow> caller \<Rightarrow> nat \<Rightarrow> 'c session_client \<Rightarrow> 'c session_client" where
  "resume_failed t cl c s = set_task t (LoginParaming cl c) (notifyState Relogin s)"

definition resume_result ::
  "'c codec \<Rightarrow> nat \<Rightarrow> caller \<Rightarrow> nat \<Rightarrow> jsval \<Rightarrow> 'c session_client \<Rightarrow> 'c session_client"
where
  "resume_result cd t cl c resp s =
     (if \<not> resp_ok resp then resume_failed t cl c s
      else
        let s1 = s\<lparr>nonce := prop_of resp (js ''nonce''), online := True\<rparr>
        in establish_return t cl True (notifyState Online (resendPending cd s1)))"

definition tryResume ::
  "'c codec \<Rightarrow> nat \<Rightarrow> caller \<Rightarrow> nat \<Rightarrow> 'c session_client \<Rightarrow> 'c session_client" where
  "tryResume cd t cl c s =
     (if nullish (nonce s) \<or> nullish (rid s) then resume_failed t cl c s
      else
        let (i, s1) = request cd (js ''login.resume'')
              (JObj [(js ''rid'', rid s), (js ''nonce'', nonce s), (js ''recv'', JNum (recv s))]) s
        in set_task t (Resuming cl c i) s1)"

text \<open>\<open>establish\<close>: endpoints, then one connection attempt after the other.\<close>

fun connect_next ::
  "nat \<Rightarrow> caller \<Rightarrow> endpoint list \<Rightarrow> 'c session_client \<Rightarrow> 'c session_client" where
  "connect_next t cl [] s = establish_return t cl False s"
| "connect_next t cl (ep # eps) s = set_task t (Connecting cl eps) (emit (ConnectTo ep) s)"

definition endpoints_ready ::
  "nat \<Rightarrow> caller \<Rightarrow> endpoint list option \<Rightarrow> 'c session_client \<Rightarrow> 'c session_client" where
  "endpoints_ready t cl r s =
     (case r of None \<Rightarrow> establish_return t cl False s | Some eps \<Rightarrow> connect_next t cl eps s)"

text \<open>
  The transport hands out connection \<open>c\<close>. If it has been closed before \<open>onClosed\<close> is
  registered, the registration calls back at once.
\<close>

definition connected ::
  "'c codec \<Rightarrow> nat \<Rightarrow> caller \<Rightarrow> bool \<Rightarrow> 'c session_client \<Rightarrow> 'c session_client" where
  "connected cd t cl already_closed s0 =
     (let c = nextConn s0; s = s0\<lparr>nextConn := nextConn s0 + 1\<rparr> in
      if closed s then establish_return t cl False (emit (ConnClose c) s)
      else
        let s1 = s\<lparr>conn := Some c\<rparr>;
            s2 = (if already_closed then drop_conn (Some c) s1 else s1)
        in tryResume cd t cl c s2)"

text \<open>\<open>heartbeat\<close> after the ping's response or timeout, and after its sleep.\<close>

definition ping_result ::
  "session_conf \<Rightarrow> nat \<Rightarrow> int \<Rightarrow> nat option \<Rightarrow> jsval \<Rightarrow> 'c session_client \<Rightarrow> 'c session_client"
where
  "ping_result cf t misses c resp s =
     (if truthy resp then
        heartbeat_loop t 0
          (if prop_of resp (js ''sent'') \<noteq> JNum (recv s)
           then drop_conn c (s\<lparr>nonce := JNull\<rparr>) else s)
      else if misses + 1 \<ge> pingTolerance cf then heartbeat_loop t 0 (drop_conn c s)
      else heartbeat_loop t (misses + 1) s)"

definition heartbeat_wake ::
  "'c codec \<Rightarrow> nat \<Rightarrow> int \<Rightarrow> 'c session_client \<Rightarrow> 'c session_client" where
  "heartbeat_wake cd t misses s =
     (if closed s \<or> \<not> online s then heartbeat_loop t misses s
      else
        let (i, s1) = request cd (js ''login.ping'') (JObj [(js ''recv'', JNum (recv s))]) s
        in set_task t (HbPing misses (conn s) i) s1)"

subsection \<open>Calls of the application\<close>

definition start :: "'c session_client \<Rightarrow> 'c session_client" where
  "start s = spawn (Resolving ByStart) (s\<lparr>closed := False\<rparr>)"

definition reconnect :: "'c session_client \<Rightarrow> 'c session_client" where
  "reconnect s = drop_conn (conn s) s"

definition invalidateNonce :: "'c session_client \<Rightarrow> 'c session_client" where
  "invalidateNonce s = s\<lparr>nonce := JNull\<rparr>"

fun sleeping :: "pc \<Rightarrow> bool" where
  "sleeping SupSleep = True"
| "sleeping (HbSleep _) = True"
| "sleeping _ = False"

definition wake_all :: "'c session_client \<Rightarrow> 'c session_client" where
  [session_defs]:
  "wake_all s =
     s\<lparr>micro := micro s @ map (\<lambda>e. MWake (fst e)) (filter (\<lambda>e. sleeping (snd e)) (tasks s))\<rparr>"

definition close :: "'c session_client \<Rightarrow> 'c session_client" where
  "close s =
     (let s1 = failPending (s\<lparr>closed := True\<rparr>);
          c = conn s1;
          s2 = s1\<lparr>conn := None, online := False\<rparr>;
          s3 = (case c of None \<Rightarrow> s2 | Some i \<Rightarrow> emit (ConnClose i) s2)
      in (wake_all s3)\<lparr>loopsStarted := False\<rparr>)"

subsection \<open>Microtasks and events\<close>

text \<open>The code that waits for request \<open>i\<close>, if any, runs with the value the promise settled to.\<close>

fun awaits :: "int \<Rightarrow> pc \<Rightarrow> bool" where
  "awaits i (Resuming _ _ j) = (i = j)"
| "awaits i (LoggingIn _ _ j) = (i = j)"
| "awaits i (HbPing _ _ j) = (i = j)"
| "awaits i _ = False"

fun continue_with ::
  "session_conf \<Rightarrow> 'c codec \<Rightarrow> nat \<Rightarrow> pc \<Rightarrow> jsval \<Rightarrow> 'c session_client \<Rightarrow> 'c session_client"
where
  "continue_with cf cd t (Resuming cl c _) v s = resume_result cd t cl c v s"
| "continue_with cf cd t (LoggingIn cl c _) v s = login_result t cl c v s"
| "continue_with cf cd t (HbPing m c _) v s = ping_result cf t m c v s"
| "continue_with cf cd t _ v s = s"

definition settled ::
  "session_conf \<Rightarrow> 'c codec \<Rightarrow> int \<Rightarrow> jsval \<Rightarrow> 'c session_client \<Rightarrow> 'c session_client" where
  "settled cf cd i v s =
     (case find (\<lambda>e. awaits i (snd e)) (tasks s) of
        None \<Rightarrow> s
      | Some (t, p) \<Rightarrow> continue_with cf cd t p v s)"

text \<open>A sleep has ended (by its timer, or because \<open>close\<close> woke it).\<close>

definition wake :: "'c codec \<Rightarrow> nat \<Rightarrow> 'c session_client \<Rightarrow> 'c session_client" where
  "wake cd t s =
     (case task_pc t s of
        Some SupSleep \<Rightarrow> supervisor_loop t s
      | Some (HbSleep m) \<Rightarrow> heartbeat_wake cd t m s
      | _ \<Rightarrow> s)"

definition run_micro ::
  "session_conf \<Rightarrow> 'c codec \<Rightarrow> microtask \<Rightarrow> 'c session_client \<Rightarrow> 'c session_client" where
  "run_micro cf cd m s =
     (case m of MSettled i v \<Rightarrow> settled cf cd i v s | MWake t \<Rightarrow> wake cd t s)"

text \<open>
  What the runtime and the environment do: the application's calls, the results of
  \<open>resolveEndpoints\<close>, \<open>connect\<close> and \<open>loginParam\<close>, timers, and the transport's callbacks. An
  event addressed to a call that waits for something else does not occur: it changes nothing.
\<close>

datatype event =
    EvStart
  | EvRequest jsstr jsval
  | EvReconnect
  | EvInvalidateNonce
  | EvClose
  | EvEndpoints nat "endpoint list option"
  | EvConnected nat bool
  | EvConnectFailed nat
  | EvLoginParam nat "jsval option"
  | EvTimeout nat
  | EvSleepOver nat
  | EvMessage nat "byte list"
  | EvClosed nat
  | EvBroken nat

definition on_task ::
  "nat \<Rightarrow> (pc \<Rightarrow> 'c session_client \<Rightarrow> 'c session_client) \<Rightarrow> 'c session_client \<Rightarrow> 'c session_client"
where
  "on_task t f s = (case task_pc t s of None \<Rightarrow> s | Some p \<Rightarrow> f p s)"

fun on_event ::
  "session_conf \<Rightarrow> 'c codec \<Rightarrow> event \<Rightarrow> 'c session_client \<Rightarrow> 'c session_client" where
  "on_event cf cd EvStart s = start s"
| "on_event cf cd (EvRequest n a) s = snd (request cd n a s)"
| "on_event cf cd EvReconnect s = reconnect s"
| "on_event cf cd EvInvalidateNonce s = invalidateNonce s"
| "on_event cf cd EvClose s = close s"
| "on_event cf cd (EvEndpoints t r) s =
     on_task t (\<lambda>p s. case p of Resolving cl \<Rightarrow> endpoints_ready t cl r s | _ \<Rightarrow> s) s"
| "on_event cf cd (EvConnected t ac) s =
     on_task t (\<lambda>p s. case p of Connecting cl _ \<Rightarrow> connected cd t cl ac s | _ \<Rightarrow> s) s"
| "on_event cf cd (EvConnectFailed t) s =
     on_task t (\<lambda>p s. case p of Connecting cl eps \<Rightarrow> connect_next t cl eps s | _ \<Rightarrow> s) s"
| "on_event cf cd (EvLoginParam t r) s =
     on_task t (\<lambda>p s. case p of LoginParaming cl c \<Rightarrow> login_param_ready cd t cl c r s | _ \<Rightarrow> s) s"
| "on_event cf cd (EvTimeout t) s = on_task t (\<lambda>p s. continue_with cf cd t p JNull s) s"
| "on_event cf cd (EvSleepOver t) s = wake cd t s"
| "on_event cf cd (EvMessage c bs) s = (if conn s = Some c then handle cd bs s else s)"
| "on_event cf cd (EvClosed c) s = drop_conn (Some c) s"
| "on_event cf cd (EvBroken c) s = s\<lparr>broken := c # broken s\<rparr>"

end
