(* ===== verification/Session_Run.thy ===== *)
theory Session_Run
  imports Session
begin

section \<open>Runs of the session: frames, microtasks, events\<close>

text \<open>
  What each operation leaves alone, the termination of the microtask queue, and the run of a
  list of events. Between two events the runtime empties the microtask queue (\<open>drain\<close>).
\<close>

subsection \<open>Frames\<close>

lemma send_frame [simp]:
  "conn (snd (send cd i p s)) = conn s"
  "online (snd (send cd i p s)) = online s"
  "closed (snd (send cd i p s)) = closed s"
  "loopsStarted (snd (send cd i p s)) = loopsStarted s"
  "rid (snd (send cd i p s)) = rid s"
  "nonce (snd (send cd i p s)) = nonce s"
  "recv (snd (send cd i p s)) = recv s"
  "nextReqId (snd (send cd i p s)) = nextReqId s"
  "pendings (snd (send cd i p s)) = pendings s"
  "tasks (snd (send cd i p s)) = tasks s"
  "nextTask (snd (send cd i p s)) = nextTask s"
  "nextConn (snd (send cd i p s)) = nextConn s"
  "broken (snd (send cd i p s)) = broken s"
  "micro (snd (send cd i p s)) = micro s"
  by (simp_all add: send_def emit_def split: option.split prod.split)

text \<open>\<open>send\<close> appends at most one packet, with the id, name and arguments of the request.\<close>

lemma send_out:
  "out (snd (send cd i p s)) = out s \<or>
   (\<exists>c bs. conn s = Some c \<and> out (snd (send cd i p s)) = out s @ [Sent c i (pname p) (pparam p) bs])"
  by (simp add: send_def emit_def split: option.split prod.split)

lemma request_frame [simp]:
  "fst (request cd n a s) = nextReqId s + 1"
  "conn (snd (request cd n a s)) = conn s"
  "online (snd (request cd n a s)) = online s"
  "closed (snd (request cd n a s)) = closed s"
  "loopsStarted (snd (request cd n a s)) = loopsStarted s"
  "rid (snd (request cd n a s)) = rid s"
  "nonce (snd (request cd n a s)) = nonce s"
  "recv (snd (request cd n a s)) = recv s"
  "nextReqId (snd (request cd n a s)) = nextReqId s + 1"
  "pendings (snd (request cd n a s)) =
     pendings s @ [(nextReqId s + 1, \<lparr>pname = n, pparam = a\<rparr>)]"
  "tasks (snd (request cd n a s)) = tasks s"
  "nextTask (snd (request cd n a s)) = nextTask s"
  "nextConn (snd (request cd n a s)) = nextConn s"
  "broken (snd (request cd n a s)) = broken s"
  "micro (snd (request cd n a s)) = micro s"
  by (simp_all add: request_def Let_def)

definition handshake_entry :: "int \<times> pending \<Rightarrow> bool" where
  "handshake_entry e \<longleftrightarrow> uncounted (pname (snd e))"

abbreviation handshake_ids :: "(int \<times> pending) list \<Rightarrow> int set" where
  "handshake_ids ps \<equiv> fst ` set (filter handshake_entry ps)"

lemma resend_list_frame [simp]:
  "conn (resend_list cd ps s) = conn s"
  "online (resend_list cd ps s) = online s"
  "closed (resend_list cd ps s) = closed s"
  "loopsStarted (resend_list cd ps s) = loopsStarted s"
  "rid (resend_list cd ps s) = rid s"
  "nonce (resend_list cd ps s) = nonce s"
  "recv (resend_list cd ps s) = recv s"
  "nextReqId (resend_list cd ps s) = nextReqId s"
  "tasks (resend_list cd ps s) = tasks s"
  "nextTask (resend_list cd ps s) = nextTask s"
  "nextConn (resend_list cd ps s) = nextConn s"
  "broken (resend_list cd ps s) = broken s"
  by (induction cd ps s rule: resend_list.induct) (simp_all add: session_defs)

lemma resend_list_pendings:
  "pendings (resend_list cd ps s) = filter (\<lambda>e. fst e \<notin> handshake_ids ps) (pendings s)"
proof (induction cd ps s rule: resend_list.induct)
  case (2 cd i p ps s)
  then show ?case
    by (auto simp: session_defs handshake_entry_def intro!: filter_cong)
qed simp

lemma resend_list_micro:
  "micro (resend_list cd ps s) =
     micro s @ map (\<lambda>e. MSettled (fst e) JNull) (filter handshake_entry ps)"
  by (induction cd ps s rule: resend_list.induct)
    (simp_all add: session_defs handshake_entry_def)

lemma resendPending_frame [simp]:
  "conn (resendPending cd s) = conn s"
  "online (resendPending cd s) = online s"
  "closed (resendPending cd s) = closed s"
  "loopsStarted (resendPending cd s) = loopsStarted s"
  "rid (resendPending cd s) = rid s"
  "nonce (resendPending cd s) = nonce s"
  "recv (resendPending cd s) = recv s"
  "nextReqId (resendPending cd s) = nextReqId s"
  "tasks (resendPending cd s) = tasks s"
  "nextTask (resendPending cd s) = nextTask s"
  "nextConn (resendPending cd s) = nextConn s"
  "broken (resendPending cd s) = broken s"
  by (simp_all add: resendPending_def)

text \<open>
  When the request ids in flight are distinct, \<open>resendPending\<close> keeps exactly the entries that
  are not handshake requests.
\<close>

lemma resendPending_pendings:
  assumes "distinct (map fst (pendings s))"
  shows "pendings (resendPending cd s) = filter (\<lambda>e. \<not> handshake_entry e) (pendings s)"
proof -
  have "fst e \<in> handshake_ids (pendings s) \<longleftrightarrow> handshake_entry e" if "e \<in> set (pendings s)" for e
    using inj_on_image_mem_iff [of fst "set (pendings s)" e "set (filter handshake_entry (pendings s))"]
      that assms by (simp add: distinct_map)
  then show ?thesis
    by (auto simp: resendPending_def resend_list_pendings intro!: filter_cong)
qed

lemma resolve_all_frame [simp]:
  "conn (resolve_all ps s) = conn s"
  "online (resolve_all ps s) = online s"
  "closed (resolve_all ps s) = closed s"
  "loopsStarted (resolve_all ps s) = loopsStarted s"
  "rid (resolve_all ps s) = rid s"
  "nonce (resolve_all ps s) = nonce s"
  "recv (resolve_all ps s) = recv s"
  "nextReqId (resolve_all ps s) = nextReqId s"
  "pendings (resolve_all ps s) = pendings s"
  "tasks (resolve_all ps s) = tasks s"
  "nextTask (resolve_all ps s) = nextTask s"
  "nextConn (resolve_all ps s) = nextConn s"
  "broken (resolve_all ps s) = broken s"
  "micro (resolve_all ps s) = micro s @ map (\<lambda>e. MSettled (fst e) JNull) ps"
  "out (resolve_all ps s) = out s @ map (\<lambda>e. Settled (fst e) JNull) ps"
  "codec_st (resolve_all ps s) = codec_st s"
  by (induction ps s rule: resolve_all.induct) (simp_all add: session_defs)

lemma drop_conn_frame [simp]:
  "closed (drop_conn c s) = closed s"
  "loopsStarted (drop_conn c s) = loopsStarted s"
  "rid (drop_conn c s) = rid s"
  "nonce (drop_conn c s) = nonce s"
  "recv (drop_conn c s) = recv s"
  "nextReqId (drop_conn c s) = nextReqId s"
  "pendings (drop_conn c s) = pendings s"
  "tasks (drop_conn c s) = tasks s"
  "nextTask (drop_conn c s) = nextTask s"
  "nextConn (drop_conn c s) = nextConn s"
  "broken (drop_conn c s) = broken s"
  "micro (drop_conn c s) = micro s"
  by (simp_all add: drop_conn_def session_defs split: option.split)

lemma loops_frame [simp]:
  "f (supervisor_loop t s) = f s" "f (heartbeat_loop t m s) = f s"
  if "\<And>ts. f (s\<lparr>tasks := ts\<rparr>) = f s"
  using that by (simp_all add: supervisor_loop_def heartbeat_loop_def session_defs)

lemma start_loops_frame [simp]:
  "conn (start_loops s) = conn s"
  "online (start_loops s) = online s"
  "closed (start_loops s) = closed s"
  "rid (start_loops s) = rid s"
  "nonce (start_loops s) = nonce s"
  "recv (start_loops s) = recv s"
  "nextReqId (start_loops s) = nextReqId s"
  "pendings (start_loops s) = pendings s"
  "nextConn (start_loops s) = nextConn s"
  "micro (start_loops s) = micro s"
  "out (start_loops s) = out s"
  by (simp_all add: start_loops_def Let_def spawn_def)

lemma establish_return_frame [simp]:
  "conn (establish_return t cl ok s) = conn s"
  "online (establish_return t cl ok s) = online s"
  "closed (establish_return t cl ok s) = closed s"
  "rid (establish_return t cl ok s) = rid s"
  "nonce (establish_return t cl ok s) = nonce s"
  "recv (establish_return t cl ok s) = recv s"
  "nextReqId (establish_return t cl ok s) = nextReqId s"
  "pendings (establish_return t cl ok s) = pendings s"
  "nextConn (establish_return t cl ok s) = nextConn s"
  "micro (establish_return t cl ok s) = micro s"
  by (simp_all add: establish_return_def session_defs split: caller.split)

subsection \<open>The microtask queue always empties\<close>

text \<open>
  Every microtask is paid for: a settled promise has lost its entry in \<open>pendings\<close>, a woken
  loop weighs 2 because it may issue one request.
\<close>

fun mweight :: "microtask \<Rightarrow> nat" where
  "mweight (MSettled _ _) = 1"
| "mweight (MWake _) = 2"

definition micro_load :: "'c session_client \<Rightarrow> nat" where
  "micro_load s = length (pendings s) + sum_list (map mweight (micro s))"

lemma micro_load_cong:
  "pendings s = pendings s' \<Longrightarrow> micro s = micro s' \<Longrightarrow> micro_load s = micro_load s'"
  by (simp add: micro_load_def)

lemma sum_mweight_settled [simp]:
  "sum_list (map mweight (map (\<lambda>e. MSettled (f e) (g e)) es)) = length es"
  by (induction es) simp_all

lemma filter_keys_length:
  "length (filter (\<lambda>e. fst e \<notin> fst ` set (filter P ps)) ps) + length (filter P ps) \<le> length ps"
proof -
  have "length (filter (\<lambda>e. fst e \<notin> fst ` set (filter P ps)) ps) \<le> length (filter (\<lambda>e. \<not> P e) ps)"
    by (rule length_filter_imp) auto
  then show ?thesis using sum_length_filter_compl [of P ps] by simp
qed

lemma micro_load_resendPending: "micro_load (resendPending cd s) \<le> micro_load s"
  using filter_keys_length [of handshake_entry "pendings s"]
  by (simp add: micro_load_def resendPending_def resend_list_pendings resend_list_micro
      del: map_map)

lemma micro_load_failPending [simp]: "micro_load (failPending s) = micro_load s"
  by (simp add: micro_load_def failPending_def del: map_map)

lemma micro_load_resume_result:
  "micro_load (resume_result cd t cl c v s) \<le> micro_load s"
proof -
  have "micro_load (resendPending cd (s\<lparr>nonce := n, online := True\<rparr>)) \<le> micro_load s" for n
    using micro_load_resendPending [of cd "s\<lparr>nonce := n, online := True\<rparr>"]
    by (simp add: micro_load_def)
  then show ?thesis
    by (simp add: resume_result_def resume_failed_def Let_def micro_load_def session_defs)
qed

lemma micro_load_login_result: "micro_load (login_result t cl c v s) = micro_load s"
proof -
  have "micro_load (failPending (s\<lparr>rid := r, nonce := n, recv := k, online := True\<rparr>)) = micro_load s"
    for r n k by (subst micro_load_failPending) (simp add: micro_load_def)
  then show ?thesis
    by (simp add: login_result_def establish_fail_def Let_def micro_load_def session_defs)
qed

lemma micro_load_loops:
  "micro_load (supervisor_loop t s) = micro_load s"
  "micro_load (heartbeat_loop t m s) = micro_load s"
  by (simp_all add: micro_load_def)

lemma micro_load_ping_result: "micro_load (ping_result cf t m c v s) = micro_load s"
  by (simp add: ping_result_def micro_load_loops) (simp add: micro_load_def)

lemma micro_load_wake: "micro_load (wake cd t s) \<le> micro_load s + 1"
  by (simp add: wake_def heartbeat_wake_def split_beta micro_load_loops split: option.split pc.split)
    (simp add: micro_load_def session_defs)

lemma micro_load_settled: "micro_load (settled cf cd i v s) \<le> micro_load s"
proof (cases "find (\<lambda>e. awaits i (snd e)) (tasks s)")
  case (Some e)
  then show ?thesis
    by (cases "(cf, cd, fst e, snd e, v, s)" rule: continue_with.cases)
      (auto simp: settled_def split_beta micro_load_resume_result micro_load_login_result
        micro_load_ping_result)
qed (simp add: settled_def)

lemma run_micro_load: "micro_load (run_micro cf cd m s) < mweight m + micro_load s"
  using micro_load_settled micro_load_wake
  by (cases m) (fastforce simp: run_micro_def less_Suc_eq_le)+

function drain :: "session_conf \<Rightarrow> 'c codec \<Rightarrow> 'c session_client \<Rightarrow> 'c session_client" where
  "drain cf cd s =
     (case micro s of
        [] \<Rightarrow> s
      | m # ms \<Rightarrow> drain cf cd (run_micro cf cd m (s\<lparr>micro := ms\<rparr>)))"
  by pat_completeness auto
termination
proof (relation "measure (\<lambda>(cf, cd, s). micro_load s)")
  fix cf :: session_conf and cd :: "'c codec" and s :: "'c session_client" and m ms
  assume "micro s = m # ms"
  then have "mweight m + micro_load (s\<lparr>micro := ms\<rparr>) = micro_load s"
    by (simp add: micro_load_def)
  with run_micro_load [of cf cd m "s\<lparr>micro := ms\<rparr>"]
  show "((cf, cd, run_micro cf cd m (s\<lparr>micro := ms\<rparr>)), cf, cd, s)
          \<in> measure (\<lambda>(cf, cd, s). micro_load s)"
    by simp
qed simp

declare drain.simps [simp del]

lemma drain_Nil [simp]: "micro s = [] \<Longrightarrow> drain cf cd s = s"
  by (subst drain.simps) simp

lemma drain_Cons: "micro s = m # ms \<Longrightarrow> drain cf cd s = drain cf cd (run_micro cf cd m (s\<lparr>micro := ms\<rparr>))"
  by (subst drain.simps) simp

lemma drain_micro [simp]: "micro (drain cf cd s) = []"
proof (induction cf cd s rule: drain.induct)
  case (1 cf cd s)
  then show ?case by (cases "micro s") (simp_all add: drain_Cons)
qed

text \<open>An invariant of the microtasks is an invariant of the drained state.\<close>

lemma drain_invariant:
  assumes "\<And>s m ms. P s \<Longrightarrow> micro s = m # ms \<Longrightarrow> P (run_micro cf cd m (s\<lparr>micro := ms\<rparr>))"
    and "P s"
  shows "P (drain cf cd s)"
  using assms(2)
proof (induction "micro_load s" arbitrary: s rule: less_induct)
  case less
  show ?case
  proof (cases "micro s")
    case Nil
    with less.prems show ?thesis by simp
  next
    case (Cons m ms)
    then have "micro_load (run_micro cf cd m (s\<lparr>micro := ms\<rparr>)) < micro_load s"
      using run_micro_load [of cf cd m "s\<lparr>micro := ms\<rparr>"] by (simp add: micro_load_def)
    with less.hyps assms(1) [OF less.prems Cons] show ?thesis
      by (simp add: drain_Cons [OF Cons])
  qed
qed

subsection \<open>Runs\<close>

definition turn ::
  "session_conf \<Rightarrow> 'c codec \<Rightarrow> event \<Rightarrow> 'c session_client \<Rightarrow> 'c session_client" where
  "turn cf cd ev s = drain cf cd (on_event cf cd ev s)"

fun run ::
  "session_conf \<Rightarrow> 'c codec \<Rightarrow> event list \<Rightarrow> 'c session_client \<Rightarrow> 'c session_client" where
  "run cf cd [] s = s"
| "run cf cd (ev # evs) s = run cf cd evs (turn cf cd ev s)"

lemma run_append: "run cf cd (xs @ ys) s = run cf cd ys (run cf cd xs s)"
  by (induction xs arbitrary: s) simp_all

lemma turn_micro [simp]: "micro (turn cf cd ev s) = []"
  by (simp add: turn_def)

lemma run_micro_Nil: "micro s = [] \<Longrightarrow> micro (run cf cd evs s) = []"
  by (induction evs arbitrary: s) simp_all

lemma run_invariant:
  assumes "\<And>s ev. P s \<Longrightarrow> P (turn cf cd ev s)" and "P s"
  shows "P (run cf cd evs s)"
  using assms(2) by (induction evs arbitrary: s) (simp_all add: assms(1))

subsection \<open>The interface of an invariant\<close>

text \<open>
  What has to be shown of a state predicate so that it holds throughout every run: each event
  keeps it when no microtask is left, and each microtask keeps it.
\<close>

locale session_invariant =
  fixes cf :: session_conf
    and cd :: "'c codec"
    and I :: "'c session_client \<Rightarrow> bool"
  assumes event_keeps: "I s \<Longrightarrow> micro s = [] \<Longrightarrow> I (on_event cf cd ev s)"
    and micro_keeps: "I s \<Longrightarrow> micro s = m # ms \<Longrightarrow> I (run_micro cf cd m (s\<lparr>micro := ms\<rparr>))"
begin

lemma turn_keeps: "I s \<Longrightarrow> micro s = [] \<Longrightarrow> I (turn cf cd ev s)"
  unfolding turn_def by (rule drain_invariant) (auto intro: micro_keeps event_keeps)

lemma run_keeps: "I s \<Longrightarrow> micro s = [] \<Longrightarrow> I (run cf cd evs s)"
  by (induction evs arbitrary: s) (simp_all add: turn_keeps)

end

end
