(* ===== verification/Session_Ledger.thy ===== *)
theory Session_Ledger
  imports Session_Run
begin

section \<open>The ledger of requests\<close>

text \<open>
  Request ids, packets sent and promises settled, over whole runs. The invariant \<open>ledger\<close>
  says that ids are given out once and in order, that every packet sent under an id carries
  the name and arguments of the request that got this id, and that a promise settles at most
  once.
\<close>

fun packets :: "effect list \<Rightarrow> (int \<times> jsstr \<times> jsval) list" where
  "packets [] = []"
| "packets (Sent c i n a bs # es) = (i, n, a) # packets es"
| "packets (_ # es) = packets es"

fun settlements :: "effect list \<Rightarrow> int list" where
  "settlements [] = []"
| "settlements (Settled i v # es) = i # settlements es"
| "settlements (_ # es) = settlements es"

lemma packets_append [simp]: "packets (es @ fs) = packets es @ packets fs"
  by (induction es rule: packets.induct) simp_all

lemma settlements_append [simp]: "settlements (es @ fs) = settlements es @ settlements fs"
  by (induction es rule: settlements.induct) simp_all

lemma packets_Sent_iff: "(i, n, a) \<in> set (packets es) \<longleftrightarrow> (\<exists>c bs. Sent c i n a bs \<in> set es)"
  by (induction es rule: packets.induct) auto

lemma settlements_iff: "i \<in> set (settlements es) \<longleftrightarrow> (\<exists>v. Settled i v \<in> set es)"
  by (induction es rule: settlements.induct) auto

definition ids_ok :: "(int \<times> pending) list \<Rightarrow> int \<Rightarrow> bool" where
  "ids_ok ps n \<longleftrightarrow>
     sorted_wrt (<) (map fst ps) \<and> (\<forall>i \<in> fst ` set ps. 1 \<le> i \<and> i \<le> n) \<and> 0 \<le> n"

definition packets_ok ::
  "(int \<times> pending) list \<Rightarrow> int \<Rightarrow> (int \<times> jsstr \<times> jsval) list \<Rightarrow> bool" where
  "packets_ok ps n pk \<longleftrightarrow>
     (\<forall>e \<in> set pk. fst e \<le> n) \<and>
     (\<forall>x \<in> set ps. \<forall>e \<in> set pk. fst e = fst x \<longrightarrow> snd e = (pname (snd x), pparam (snd x))) \<and>
     (\<forall>e \<in> set pk. \<forall>f \<in> set pk. fst e = fst f \<longrightarrow> snd e = snd f)"

definition settled_ok :: "(int \<times> pending) list \<Rightarrow> int \<Rightarrow> int list \<Rightarrow> bool" where
  "settled_ok ps n st \<longleftrightarrow>
     distinct st \<and> (\<forall>i \<in> set st. i \<le> n) \<and> set st \<inter> fst ` set ps = {}"

definition ledger :: "'c session_client \<Rightarrow> bool" where
  "ledger s \<longleftrightarrow>
     ids_ok (pendings s) (nextReqId s) \<and>
     packets_ok (pendings s) (nextReqId s) (packets (out s)) \<and>
     settled_ok (pendings s) (nextReqId s) (settlements (out s))"

lemma ids_ok_distinct: "ids_ok ps n \<Longrightarrow> distinct (map fst ps)"
  by (auto simp: ids_ok_def strict_sorted_iff)

lemma ids_ok_request:
  assumes "ids_ok ps n"
  shows "ids_ok (ps @ [(n + 1, p)]) (n + 1)"
proof -
  have "\<forall>i \<in> set (map fst ps). i < n + 1"
    using assms by (simp add: ids_ok_def)
  then show ?thesis
    using assms by (auto simp: ids_ok_def sorted_wrt_append)
qed

lemma ids_ok_filter: "ids_ok ps n \<Longrightarrow> ids_ok (filter P ps) n"
  by (auto simp: ids_ok_def sorted_wrt_map sorted_wrt_filter)

lemma packets_ok_request:
  assumes "packets_ok ps n pk"
  shows "packets_ok (ps @ [(n + 1, p)]) (n + 1) pk"
proof -
  have "fst e < n + 1" if "e \<in> set pk" for e
    using assms that by (simp add: packets_ok_def)
  then have "\<forall>e \<in> set pk. fst e \<le> n + 1" and "\<forall>e \<in> set pk. fst e = n + 1 \<longrightarrow> snd e = (pname p, pparam p)"
    by (meson order_less_imp_le, metis order_less_irrefl)
  moreover note assms [unfolded packets_ok_def]
  ultimately show ?thesis
    unfolding packets_ok_def set_append ball_Un list.set ball_simps fst_conv snd_conv by blast
qed

lemma packets_ok_subset: "packets_ok ps n pk \<Longrightarrow> set qs \<subseteq> set ps \<Longrightarrow> packets_ok qs n pk"
  unfolding packets_ok_def by blast

lemma packets_ok_send:
  assumes "packets_ok ps n pk" and "(i, p) \<in> set ps" and "ids_ok ps n"
  shows "packets_ok ps n (pk @ [(i, pname p, pparam p)])"
proof -
  have "i \<le> n"
    using assms(2,3) by (auto simp: ids_ok_def)
  moreover have "snd x = p" if "x \<in> set ps" "fst x = i" for x
    using ids_ok_distinct [OF assms(3)] that assms(2) by (metis eq_key_imp_eq_value prod.collapse)
  moreover have "snd e = (pname p, pparam p)" if "e \<in> set pk" "fst e = i" for e
    using assms(1,2) that unfolding packets_ok_def by fastforce
  moreover note assms(1) [unfolded packets_ok_def]
  ultimately show ?thesis
    unfolding packets_ok_def set_append ball_Un
    by (intro conjI ballI impI) (simp_all (no_asm_use), (metis fst_conv snd_conv singletonD)+)
qed

lemma settled_ok_request: "settled_ok ps n st \<Longrightarrow> settled_ok (ps @ [(n + 1, p)]) (n + 1) st"
  by (fastforce simp: settled_ok_def)

lemma settled_ok_settle:
  assumes "settled_ok ps n st" and "i \<in> fst ` set ps" and "ids_ok ps n"
  shows "settled_ok (filter (\<lambda>e. fst e \<noteq> i) ps) n (st @ [i])"
  using assms by (auto simp: settled_ok_def ids_ok_def)

lemma settled_ok_settle_all:
  assumes "settled_ok ps n st" and "ids_ok ps n"
  shows "settled_ok [] n (st @ map fst ps)"
  using assms ids_ok_distinct [OF assms(2)] by (auto simp: settled_ok_def ids_ok_def)

lemma ledger_cong:
  assumes "pendings s' = pendings s" "nextReqId s' = nextReqId s"
    and "packets (out s') = packets (out s)" "settlements (out s') = settlements (out s)"
  shows "ledger s' = ledger s"
  using assms by (simp add: ledger_def)

lemma ledger_new [simp]: "ledger (new_session cs)"
  by (simp add: ledger_def new_session_def ids_ok_def packets_ok_def settled_ok_def)

lemma ledger_distinct: "ledger s \<Longrightarrow> distinct (map fst (pendings s))"
  unfolding ledger_def using ids_ok_distinct by blast

lemma ledger_send:
  assumes "ledger s" and "(i, p) \<in> set (pendings s)"
  shows "ledger (snd (send cd i p s))"
  using send_out [of cd i p s] assms by (auto simp: ledger_def packets_ok_send)

lemma ledger_request: "ledger s \<Longrightarrow> ledger (snd (request cd n a s))"
  unfolding request_def Let_def snd_conv
  by (rule ledger_send)
    (simp_all add: ledger_def ids_ok_request packets_ok_request settled_ok_request)

lemma ledger_resolve_forget:
  assumes "ledger s" and "(i, p) \<in> set (pendings s)"
  shows "ledger (resolve i v (forget i s))"
proof -
  have "i \<in> fst ` set (pendings s)"
    using assms(2) by force
  moreover have "packets_ok (filter (\<lambda>e. fst e \<noteq> i) (pendings s)) (nextReqId s) (packets (out s))"
    using assms(1) by (auto simp: ledger_def intro: packets_ok_subset)
  ultimately show ?thesis
    using assms(1) by (simp add: ledger_def session_defs ids_ok_filter settled_ok_settle)
qed

lemma ledger_resend_list:
  assumes "ledger s" and "set ps \<subseteq> set (pendings s)" and "distinct (map fst ps)"
  shows "ledger (resend_list cd ps s)"
  using assms
proof (induction cd ps s rule: resend_list.induct)
  case (2 cd i p ps s)
  let ?s = "if uncounted (pname p) then resolve i JNull (forget i s) else snd (send cd i p s)"
  have "ledger ?s"
    using 2(2,3) by (auto intro: ledger_resolve_forget ledger_send)
  moreover have "set ps \<subseteq> set (pendings ?s)"
    using 2(3,4) by (force simp: session_defs)
  ultimately show ?case
    using 2 by simp
qed simp

lemma ledger_resendPending: "ledger s \<Longrightarrow> ledger (resendPending cd s)"
  by (simp add: resendPending_def ledger_resend_list ledger_distinct)

lemma settlements_map [simp]: "settlements (map (\<lambda>e. Settled (f e) (g e)) es) = map f es"
  by (induction es) simp_all

lemma packets_map [simp]: "packets (map (\<lambda>e. Settled (f e) (g e)) es) = []"
  by (induction es) simp_all

lemma ledger_failPending: "ledger s \<Longrightarrow> ledger (failPending s)"
  by (auto simp: ledger_def failPending_def settled_ok_settle_all intro: packets_ok_subset)
    (simp add: ids_ok_def)

subsection \<open>Every operation keeps the ledger\<close>

lemma drop_conn_effects [simp]:
  "packets (out (drop_conn c s)) = packets (out s)"
  "settlements (out (drop_conn c s)) = settlements (out s)"
  by (simp_all add: drop_conn_def session_defs split: option.split)

lemma establish_return_effects [simp]:
  "packets (out (establish_return t cl ok s)) = packets (out s)"
  "settlements (out (establish_return t cl ok s)) = settlements (out s)"
  by (simp_all add: establish_return_def session_defs split: caller.split)

lemma ledger_cong_simps [simp]:
  "ledger (drop_conn c s) = ledger s"
  "ledger (establish_return t cl ok s) = ledger s"
  "ledger (establish_fail t cl c0 s) = ledger s"
  "ledger (emit (Notify x) s) = ledger s"
  "ledger (emit (Pushed n a) s) = ledger s"
  "ledger (emit (ConnClose c') s) = ledger s"
  "ledger (emit (ConnectTo ep) s) = ledger s"
  "ledger (notifyState x s) = ledger s"
  "ledger (set_task t p s) = ledger s"
  "ledger (end_task t s) = ledger s"
  "ledger (spawn p s) = ledger s"
  "ledger (count s) = ledger s"
  "ledger (wake_all s) = ledger s"
  "ledger (s\<lparr>codec_st := cs\<rparr>) = ledger s"
  "ledger (s\<lparr>nonce := v\<rparr>) = ledger s"
  "ledger (s\<lparr>rid := w, nonce := v, recv := k, online := b\<rparr>) = ledger s"
  "ledger (s\<lparr>nonce := v, online := b\<rparr>) = ledger s"
  "ledger (s\<lparr>conn := c, online := b\<rparr>) = ledger s"
  "ledger (s\<lparr>conn := c\<rparr>) = ledger s"
  "ledger (s\<lparr>closed := b\<rparr>) = ledger s"
  "ledger (s\<lparr>loopsStarted := b\<rparr>) = ledger s"
  "ledger (s\<lparr>nextConn := k'\<rparr>) = ledger s"
  "ledger (s\<lparr>broken := bs\<rparr>) = ledger s"
  "ledger (s\<lparr>micro := ms\<rparr>) = ledger s"
  by (rule ledger_cong; simp add: session_defs establish_fail_def)+

lemma ledger_loops [simp]:
  "ledger (supervisor_loop t s) = ledger s"
  "ledger (heartbeat_loop t m s) = ledger s"
  by (simp_all add: supervisor_loop_def heartbeat_loop_def)

lemma resolve_count: "resolve i v (count s) = count (resolve i v s)"
  by (simp add: session_defs)

lemma ledger_handle:
  assumes "ledger s"
  shows "ledger (handle cd bs s)"
proof -
  have "ledger (resolve i v (forget i (s\<lparr>codec_st := cs\<rparr>)))"
    if "map_of (pendings s) i = Some p" for i v p cs
    using assms that by (auto intro!: ledger_resolve_forget dest: map_of_SomeD)
  then show ?thesis
    using assms
    by (simp add: handle_def Let_def resolve_count split: prod.split option.split codec_result.split)
qed

lemma ledger_establish:
  "ledger s \<Longrightarrow> ledger (tryResume cd t cl c s)"
  "ledger s \<Longrightarrow> ledger (connect_next t cl eps s)"
  "ledger s \<Longrightarrow> ledger (endpoints_ready t cl r s)"
  "ledger s \<Longrightarrow> ledger (connected cd t cl ac s)"
  "ledger s \<Longrightarrow> ledger (login_param_ready cd t cl c v s)"
proof -
  show tr: "ledger s \<Longrightarrow> ledger (tryResume cd t cl c s)" for s c
    by (simp add: tryResume_def resume_failed_def split_beta ledger_request)
  show cn: "ledger s \<Longrightarrow> ledger (connect_next t cl eps s)" for eps
    by (cases eps) simp_all
  show "ledger s \<Longrightarrow> ledger (endpoints_ready t cl r s)"
    by (simp add: endpoints_ready_def cn split: option.split)
  show "ledger s \<Longrightarrow> ledger (connected cd t cl ac s)"
    by (simp add: connected_def Let_def tr)
  show "ledger s \<Longrightarrow> ledger (login_param_ready cd t cl c v s)"
    by (simp add: login_param_ready_def split_beta ledger_request split: option.split)
qed

lemma ledger_results:
  "ledger s \<Longrightarrow> ledger (resume_result cd t cl c v s)"
  "ledger s \<Longrightarrow> ledger (login_result t cl c v s)"
  "ledger s \<Longrightarrow> ledger (ping_result cf t m cc v s)"
  "ledger s \<Longrightarrow> ledger (heartbeat_wake cd t m s)"
  by (simp_all add: resume_result_def resume_failed_def login_result_def ping_result_def
      heartbeat_wake_def Let_def split_beta ledger_resendPending ledger_failPending ledger_request)

lemma ledger_continue: "ledger s \<Longrightarrow> ledger (continue_with cf cd t p v s)"
  by (cases p) (simp_all add: ledger_results)

lemma ledger_wake: "ledger s \<Longrightarrow> ledger (wake cd t s)"
  by (simp add: wake_def ledger_results split: option.split pc.split)

lemma ledger_run_micro: "ledger s \<Longrightarrow> ledger (run_micro cf cd m s)"
  by (simp add: run_micro_def settled_def split_beta ledger_continue ledger_wake
      split: microtask.split option.split)

lemma ledger_close: "ledger s \<Longrightarrow> ledger (close s)"
  by (simp add: close_def Let_def ledger_failPending split: option.split)

lemma ledger_on_event: "ledger s \<Longrightarrow> ledger (on_event cf cd ev s)"
  by (cases ev)
    (auto simp: start_def reconnect_def invalidateNonce_def on_task_def ledger_request ledger_close
      ledger_establish ledger_continue ledger_wake ledger_handle split: option.split pc.split)

interpretation ledger_inv: session_invariant cf cd ledger for cf and cd :: "'c codec"
  by unfold_locales (simp_all add: ledger_on_event ledger_run_micro)

lemma new_session_micro [simp]: "micro (new_session cs) = []"
  by (simp add: new_session_def)

end
