(* ===== verification/Session_Link.thy ===== *)
theory Session_Link
  imports Session_Ledger
begin

section \<open>The connection of the session\<close>

text \<open>
  The invariant \<open>link\<close>: the session is online only over a connection, a closed session has
  none, the connection is one the transport handed out, and the downlink count is not
  negative. Of the promises that have settled and whose waiting code has not run yet, only the
  first can carry an accepting handshake response, and then a connection is there.
\<close>

definition link :: "'c session_client \<Rightarrow> bool" where
  "link s \<longleftrightarrow>
     (online s \<longrightarrow> conn s \<noteq> None) \<and> (closed s \<longrightarrow> conn s = None) \<and>
     (\<forall>c. conn s = Some c \<longrightarrow> c < nextConn s) \<and> 0 \<le> recv s"

fun accepting :: "microtask \<Rightarrow> bool" where
  "accepting (MSettled i v) = resp_ok v"
| "accepting (MWake t) = False"

definition quiet :: "'c session_client \<Rightarrow> bool" where
  "quiet s \<longleftrightarrow> (\<forall>m \<in> set (micro s). \<not> accepting m)"

definition link_inv :: "'c session_client \<Rightarrow> bool" where
  "link_inv s \<longleftrightarrow>
     link s \<and> (\<forall>m \<in> set (tl (micro s)). \<not> accepting m) \<and>
     (micro s \<noteq> [] \<and> accepting (hd (micro s)) \<longrightarrow> conn s \<noteq> None)"

lemma link_inv_quiet: "link s \<Longrightarrow> quiet s \<Longrightarrow> link_inv s"
  by (cases "micro s") (auto simp: link_inv_def quiet_def)

lemma link_cong:
  assumes "conn s' = conn s" "online s' = online s" "closed s' = closed s"
    "nextConn s' = nextConn s" "recv s' = recv s"
  shows "link s' = link s"
  using assms by (simp add: link_def)

lemma quiet_cong: "micro s' = micro s \<Longrightarrow> quiet s' = quiet s"
  by (simp add: quiet_def)

lemma resp_ok_JNull [simp]: "\<not> resp_ok JNull"
  by (simp add: resp_ok_def)

lemma accepting_JNull [simp]: "\<not> accepting (MSettled i JNull)"
  by simp

lemma link_simps [simp]:
  "link (emit e s) = link s"
  "link (notifyState x s) = link s"
  "link (set_task t p s) = link s"
  "link (end_task t s) = link s"
  "link (spawn p s) = link s"
  "link (wake_all s) = link s"
  "link (forget i s) = link s"
  "link (resolve i v s) = link s"
  "link (snd (request cd n a s)) = link s"
  "link (snd (send cd i' p' s)) = link s"
  "link (resendPending cd s) = link s"
  "link (failPending s) = link s"
  "link (establish_return t cl ok s) = link s"
  "link (supervisor_loop t s) = link s"
  "link (heartbeat_loop t m s) = link s"
  "link (s\<lparr>codec_st := cs\<rparr>) = link s"
  "link (s\<lparr>nonce := w\<rparr>) = link s"
  "link (s\<lparr>loopsStarted := b\<rparr>) = link s"
  "link (s\<lparr>broken := bs\<rparr>) = link s"
  "link (s\<lparr>micro := ms\<rparr>) = link s"
  by (rule link_cong; simp add: session_defs failPending_def)+

lemma quiet_simps [simp]:
  "quiet (emit e s) = quiet s"
  "quiet (notifyState x s) = quiet s"
  "quiet (set_task t p s) = quiet s"
  "quiet (end_task t s) = quiet s"
  "quiet (spawn p s) = quiet s"
  "quiet (count s) = quiet s"
  "quiet (snd (request cd n a s)) = quiet s"
  "quiet (drop_conn c s) = quiet s"
  "quiet (establish_return t cl ok s) = quiet s"
  "quiet (supervisor_loop t s) = quiet s"
  "quiet (heartbeat_loop t m s) = quiet s"
  "quiet (s\<lparr>codec_st := cs\<rparr>) = quiet s"
  "quiet (s\<lparr>nonce := w\<rparr>) = quiet s"
  "quiet (s\<lparr>loopsStarted := b\<rparr>) = quiet s"
  "quiet (s\<lparr>broken := bs\<rparr>) = quiet s"
  "quiet (s\<lparr>closed := b\<rparr>) = quiet s"
  "quiet (s\<lparr>conn := cn\<rparr>) = quiet s"
  "quiet (s\<lparr>nextConn := k'\<rparr>) = quiet s"
  "quiet (s\<lparr>conn := cn, online := b\<rparr>) = quiet s"
  "quiet (s\<lparr>nonce := w, online := b\<rparr>) = quiet s"
  "quiet (s\<lparr>rid := w', nonce := w, recv := k, online := b\<rparr>) = quiet s"
  by (rule quiet_cong; simp add: session_defs)+

lemma quiet_resendPending [simp]: "quiet (resendPending cd s) = quiet s"
  by (auto simp: quiet_def resendPending_def resend_list_micro)

lemma quiet_failPending [simp]: "quiet (failPending s) = quiet s"
  by (auto simp: quiet_def failPending_def)

lemma quiet_wake_all [simp]: "quiet (wake_all s) = quiet s"
  by (auto simp: quiet_def wake_all_def)

lemma link_drop [simp]: "link s \<Longrightarrow> link (drop_conn c s)"
  by (auto simp: link_def drop_conn_def session_defs split: option.split)

lemma link_establish_fail [simp]: "link s \<Longrightarrow> link (establish_fail t cl c s)"
  by (simp add: establish_fail_def)

lemma quiet_establish_fail [simp]: "quiet (establish_fail t cl c s) = quiet s"
  by (simp add: establish_fail_def)

subsection \<open>Every operation keeps the connection consistent\<close>

lemma link_login_result:
  "link s \<Longrightarrow> (resp_ok v \<longrightarrow> conn s \<noteq> None) \<Longrightarrow> link (login_result t cl c v s)"
  by (auto simp: login_result_def Let_def) (auto simp: link_def)

lemma link_resume_result:
  "link s \<Longrightarrow> (resp_ok v \<longrightarrow> conn s \<noteq> None) \<Longrightarrow> link (resume_result cd t cl c v s)"
  by (auto simp: resume_result_def resume_failed_def Let_def) (auto simp: link_def)

lemma link_ping_result: "link s \<Longrightarrow> link (ping_result cf t m c v s)"
  by (simp add: ping_result_def)

lemma quiet_results [simp]:
  "quiet (login_result t cl c v s) = quiet s"
  "quiet (resume_result cd t cl c v s) = quiet s"
  "quiet (ping_result cf t m cc v s) = quiet s"
  by (simp_all add: login_result_def resume_result_def resume_failed_def ping_result_def Let_def)

lemma continue_link:
  "link s \<Longrightarrow> (resp_ok v \<longrightarrow> conn s \<noteq> None) \<Longrightarrow> link (continue_with cf cd t p v s)"
  by (cases p) (simp_all add: link_login_result link_resume_result link_ping_result)

lemma continue_quiet [simp]: "quiet (continue_with cf cd t p v s) = quiet s"
  by (cases p) simp_all

lemma wake_link: "link s \<Longrightarrow> link (wake cd t s)"
  by (simp add: wake_def heartbeat_wake_def split_beta split: option.split pc.split)

lemma wake_quiet [simp]: "quiet (wake cd t s) = quiet s"
  by (simp add: wake_def heartbeat_wake_def split_beta split: option.split pc.split)

lemma run_micro_link:
  assumes "link s" "quiet s" "accepting m \<longrightarrow> conn s \<noteq> None"
  shows "link (run_micro cf cd m s) \<and> quiet (run_micro cf cd m s)"
  using assms
  by (cases m) (auto simp: run_micro_def settled_def continue_link wake_link split: option.split)

lemma tryResume_link [simp]:
  "link s \<Longrightarrow> link (tryResume cd t cl c s)" "quiet (tryResume cd t cl c s) = quiet s"
  by (simp_all add: tryResume_def resume_failed_def split_beta)

lemma connect_next_link [simp]:
  "link (connect_next t cl eps s) = link s" "quiet (connect_next t cl eps s) = quiet s"
  by (cases eps; simp)+

lemma connected_link:
  assumes "link s" and "quiet s"
  shows "link (connected cd t cl ac s) \<and> quiet (connected cd t cl ac s)"
proof -
  have "link (s\<lparr>nextConn := nextConn s + 1\<rparr>)"
    using assms(1) by (auto simp: link_def)
  moreover have "link (s\<lparr>nextConn := nextConn s + 1, conn := Some (nextConn s)\<rparr>)" if "\<not> closed s"
    using assms(1) that by (auto simp: link_def)
  ultimately show ?thesis
    using assms(2) by (auto simp: connected_def Let_def)
qed

lemma link_close: "link s \<Longrightarrow> link (close s)"
proof -
  assume "link s"
  then have "link (s\<lparr>closed := True, conn := None, online := False\<rparr>)"
    by (simp add: link_def)
  then have "link ((failPending (s\<lparr>closed := True\<rparr>))\<lparr>conn := None, online := False\<rparr>)"
    by (simp add: link_def failPending_def)
  then show ?thesis
    by (auto simp: close_def Let_def split: option.split)
qed

lemma quiet_close [simp]: "quiet (close s) = quiet s"
  by (simp add: close_def Let_def split: option.split)

lemma link_inv_handle:
  assumes "link s" and "micro s = []" and "conn s = Some c"
  shows "link_inv (handle cd bs s)"
  using assms
  by (auto simp: handle_def Let_def link_inv_def link_def session_defs
      split: prod.split option.split codec_result.split)

lemma link_event:
  assumes "link s" and "micro s = []"
  shows "link_inv (on_event cf cd ev s)"
proof (cases "\<exists>c bs. ev = EvMessage c bs")
  case True
  then show ?thesis
    using assms link_inv_handle link_inv_quiet [of s] by (auto simp: quiet_def)
next
  case False
  have "quiet s"
    using assms(2) by (simp add: quiet_def)
  with False assms have "link (on_event cf cd ev s) \<and> quiet (on_event cf cd ev s)"
    by (cases ev)
      (auto simp: start_def reconnect_def invalidateNonce_def on_task_def link_close
        endpoints_ready_def login_param_ready_def split_beta connected_link continue_link wake_link
        split: option.split pc.split, (simp add: link_def)+)
  then show ?thesis
    by (simp add: link_inv_quiet)
qed

interpretation link_inv: session_invariant cf cd link_inv for cf and cd :: "'c codec"
proof unfold_locales
  fix cf and cd :: "'c codec" and s :: "'c session_client" and ev
  assume "link_inv s" "micro s = []"
  then show "link_inv (on_event cf cd ev s)"
    by (intro link_event) (simp_all add: link_inv_def)
next
  fix cf and cd :: "'c codec" and s :: "'c session_client" and m ms
  assume "link_inv s" "micro s = m # ms"
  then have "link (s\<lparr>micro := ms\<rparr>)" "quiet (s\<lparr>micro := ms\<rparr>)"
      "accepting m \<longrightarrow> conn (s\<lparr>micro := ms\<rparr>) \<noteq> None"
    by (auto simp: link_inv_def quiet_def)
  then show "link_inv (run_micro cf cd m (s\<lparr>micro := ms\<rparr>))"
    using run_micro_link by (blast intro: link_inv_quiet)
qed

lemma link_new [simp]: "link_inv (new_session cs)"
  by (simp add: link_inv_def link_def new_session_def)

end
