(* ===== verification/Session_Count.thy ===== *)
theory Session_Count
  imports Session_Link
begin

section \<open>The downlink count\<close>

text \<open>
  The count of received packets against its specification: every packet that arrives on the
  current connection counts, unless it answers a handshake request in flight; an accepted full
  login sets the count to 0; nothing else changes it.
\<close>

definition counted_packet :: "'c codec \<Rightarrow> byte list \<Rightarrow> 'c session_client \<Rightarrow> bool" where
  "counted_packet cd bs s =
     (case snd (cdispatch cd (codec_st s) bs) of
        Some (CResponse i v) \<Rightarrow>
          (case map_of (pendings s) i of Some p \<Rightarrow> \<not> uncounted (pname p) | None \<Rightarrow> True)
      | _ \<Rightarrow> True)"

text \<open>The packet is the accepting answer to a login some call waits for.\<close>

definition login_accepted :: "'c codec \<Rightarrow> byte list \<Rightarrow> 'c session_client \<Rightarrow> bool" where
  "login_accepted cd bs s =
     (case snd (cdispatch cd (codec_st s) bs) of
        Some (CResponse i v) \<Rightarrow>
          i \<in> fst ` set (pendings s) \<and> resp_ok (coalesce v JNull) \<and>
          (case find (\<lambda>e. awaits i (snd e)) (tasks s) of
             Some (t, LoggingIn cl c j) \<Rightarrow> True | _ \<Rightarrow> False)
      | _ \<Rightarrow> False)"

definition count_spec :: "'c codec \<Rightarrow> event \<Rightarrow> 'c session_client \<Rightarrow> int \<Rightarrow> int" where
  "count_spec cd ev s n =
     (case ev of
        EvMessage c bs \<Rightarrow>
          if conn s \<noteq> Some c then n
          else if login_accepted cd bs s then 0
          else if counted_packet cd bs s then n + 1 else n
      | _ \<Rightarrow> n)"

fun downlink :: "session_conf \<Rightarrow> 'c codec \<Rightarrow> event list \<Rightarrow> 'c session_client \<Rightarrow> int \<Rightarrow> int" where
  "downlink cf cd [] s n = n"
| "downlink cf cd (ev # evs) s n = downlink cf cd evs (turn cf cd ev s) (count_spec cd ev s n)"

subsection \<open>What leaves the count alone\<close>

lemma recv_frame [simp]:
  "recv (emit e s) = recv s"
  "recv (notifyState x s) = recv s"
  "recv (set_task t p s) = recv s"
  "recv (end_task t s) = recv s"
  "recv (spawn p s) = recv s"
  "recv (wake_all s) = recv s"
  "recv (forget i s) = recv s"
  "recv (resolve i v s) = recv s"
  "recv (failPending s) = recv s"
  "recv (establish_fail t cl c s) = recv s"
  by (simp_all add: session_defs failPending_def establish_fail_def)

lemma recv_login_refused: "\<not> resp_ok v \<Longrightarrow> recv (login_result t cl c v s) = recv s"
  by (simp add: login_result_def)

lemma recv_login_accepted: "resp_ok v \<Longrightarrow> recv (login_result t cl c v s) = 0"
  by (simp add: login_result_def Let_def)

lemma recv_resume_result [simp]: "recv (resume_result cd t cl c v s) = recv s"
  by (simp add: resume_result_def resume_failed_def Let_def)

lemma recv_ping_result [simp]: "recv (ping_result cf t m c v s) = recv s"
  by (simp add: ping_result_def)

lemma recv_wake [simp]: "recv (wake cd t s) = recv s"
  by (simp add: wake_def heartbeat_wake_def split_beta split: option.split pc.split)

lemma recv_continue: "\<not> resp_ok v \<Longrightarrow> recv (continue_with cf cd t p v s) = recv s"
  by (cases p) (simp_all add: recv_login_refused)

lemma recv_run_micro: "\<not> accepting m \<Longrightarrow> recv (run_micro cf cd m s) = recv s"
  by (cases m) (simp_all add: run_micro_def settled_def recv_continue split: option.split)

lemma recv_tryResume [simp]: "recv (tryResume cd t cl c s) = recv s"
  by (simp add: tryResume_def resume_failed_def split_beta)

lemma recv_connect_next [simp]: "recv (connect_next t cl eps s) = recv s"
  by (cases eps) simp_all

lemma recv_close [simp]: "recv (close s) = recv s"
  by (simp add: close_def Let_def failPending_def wake_all_def emit_def split: option.split)

lemma quiet_run_micro: "quiet s \<Longrightarrow> quiet (run_micro cf cd m s)"
  by (cases m) (simp_all add: run_micro_def settled_def split_beta split: option.split)

lemma recv_drain_quiet:
  fixes s :: "'c session_client"
  assumes "quiet s"
  shows "recv (drain cf cd s) = recv s"
proof -
  have "quiet (drain cf cd s) \<and> recv (drain cf cd s) = recv s"
  proof (rule drain_invariant [of "\<lambda>u. quiet u \<and> recv u = recv s"])
    fix u :: "'c session_client" and m ms
    assume "quiet u \<and> recv u = recv s" and "micro u = m # ms"
    then have "quiet (u\<lparr>micro := ms\<rparr>)" "\<not> accepting m" "recv (u\<lparr>micro := ms\<rparr>) = recv s"
      by (auto simp: quiet_def)
    then show "quiet (run_micro cf cd m (u\<lparr>micro := ms\<rparr>)) \<and>
        recv (run_micro cf cd m (u\<lparr>micro := ms\<rparr>)) = recv s"
      by (simp add: quiet_run_micro recv_run_micro)
  qed (simp add: assms)
  then show ?thesis ..
qed

lemma recv_other_event:
  assumes "micro s = []" and "\<And>c bs. ev \<noteq> EvMessage c bs"
  shows "recv (on_event cf cd ev s) = recv s \<and> quiet (on_event cf cd ev s)"
proof -
  have q: "quiet s"
    using assms(1) by (simp add: quiet_def)
  then show ?thesis
    using assms(2)
    by (cases ev)
      (auto simp: start_def reconnect_def invalidateNonce_def on_task_def connected_def Let_def
        endpoints_ready_def login_param_ready_def split_beta recv_continue
        split: option.split pc.split)
qed

subsection \<open>One packet\<close>

lemma handle_cases:
  obtains (count) cs e where "handle cd bs s = e (count (s\<lparr>codec_st := cs\<rparr>))"
      "counted_packet cd bs s" "\<not> login_accepted cd bs s"
      "\<And>u. recv (e u) = recv u" "\<And>u. micro (e u) = micro u"
  | (settle) i v p cs where
      "handle cd bs s = resolve i (coalesce v JNull)
         ((if uncounted (pname p) then id else count) (forget i (s\<lparr>codec_st := cs\<rparr>)))"
      "snd (cdispatch cd (codec_st s) bs) = Some (CResponse i v)"
      "map_of (pendings s) i = Some p"
proof (cases "snd (cdispatch cd (codec_st s) bs)")
  case None
  then show ?thesis
    by (intro count [of id "fst (cdispatch cd (codec_st s) bs)"])
      (simp_all add: handle_def split_beta Let_def counted_packet_def login_accepted_def)
next
  case (Some r)
  show ?thesis
  proof (cases r)
    case (CRequest n a)
    with Some show ?thesis
      by (intro count [of "emit (Pushed n a)" "fst (cdispatch cd (codec_st s) bs)"])
        (simp_all add: handle_def split_beta Let_def counted_packet_def login_accepted_def emit_def)
  next
    case (CResponse i v)
    show ?thesis
    proof (cases "map_of (pendings s) i")
      case None
      then have "i \<notin> fst ` set (pendings s)"
        by (simp add: map_of_eq_None_iff)
      with None Some CResponse show ?thesis
        by (intro count [of id "fst (cdispatch cd (codec_st s) bs)"])
          (simp_all add: handle_def split_beta Let_def counted_packet_def login_accepted_def)
    next
      case (Some p)
      with \<open>snd _ = Some r\<close> CResponse show ?thesis
        by (intro settle [of i v p "fst (cdispatch cd (codec_st s) bs)"])
          (simp_all add: handle_def split_beta Let_def)
    qed
  qed
qed

lemma recv_handle: "recv (handle cd bs s) = recv s + (if counted_packet cd bs s then 1 else 0)"
proof (cases cd bs s rule: handle_cases)
  case (settle i v p cs)
  then show ?thesis
    by (simp add: counted_packet_def count_def)
qed (simp add: count_def)

lemma turn_message_recv:
  assumes "micro s = []" and "conn s = Some c"
  shows "recv (turn cf cd (EvMessage c bs) s) = count_spec cd (EvMessage c bs) s (recv s)"
proof (cases cd bs s rule: handle_cases)
  case (count cs e)
  have "quiet (handle cd bs s)"
    using assms(1) by (simp add: count(1,5) quiet_def session_defs)
  then have "recv (turn cf cd (EvMessage c bs) s) = recv (handle cd bs s)"
    using assms by (simp add: turn_def recv_drain_quiet)
  then show ?thesis
    using assms(2) count(2,3) by (simp add: recv_handle count_spec_def)
next
  case (settle i v p cs)
  let ?h = "handle cd bs s" and ?m = "MSettled i (coalesce v JNull)"
  have "micro ?h = [?m]"
    using assms(1) by (simp add: settle(1) session_defs)
  then have turn: "turn cf cd (EvMessage c bs) s = drain cf cd (run_micro cf cd ?m (?h\<lparr>micro := []\<rparr>))"
    using assms(2) by (simp add: turn_def drain_Cons)
  have "quiet (run_micro cf cd ?m (?h\<lparr>micro := []\<rparr>))"
    by (rule quiet_run_micro) (simp add: quiet_def)
  with turn have recv: "recv (turn cf cd (EvMessage c bs) s) =
      recv (settled cf cd i (coalesce v JNull) (?h\<lparr>micro := []\<rparr>))"
    by (simp add: recv_drain_quiet run_micro_def)
  have tasks: "tasks (?h\<lparr>micro := []\<rparr>) = tasks s"
    by (simp add: settle(1) session_defs)
  have key: "i \<in> fst ` set (pendings s)"
    using map_of_SomeD [OF settle(3)] by force
  show ?thesis
  proof (cases "login_accepted cd bs s")
    case True
    with settle(2) obtain t cl d j where "find (\<lambda>e. awaits i (snd e)) (tasks s) = Some (t, LoggingIn cl d j)"
        "resp_ok (coalesce v JNull)"
      by (auto simp: login_accepted_def split: option.splits pc.splits)
    with recv tasks True assms(2) show ?thesis
      by (simp add: settled_def recv_login_accepted count_spec_def)
  next
    case False
    have "recv (settled cf cd i (coalesce v JNull) (?h\<lparr>micro := []\<rparr>)) = recv ?h"
    proof (cases "find (\<lambda>e. awaits i (snd e)) (tasks s)")
      case (Some e)
      obtain t q where e: "e = (t, q)"
        by (cases e)
      show ?thesis
        using Some e tasks False settle(2) key
        by (cases q) (auto simp: settled_def login_accepted_def recv_login_refused)
    qed (simp add: settled_def tasks)
    with recv False assms(2) show ?thesis
      by (simp add: recv_handle count_spec_def)
  qed
qed

lemma turn_recv:
  assumes "micro s = []"
  shows "recv (turn cf cd ev s) = count_spec cd ev s (recv s)"
proof (cases "\<exists>c bs. ev = EvMessage c bs \<and> conn s = Some c")
  case True
  with assms show ?thesis
    by (auto simp: turn_message_recv)
next
  case False
  show ?thesis
  proof (cases "\<exists>c bs. ev = EvMessage c bs")
    case True
    with False assms show ?thesis
      by (auto simp: turn_def count_spec_def)
  next
    case other: False
    with recv_other_event [OF assms, of ev cf cd] show ?thesis
      by (auto simp: turn_def recv_drain_quiet count_spec_def split: event.split)
  qed
qed

lemma run_recv:
  "micro s = [] \<Longrightarrow> recv (run cf cd evs s) = downlink cf cd evs s (recv s)"
  by (induction evs arbitrary: s) (simp_all add: turn_recv)

end
