(* ===== verification/Session_Handshake.thy ===== *)
theory Session_Handshake
  imports Session_Count
begin

section \<open>Handshakes and the heartbeat\<close>

text \<open>
  What an accepted resume and an accepted login do to the requests in flight, what a refused
  one leaves behind, and when the heartbeat gives a connection up.
\<close>

subsection \<open>Resending\<close>

text \<open>The codec can encode every request in flight, whatever state it is in.\<close>

definition packable :: "'c codec \<Rightarrow> (int \<times> pending) list \<Rightarrow> bool" where
  "packable cd ps \<longleftrightarrow>
     list_all (\<lambda>e. \<forall>cs. snd (cpack cd cs (pname (snd e)) (pparam (snd e)) (fst e)) \<noteq> None) ps"

definition packet_of :: "int \<times> pending \<Rightarrow> int \<times> jsstr \<times> jsval" where
  "packet_of e = (fst e, pname (snd e), pparam (snd e))"

lemma send_packet:
  assumes "conn s = Some c" "c \<notin> set (broken s)" "packable cd [(i, p)]"
  shows "packets (out (snd (send cd i p s))) = packets (out s) @ [packet_of (i, p)]"
proof -
  obtain cs bs where "cpack cd (codec_st s) (pname p) (pparam p) i = (cs, Some bs)"
    using assms(3) by (cases "cpack cd (codec_st s) (pname p) (pparam p) i")
      (auto simp: packable_def dest: spec [of _ "codec_st s"])
  with assms(1,2) show ?thesis
    by (simp add: send_def emit_def packet_of_def)
qed

lemma resend_list_packets:
  assumes "conn s = Some c" "c \<notin> set (broken s)" "packable cd ps"
  shows "packets (out (resend_list cd ps s)) =
           packets (out s) @ map packet_of (filter (\<lambda>e. \<not> handshake_entry e) ps)"
  using assms
proof (induction cd ps s rule: resend_list.induct)
  case (2 cd i p ps s)
  then have pk: "packable cd [(i, p)]" "packable cd ps"
    by (simp_all add: packable_def)
  show ?case
  proof (cases "uncounted (pname p)")
    case True
    with 2 pk show ?thesis by (simp add: handshake_entry_def session_defs)
  next
    case False
    with 2 pk send_packet [OF 2(2,3) pk(1)] show ?thesis
      by (simp add: handshake_entry_def)
  qed
qed simp

lemma resume_accepted:
  assumes "resp_ok v" and "ledger s" and "conn s = Some c'" and "c' \<notin> set (broken s)"
    and "packable cd (pendings s)"
  shows "let s' = resume_result cd t cl c v s in
     online s' \<and> conn s' = conn s \<and> recv s' = recv s \<and> nextReqId s' = nextReqId s \<and>
     nonce s' = prop_of v (js ''nonce'') \<and>
     pendings s' = filter (\<lambda>e. \<not> handshake_entry e) (pendings s) \<and>
     packets (out s') =
       packets (out s) @ map packet_of (filter (\<lambda>e. \<not> handshake_entry e) (pendings s))"
proof -
  let ?u = "s\<lparr>nonce := prop_of v (js ''nonce''), online := True\<rparr>"
  have "pendings (resendPending cd ?u) = filter (\<lambda>e. \<not> handshake_entry e) (pendings s)"
    using resendPending_pendings [of ?u cd] ledger_distinct [OF assms(2)] by simp
  moreover have "packets (out (resendPending cd ?u)) =
      packets (out s) @ map packet_of (filter (\<lambda>e. \<not> handshake_entry e) (pendings s))"
    using resend_list_packets [of ?u c' cd "pendings s"] assms(3-5) by (simp add: resendPending_def)
  ultimately show ?thesis
    using assms(1) by (simp add: resume_result_def Let_def notifyState_def emit_def)
qed

lemma login_accepted_state:
  assumes "resp_ok v"
  shows "let s' = login_result t cl c v s in
     online s' \<and> conn s' = conn s \<and> recv s' = 0 \<and> nextReqId s' = nextReqId s \<and>
     nonce s' = coalesce (prop_of v (js ''nonce'')) JNull \<and>
     rid s' = coalesce (prop_of v (js ''rid'')) JNull \<and>
     pendings s' = [] \<and> packets (out s') = packets (out s) \<and>
     settlements (out s') = settlements (out s) @ map fst (pendings s)"
  using assms
  by (simp add: login_result_def Let_def failPending_def notifyState_def emit_def)

text \<open>
  A refused resume keeps the credentials: the next reconnect, if the login in between fails
  too, presents the same nonce again.
\<close>

lemma resume_refused:
  assumes "\<not> resp_ok v"
  shows "nonce (resume_result cd t cl c v s) = nonce s"
    and "rid (resume_result cd t cl c v s) = rid s"
    and "pendings (resume_result cd t cl c v s) = pendings s"
  using assms by (simp_all add: resume_result_def resume_failed_def session_defs)

subsection \<open>The heartbeat\<close>

definition ping_round :: "nat \<Rightarrow> event list" where
  "ping_round t = [EvSleepOver t, EvTimeout t]"

text \<open>A heartbeat waiting between pings, on an online session.\<close>

definition beating :: "nat \<Rightarrow> int \<Rightarrow> nat \<Rightarrow> 'c session_client \<Rightarrow> bool" where
  "beating t m c s \<longleftrightarrow>
     micro s = [] \<and> task_pc t s = Some (HbSleep m) \<and> \<not> closed s \<and> online s \<and> conn s = Some c"

lemma task_pc_set_task:
  "task_pc u (set_task t p s) =
     (if u = t then map_option (\<lambda>_. p) (task_pc t s) else task_pc u s)"
proof -
  have "map_of (map (\<lambda>e. if fst e = t then (t, p) else e) es) u =
      (if u = t then map_option (\<lambda>_. p) (map_of es t) else map_of es u)" for es
    by (induction es) auto
  then show ?thesis
    by (simp add: task_pc_def set_task_def)
qed

lemma task_pc_frame [simp]:
  "task_pc t (snd (request cd n a s)) = task_pc t s"
  "task_pc t (drop_conn c s) = task_pc t s"
  "task_pc t (s\<lparr>nonce := v\<rparr>) = task_pc t s"
  by (simp_all add: task_pc_def)

lemma set_task_frame [simp]:
  "micro (set_task t p s) = micro s" "closed (set_task t p s) = closed s"
  "online (set_task t p s) = online s" "conn (set_task t p s) = conn s"
  "nonce (set_task t p s) = nonce s" "pendings (set_task t p s) = pendings s"
  by (simp_all add: set_task_def)

lemma ping_round_run:
  assumes "beating t m c s"
  shows "run cf cd (ping_round t) s =
           ping_result cf t m (Some c) JNull (on_event cf cd (EvSleepOver t) s)"
    and "task_pc t (on_event cf cd (EvSleepOver t) s) = Some (HbPing m (Some c) (nextReqId s + 1))"
proof -
  let ?u = "on_event cf cd (EvSleepOver t) s"
  have u: "?u = set_task t (HbPing m (Some c) (nextReqId s + 1))
      (snd (request cd (js ''login.ping'') (JObj [(js ''recv'', JNum (recv s))]) s))"
    using assms by (simp add: beating_def wake_def heartbeat_wake_def split_beta)
  then show pc: "task_pc t ?u = Some (HbPing m (Some c) (nextReqId s + 1))"
    using assms by (simp add: task_pc_set_task beating_def)
  have mu: "micro ?u = []"
    using assms unfolding u by (simp add: beating_def)
  moreover have "micro (ping_result cf t m (Some c) JNull ?u) = []"
    using mu by (simp add: ping_result_def del: on_event.simps)
  ultimately show "run cf cd (ping_round t) s = ping_result cf t m (Some c) JNull ?u"
    using pc by (simp add: ping_round_def turn_def on_task_def del: on_event.simps(11))
qed

lemma ping_round_misses:
  assumes "beating t m c s" and "m + 1 < pingTolerance cf"
  shows "beating t (m + 1) c (run cf cd (ping_round t) s)"
  using assms ping_round_run [OF assms(1), of cf cd]
  by (simp add: beating_def ping_result_def heartbeat_loop_def task_pc_set_task)
    (simp add: wake_def heartbeat_wake_def split_beta)

lemma ping_round_drops:
  assumes "beating t m c s" and "m + 1 \<ge> pingTolerance cf"
  shows "conn (run cf cd (ping_round t) s) = None \<and> \<not> online (run cf cd (ping_round t) s)"
  using assms ping_round_run(1) [OF assms(1), of cf cd]
  by (simp add: beating_def ping_result_def drop_conn_def notifyState_def emit_def
      wake_def heartbeat_wake_def split_beta)

lemma ping_rounds:
  assumes "beating t m c s" and "m + int n < pingTolerance cf"
  shows "beating t (m + int n) c (run cf cd (concat (replicate n (ping_round t))) s)"
  using assms
proof (induction n arbitrary: m s)
  case (Suc n)
  then have "beating t (m + 1) c (run cf cd (ping_round t) s)"
    by (intro ping_round_misses) simp_all
  with Suc.IH [of "m + 1"] Suc.prems(2) show ?case
    by (simp add: run_append algebra_simps)
qed simp

end
