(* ===== verification/Session_Tasks.thy ===== *)
theory Session_Tasks
  imports Session_Handshake
begin

section \<open>The running calls\<close>

text \<open>
  The invariant \<open>tasks_ok\<close>: running calls have distinct ids, no two of them wait for the same
  request, and the request a call waits for is in flight or has just settled. So a waiting
  call is never forgotten, and \<open>close\<close> ends the loops.
\<close>

fun awaited :: "pc \<Rightarrow> int option" where
  "awaited (Resuming _ _ i) = Some i"
| "awaited (LoggingIn _ _ i) = Some i"
| "awaited (HbPing _ _ i) = Some i"
| "awaited _ = None"

lemma awaits_awaited: "awaits i p \<longleftrightarrow> awaited p = Some i"
  by (cases p) auto

definition settling :: "microtask list \<Rightarrow> int set" where
  "settling ms = {i. \<exists>v. MSettled i v \<in> set ms}"

lemma settling_simps [simp]:
  "settling [] = {}"
  "settling (MSettled i v # ms) = insert i (settling ms)"
  "settling (MWake t # ms) = settling ms"
  "settling (ms @ ms') = settling ms \<union> settling ms'"
  "settling (map (\<lambda>e. MSettled (fst e) JNull) es) = fst ` set es"
  "settling (map (\<lambda>e. MWake (fst e)) ts) = {}"
  by (auto simp: settling_def)

text \<open>The request ids the calls outside \<open>X\<close> wait for.\<close>

fun awaiting :: "nat set \<Rightarrow> (nat \<times> pc) list \<Rightarrow> int list" where
  "awaiting X [] = []"
| "awaiting X ((t, p) # ts) =
     (case awaited p of
        Some i \<Rightarrow> if t \<in> X then awaiting X ts else i # awaiting X ts
      | None \<Rightarrow> awaiting X ts)"

lemma awaiting_append [simp]: "awaiting X (ts @ us) = awaiting X ts @ awaiting X us"
  by (induction X ts rule: awaiting.induct) (simp_all split: option.split)

lemma awaiting_end: "awaiting X (filter (\<lambda>e. fst e \<noteq> t) ts) = awaiting (insert t X) ts"
  by (induction ts) (auto split: option.split)

lemma awaiting_other: "t \<notin> fst ` set ts \<Longrightarrow> awaiting (insert t X) ts = awaiting X ts"
  by (induction ts) (auto split: option.split)

definition put :: "nat \<Rightarrow> pc \<Rightarrow> (nat \<times> pc) list \<Rightarrow> (nat \<times> pc) list" where
  "put t p ts = map (\<lambda>e. if fst e = t then (t, p) else e) ts"

lemma put_simps [simp]:
  "put t p [] = []"
  "put t p (e # ts) = (if fst e = t then (t, p) else e) # put t p ts"
  "map fst (put t p ts) = map fst ts"
  "fst ` set (put t p ts) = fst ` set ts"
proof -
  show m: "map fst (put t p ts) = map fst ts" for ts
    by (auto simp: put_def)
  show "fst ` set (put t p ts) = fst ` set ts"
    by (metis m list.set_map)
qed (simp_all add: put_def)

lemma awaiting_put_None:
  "awaited p = None \<Longrightarrow> awaiting X (put t p ts) = awaiting (insert t X) ts"
  by (induction ts) (auto split: option.split)

lemma awaiting_put_Some:
  assumes "awaited p = Some i" "distinct (map fst ts)" "distinct (awaiting (insert t X) ts)"
    and "i \<notin> set (awaiting (insert t X) ts)"
  shows "distinct (awaiting X (put t p ts)) \<and>
    set (awaiting X (put t p ts)) \<subseteq> insert i (set (awaiting (insert t X) ts))"
  using assms(2-)
proof (induction ts)
  case (Cons e ts)
  obtain u q where e: "e = (u, q)" by (cases e)
  show ?case
  proof (cases "u = t")
    case True
    then have "t \<notin> fst ` set ts" using Cons.prems(1) e by simp
    moreover from this have "put t p ts = ts" by (induction ts) auto
    ultimately show ?thesis
      using Cons.prems e True assms(1) by (auto simp: awaiting_other split: option.splits)
  next
    case False
    then show ?thesis
      using Cons e by (auto split: option.splits if_splits)
  qed
qed simp

text \<open>The invariant with the calls \<open>X\<close> exempt: their code is running.\<close>

definition tasks_but :: "nat set \<Rightarrow> 'c session_client \<Rightarrow> bool" where
  "tasks_but X s \<longleftrightarrow>
     distinct (map fst (tasks s)) \<and> (\<forall>t \<in> fst ` set (tasks s). t < nextTask s) \<and>
     distinct (awaiting X (tasks s)) \<and>
     (\<forall>i \<in> set (awaiting X (tasks s)).
        i \<le> nextReqId s \<and> i \<in> fst ` set (pendings s) \<union> settling (micro s))"

abbreviation tasks_ok :: "'c session_client \<Rightarrow> bool" where
  "tasks_ok \<equiv> tasks_but {}"

lemma tasks_but_cong:
  assumes "tasks_but X s" "tasks s' = tasks s" "nextTask s' = nextTask s"
    and "nextReqId s \<le> nextReqId s'"
    and "fst ` set (pendings s) \<union> settling (micro s) \<subseteq> fst ` set (pendings s') \<union> settling (micro s')"
  shows "tasks_but X s'"
proof -
  have "i \<le> nextReqId s' \<and> i \<in> fst ` set (pendings s') \<union> settling (micro s')"
    if "i \<in> set (awaiting X (tasks s'))" for i
  proof -
    have "i \<le> nextReqId s" "i \<in> fst ` set (pendings s) \<union> settling (micro s)"
      using assms(1) that unfolding tasks_but_def assms(2) by blast+
    with assms(4,5) show ?thesis by (meson order_trans subsetD)
  qed
  with assms(1) show ?thesis
    unfolding tasks_but_def assms(2,3) by blast
qed

lemma tasks_but_end:
  "tasks_but (insert t X) s \<Longrightarrow> tasks_but X (end_task t s)"
  by (auto simp: tasks_but_def end_task_def awaiting_end distinct_map_filter)

lemma set_task_put: "tasks (set_task t p s) = put t p (tasks s)"
  by (simp add: set_task_def put_def)

lemma set_task_counters [simp]:
  "nextTask (set_task t p s) = nextTask s" "nextReqId (set_task t p s) = nextReqId s"
  by (simp_all add: set_task_def)

lemma tasks_but_set:
  "tasks_but (insert t X) s \<Longrightarrow> awaited p = None \<Longrightarrow> tasks_but X (set_task t p s)"
  by (simp add: tasks_but_def set_task_put awaiting_put_None del: ball_simps)

text \<open>A call that has just issued request \<open>i\<close> and now waits for it.\<close>

lemma tasks_but_wait:
  assumes "tasks_but (insert t X) s" and "awaited p = Some (nextReqId s + 1)"
  shows "tasks_but X (set_task t p (snd (request cd n a s)))"
proof -
  let ?u = "snd (request cd n a s)"
  have "nextReqId s + 1 \<notin> set (awaiting (insert t X) (tasks s))"
    using assms(1) by (auto simp: tasks_but_def)
  then have "distinct (awaiting X (put t p (tasks s))) \<and>
      set (awaiting X (put t p (tasks s))) \<subseteq> insert (nextReqId s + 1) (set (awaiting (insert t X) (tasks s)))"
    using assms by (intro awaiting_put_Some) (simp_all add: tasks_but_def)
  then show ?thesis
    using assms(1) by (force simp: tasks_but_def set_task_put)
qed

lemma tasks_but_spawn:
  assumes "tasks_but X s" and "awaited p = None"
  shows "tasks_but X (spawn p s)"
  using assms by (auto simp: tasks_but_def spawn_def)

lemma tasks_but_insert: "tasks_but X s \<Longrightarrow> tasks_but (insert t X) s"
proof -
  have sub: "i \<in> set (awaiting (insert t X) ts) \<Longrightarrow> i \<in> set (awaiting X ts)" for i ts
    by (induction ts) (auto split: option.splits if_splits)
  have dst: "distinct (awaiting X ts) \<Longrightarrow> distinct (awaiting (insert t X) ts)" for ts
    by (induction ts) (auto split: option.splits if_splits, blast dest: sub)
  show "tasks_but X s \<Longrightarrow> tasks_but (insert t X) s"
    by (auto simp: tasks_but_def dst dest!: sub)
qed

subsection \<open>Every operation keeps the running calls in order\<close>

lemma tasks_but_frames:
  assumes "tasks_but X s"
  shows "tasks_but X (emit e s)" "tasks_but X (notifyState x s)" "tasks_but X (drop_conn c s)"
    "tasks_but X (count s)" "tasks_but X (s\<lparr>codec_st := cs\<rparr>)"
    "tasks_but X (s\<lparr>nonce := v\<rparr>)" "tasks_but X (s\<lparr>nonce := v, online := b\<rparr>)"
    "tasks_but X (s\<lparr>rid := w, nonce := v, recv := k, online := b\<rparr>)"
    "tasks_but X (s\<lparr>conn := cc\<rparr>)" "tasks_but X (s\<lparr>conn := cc, online := b\<rparr>)"
    "tasks_but X (s\<lparr>closed := b\<rparr>)" "tasks_but X (s\<lparr>loopsStarted := b\<rparr>)"
    "tasks_but X (s\<lparr>nextConn := n\<rparr>)" "tasks_but X (s\<lparr>broken := bs\<rparr>)"
    "tasks_but X (snd (request cd nm a s))" "tasks_but X (wake_all s)"
    "tasks_but X (resolve i v (forget i s))" "tasks_but X (failPending s)"
    "tasks_but X (resendPending cd s)"
proof -
  have "i \<in> fst ` set (filter (\<lambda>e. fst e \<notin> handshake_ids ps) ps) \<union>
      fst ` set (filter handshake_entry ps)" if "i \<in> fst ` set ps" for i ps
    using that by force
  then show "tasks_but X (resendPending cd s)"
    by (intro tasks_but_cong [OF assms])
      (auto simp: resendPending_def resend_list_pendings resend_list_micro)
qed (rule tasks_but_cong [OF assms]; force simp: session_defs failPending_def)+

lemma tasks_but_loops:
  assumes "tasks_but (insert t X) s"
  shows "tasks_but X (supervisor_loop t s)" "tasks_but X (heartbeat_loop t m s)"
  using assms
  by (simp_all add: supervisor_loop_def heartbeat_loop_def tasks_but_end tasks_but_set)

lemma tasks_but_start_loops: "tasks_but X s \<Longrightarrow> tasks_but X (start_loops s)"
  unfolding start_loops_def Let_def
  by (intro tasks_but_loops tasks_but_insert tasks_but_spawn tasks_but_frames) simp_all

lemma tasks_but_return:
  "tasks_but (insert t X) s \<Longrightarrow> tasks_but X (establish_return t cl ok s)"
  by (simp add: establish_return_def tasks_but_start_loops tasks_but_end tasks_but_set
      tasks_but_frames split: caller.split)

lemmas tasks_intros = tasks_but_frames tasks_but_return tasks_but_loops tasks_but_set tasks_but_wait

lemma tasks_results:
  assumes "tasks_but (insert t X) s"
  shows "tasks_but X (resume_result cd t cl c v s)"
    and "tasks_but X (login_result t cl c v s)"
    and "tasks_but X (ping_result cf t m cc v s)"
    and "tasks_but X (tryResume cd t cl c s)"
    and "tasks_but X (heartbeat_wake cd t m s)"
    and "tasks_but X (connect_next t cl eps s)"
    and "tasks_but X (endpoints_ready t cl r s)"
    and "tasks_but X (login_param_ready cd t cl c w s)"
proof -
  show cn: "tasks_but X (connect_next t cl eps s)" for eps
    using assms by (cases eps) (simp_all add: tasks_intros)
  then show "tasks_but X (endpoints_ready t cl r s)"
    using assms by (simp add: endpoints_ready_def tasks_intros split: option.split)
  show "tasks_but X (tryResume cd t cl c s)"
    using assms by (simp add: tryResume_def resume_failed_def split_beta tasks_intros)
  show "tasks_but X (heartbeat_wake cd t m s)"
    using assms by (simp add: heartbeat_wake_def split_beta tasks_intros)
  show "tasks_but X (login_param_ready cd t cl c w s)"
    using assms
    by (simp add: login_param_ready_def establish_fail_def split_beta tasks_intros split: option.split)
qed (use assms in \<open>simp_all add: resume_result_def resume_failed_def login_result_def
      establish_fail_def ping_result_def Let_def tasks_intros\<close>)

lemma tasks_connected:
  "tasks_but (insert t X) s \<Longrightarrow> tasks_but X (connected cd t cl ac s)"
  by (simp add: connected_def Let_def tasks_intros tasks_results)

lemma tasks_continue:
  "tasks_but (insert t X) s \<Longrightarrow> awaited p \<noteq> None \<Longrightarrow> tasks_but X (continue_with cf cd t p v s)"
  by (cases p) (simp_all add: tasks_results)

lemma continue_idle: "awaited p = None \<Longrightarrow> continue_with cf cd t p v s = s"
  by (cases p) simp_all

lemma tasks_wake: "tasks_ok s \<Longrightarrow> tasks_ok (wake cd t s)"
  by (simp add: wake_def tasks_but_insert tasks_results tasks_but_loops split: option.split pc.split)

lemma tasks_close: "tasks_ok s \<Longrightarrow> tasks_ok (close s)"
  by (simp add: close_def Let_def tasks_but_frames split: option.split)

lemma tasks_handle: "tasks_ok s \<Longrightarrow> tasks_ok (handle cd bs s)"
  by (simp add: handle_def Let_def resolve_count tasks_but_frames
      split: prod.split option.split codec_result.split)

lemma tasks_event: "tasks_ok s \<Longrightarrow> tasks_ok (on_event cf cd ev s)"
proof (cases ev)
  case (EvTimeout t)
  assume "tasks_ok s"
  then have "tasks_ok (continue_with cf cd t p JNull s)" for p
    by (cases "awaited p = None") (simp_all add: continue_idle tasks_continue tasks_but_insert)
  with EvTimeout \<open>tasks_ok s\<close> show ?thesis
    by (simp add: on_task_def split: option.split)
qed (simp_all add: start_def reconnect_def invalidateNonce_def on_task_def tasks_but_spawn
    tasks_but_frames tasks_but_insert tasks_results tasks_connected tasks_wake tasks_close
    tasks_handle split: option.split pc.split)

lemma awaiting_found:
  assumes "find (\<lambda>e. awaits i (snd e)) ts = Some (t, p)"
    and "distinct (map fst ts)" and "distinct (awaiting {} ts)"
  shows "i \<notin> set (awaiting {t} ts) \<and> awaited p = Some i"
  using assms
proof (induction ts)
  case (Cons e ts)
  show ?case
  proof (cases "awaits i (snd e)")
    case True
    with Cons.prems show ?thesis
      by (cases e) (auto simp: awaits_awaited awaiting_other)
  next
    case False
    with Cons show ?thesis
      by (cases e) (auto simp: awaits_awaited split: option.splits)
  qed
qed simp

lemma awaiting_not_found:
  "find (\<lambda>e. awaits i (snd e)) ts = None \<Longrightarrow> i \<notin> set (awaiting X ts)"
  by (induction ts) (auto simp: awaits_awaited split: option.splits if_splits)

lemma tasks_micro:
  assumes "tasks_ok s" and "micro s = m # ms"
  shows "tasks_ok (run_micro cf cd m (s\<lparr>micro := ms\<rparr>))"
proof (cases m)
  case (MWake t)
  with assms have "tasks_ok (s\<lparr>micro := ms\<rparr>)"
    by (intro tasks_but_cong [OF assms(1)]) simp_all
  with MWake show ?thesis
    by (simp add: run_micro_def tasks_wake)
next
  case (MSettled i v)
  show ?thesis
  proof (cases "find (\<lambda>e. awaits i (snd e)) (tasks s)")
    case None
    with assms MSettled awaiting_not_found [OF None] have "tasks_ok (s\<lparr>micro := ms\<rparr>)"
      by (auto simp: tasks_but_def)
    with None MSettled show ?thesis
      by (simp add: run_micro_def settled_def)
  next
    case (Some e)
    obtain t p where e: "e = (t, p)" by (cases e)
    have found: "i \<notin> set (awaiting {t} (tasks s)) \<and> awaited p = Some i"
      using Some assms(1) unfolding e by (intro awaiting_found) (simp_all add: tasks_but_def)
    have "tasks_but {t} s"
      using assms(1) by (rule tasks_but_insert)
    with found assms(2) MSettled have "tasks_but {t} (s\<lparr>micro := ms\<rparr>)"
      by (auto simp: tasks_but_def)
    with Some e MSettled found show ?thesis
      by (simp add: run_micro_def settled_def tasks_continue)
  qed
qed

interpretation tasks_inv: session_invariant cf cd tasks_ok for cf and cd :: "'c codec"
  by unfold_locales (simp_all add: tasks_event tasks_micro)

lemma tasks_ok_new [simp]: "tasks_ok (new_session cs)"
  by (simp add: tasks_but_def new_session_def)

lemma awaiting_member: "(t, p) \<in> set ts \<Longrightarrow> awaited p = Some i \<Longrightarrow> t \<notin> X \<Longrightarrow> i \<in> set (awaiting X ts)"
  by (induction ts) (auto split: option.splits)

subsection \<open>Closing\<close>

text \<open>The calls of a session at rest: the two loops, no \<open>establish\<close> under way.\<close>

fun loop_pc :: "pc \<Rightarrow> bool" where
  "loop_pc SupSleep = True"
| "loop_pc (HbSleep _) = True"
| "loop_pc (HbPing _ _ _) = True"
| "loop_pc _ = False"

definition only_loops :: "'c session_client \<Rightarrow> bool" where
  "only_loops s \<longleftrightarrow> list_all (\<lambda>e. loop_pc (snd e)) (tasks s)"

definition closing :: "'c session_client \<Rightarrow> bool" where
  "closing s \<longleftrightarrow>
     closed s \<and> conn s = None \<and> \<not> online s \<and> pendings s = [] \<and> only_loops s \<and>
     (\<forall>e \<in> set (tasks s). sleeping (snd e) \<longrightarrow> MWake (fst e) \<in> set (micro s))"

lemma closing_end_task: "closing s \<Longrightarrow> closing (end_task t s)"
  by (auto simp: closing_def only_loops_def list_all_iff session_defs)

lemma closing_pop:
  assumes "closing s" "micro s = m # ms" "\<And>t. m = MWake t \<Longrightarrow> \<forall>e \<in> set (tasks s). fst e \<noteq> t \<or> \<not> sleeping (snd e)"
  shows "closing (s\<lparr>micro := ms\<rparr>)"
  using assms by (fastforce simp: closing_def only_loops_def)

lemma drop_conn_None: "conn s = None \<Longrightarrow> drop_conn c s = s"
  by (simp add: drop_conn_def split: option.split)

lemma ping_result_closing:
  assumes "closed s" "conn s = None"
  shows "\<exists>v'. ping_result cf t m c v s = (end_task t s)\<lparr>nonce := v'\<rparr>"
proof -
  have "drop_conn c (s\<lparr>nonce := v'\<rparr>) = s\<lparr>nonce := v'\<rparr>" "drop_conn c s = s" for v'
    using assms(2) by (simp_all add: drop_conn_None)
  moreover have "end_task t s = (end_task t s)\<lparr>nonce := nonce s\<rparr>"
    by (simp add: end_task_def)
  ultimately show ?thesis
    using assms(1) unfolding ping_result_def heartbeat_loop_def
    by (auto simp: end_task_def intro: exI [of _ JNull] exI [of _ "nonce s"])
qed

lemma closing_nonce [simp]: "closing (s\<lparr>nonce := v\<rparr>) = closing s"
  by (simp add: closing_def only_loops_def)

lemma closing_micro:
  assumes "closing s" and "micro s = m # ms" and "tasks_ok s"
  shows "closing (run_micro cf cd m (s\<lparr>micro := ms\<rparr>))"
proof (cases m)
  case (MSettled i v)
  then have c: "closing (s\<lparr>micro := ms\<rparr>)"
    using assms by (intro closing_pop) (assumption | simp)+
  show ?thesis
  proof (cases "find (\<lambda>e. awaits i (snd e)) (tasks s)")
    case None
    with MSettled c show ?thesis by (simp add: run_micro_def settled_def)
  next
    case (Some e)
    then have "e \<in> set (tasks s)" "awaits i (snd e)"
      by (auto simp: find_Some_iff)
    with assms(1) obtain t mi cc j where e: "e = (t, HbPing mi cc j)"
      by (cases e, cases "snd e") (auto simp: closing_def only_loops_def list_all_iff)
    have "closed (s\<lparr>micro := ms\<rparr>)" "conn (s\<lparr>micro := ms\<rparr>) = None"
      using assms(1) by (simp_all add: closing_def)
    from ping_result_closing [OF this] show ?thesis
      using MSettled Some e c closing_end_task [OF c]
      by (simp add: run_micro_def settled_def) (metis closing_nonce)
  qed
next
  case (MWake t)
  let ?u = "s\<lparr>micro := ms\<rparr>"
  show ?thesis
  proof (cases "\<exists>p. map_of (tasks s) t = Some p \<and> sleeping p")
    case False
    have "fst e \<noteq> t \<or> \<not> sleeping (snd e)" if "e \<in> set (tasks s)" for e
      using False that assms(3) by (auto simp: tasks_but_def)
    with assms MWake have "closing ?u"
      by (intro closing_pop) auto
    with False MWake show ?thesis
      by (auto simp: run_micro_def wake_def task_pc_def split: option.split pc.split)
  next
    case True
    then have "run_micro cf cd m ?u = end_task t ?u"
      using assms(1) MWake
      by (auto simp: run_micro_def wake_def task_pc_def closing_def supervisor_loop_def
          heartbeat_wake_def heartbeat_loop_def split: pc.split)
    moreover have "closing (end_task t ?u)"
      using assms(1,2) MWake by (fastforce simp: closing_def only_loops_def list_all_iff session_defs)
    ultimately show ?thesis by simp
  qed
qed

lemma closing_drain:
  fixes s :: "'c session_client"
  assumes "closing s" and "tasks_ok s"
  shows "closing (drain cf cd s) \<and> tasks_ok (drain cf cd s)"
  using assms by (intro drain_invariant [of "\<lambda>u. closing u \<and> tasks_ok u"])
    (auto simp: closing_micro tasks_micro)

lemma closing_close:
  assumes "micro s = []" and "only_loops s"
  shows "closing (close s)"
  using assms
  by (auto simp: close_def Let_def closing_def only_loops_def failPending_def wake_all_def emit_def
      split: option.split)

lemma close_ends_loops:
  assumes "micro s = []" and "only_loops s" and "tasks_ok s"
  shows "tasks (turn cf cd EvClose s) = []"
proof -
  let ?s = "turn cf cd EvClose s"
  have "closing ?s \<and> tasks_ok ?s"
    unfolding turn_def using assms by (intro closing_drain) (simp_all add: closing_close tasks_close)
  moreover have "False" if "closing ?s" "tasks_ok ?s" "e \<in> set (tasks ?s)" for e
  proof -
    obtain t p where e: "e = (t, p)" by (cases e)
    have "loop_pc p" "\<not> sleeping p" "pendings ?s = []"
      using that e by (auto simp: closing_def only_loops_def list_all_iff)
    then obtain i where "awaited p = Some i"
      by (cases p) auto
    with that(3) e have "i \<in> set (awaiting {} (tasks ?s))"
      using awaiting_member by fastforce
    with that(2) \<open>pendings ?s = []\<close> show False
      by (auto simp: tasks_but_def)
  qed
  ultimately show ?thesis
    by (metis list.set_intros(1) neq_Nil_conv)
qed

end
