(* ===== verification/Session_Props.thy ===== *)
theory Session_Props
  imports Session_Tasks
begin

section \<open>Properties of the session layer\<close>

text \<open>
  The user-facing theorems about \<open>SessionClient\<close>, over the runs of a new session under any
  codec and any sequence of events, and concrete runs under the codec of the test suite's
  kind: a packet is \<open>[1, id, k]\<close> (a response to \<open>id\<close>, with \<open>k\<close> as its \<open>code\<close> and its
  \<open>sent\<close>), \<open>[2]\<close> (a push), or undecodable.
\<close>

definition fake_codec :: "unit codec" where
  "fake_codec = \<lparr>
     cpack = (\<lambda>cs n a i. (cs, Some [word_of_int i])),
     cdispatch = (\<lambda>cs bs. (cs,
       case bs of
         [k] \<Rightarrow> if k = 2 then Some (CRequest (js ''mail.notify'') JUndef) else None
       | [k, i, v] \<Rightarrow>
           if k = 1
           then Some (CResponse (uint i) (JObj [(js ''code'', JNum (uint v)), (js ''rid'', JNum 7),
                  (js ''nonce'', JArr [JNum 1, JNum 2]), (js ''sent'', JNum (uint v))]))
           else None
       | _ \<Rightarrow> None))\<rparr>"

definition default_conf :: session_conf where
  "default_conf = conf_of \<lparr>o_pingIntervalMs = None, o_pingTolerance = None,
     o_reconnectDelayMs = None, o_handshakeTimeoutMs = None\<rparr>"

definition demo :: "event list \<Rightarrow> unit session_client" where
  "demo evs = run default_conf fake_codec evs (new_session ())"

definition gate :: endpoint where
  "gate = js ''ws://g''"

text \<open>Start, connect, log in (request 1 on connection 0). The loops are the calls 1 and 2.\<close>

definition logged_in :: "event list" where
  "logged_in = [EvStart, EvEndpoints 0 (Some [gate]), EvConnected 0 False,
     EvLoginParam 0 (Some (JObj [])), EvMessage 0 [1, 1, 0]]"

lemma demo_login:
  "online (demo logged_in)" "conn (demo logged_in) = Some 0" "recv (demo logged_in) = 0"
  "tasks (demo logged_in) = [(1, SupSleep), (2, HbSleep 0)]" "nextReqId (demo logged_in) = 1"
  by code_simp+

abbreviation reached :: "session_conf \<Rightarrow> 'c codec \<Rightarrow> event list \<Rightarrow> 'c \<Rightarrow> 'c session_client" where
  "reached cf cd evs cs \<equiv> run cf cd evs (new_session cs)"

lemma ledger_reached: "ledger (reached cf cd evs cs)"
  by (rule ledger_inv.run_keeps) simp_all

lemma link_reached: "link_inv (reached cf cd evs cs)"
  by (rule link_inv.run_keeps) simp_all

lemma tasks_reached: "tasks_ok (reached cf cd evs cs)"
  by (rule tasks_inv.run_keeps) simp_all

lemma micro_reached [simp]: "micro (reached cf cd evs cs) = []"
  by (simp add: run_micro_Nil)

subsection \<open>Request ids and promises\<close>

text \<open>
  C1. A request id stands for one request for the whole life of the session: two packets sent
  under the same id, on whatever connections, carry the same protocol name and arguments.
  Reconnects, resumes and logins never give an id out again.
\<close>

theorem request_id_identifies_request:
  assumes "Sent c i n a bs \<in> set (out (reached cf cd evs cs))"
    and "Sent c' i n' a' bs' \<in> set (out (reached cf cd evs cs))"
  shows "n' = n \<and> a' = a"
proof -
  have "packets_ok ps k (packets (out (reached cf cd evs cs))) \<Longrightarrow> (n', a') = (n, a)" for ps k
    using assms unfolding packets_ok_def by (metis packets_Sent_iff fst_conv snd_conv)
  then show ?thesis
    using ledger_reached [of cf cd evs cs] by (auto simp: ledger_def)
qed

lemma demo_resent:
  "filter (\<lambda>e. case e of Sent c i n a bs \<Rightarrow> i = 2 | _ \<Rightarrow> False)
     (out (demo (logged_in @ [EvRequest (js ''shop.buy'') JUndef, EvReconnect, EvSleepOver 1,
        EvEndpoints 1 (Some [gate]), EvConnected 1 False, EvMessage 1 [1, 3, 0]]))) =
   [Sent 0 2 (js ''shop.buy'') JUndef [2], Sent 1 2 (js ''shop.buy'') JUndef [2]]"
  by code_simp

theorem request_id_identifies_request_witness:
  "\<exists>n a n' a'. {Sent 0 2 n a [2], Sent 1 2 n' a' [2]} \<subseteq> set (out (demo (logged_in @
       [EvRequest (js ''shop.buy'') JUndef, EvReconnect, EvSleepOver 1,
        EvEndpoints 1 (Some [gate]), EvConnected 1 False, EvMessage 1 [1, 3, 0]]))) \<and>
     n' = n \<and> a' = a"
proof -
  let ?evs = "logged_in @ [EvRequest (js ''shop.buy'') JUndef, EvReconnect, EvSleepOver 1,
        EvEndpoints 1 (Some [gate]), EvConnected 1 False, EvMessage 1 [1, 3, 0]]"
  have "set [Sent 0 2 (js ''shop.buy'') JUndef [2], Sent 1 2 (js ''shop.buy'') JUndef [2]]
      \<subseteq> set (out (demo ?evs))"
    unfolding demo_resent [symmetric] by (rule filter_is_subset)
  then have sent: "Sent 0 2 (js ''shop.buy'') JUndef [2] \<in> set (out (demo ?evs))"
      "Sent 1 2 (js ''shop.buy'') JUndef [2] \<in> set (out (demo ?evs))"
    by simp_all
  then have "js ''shop.buy'' = js ''shop.buy'' \<and> JUndef = JUndef"
    unfolding demo_def by (rule request_id_identifies_request)
  with sent show ?thesis by blast
qed

text \<open>
  C10. The ids in flight are strictly increasing and were all given out, and the promise of a
  request settles at most once: the settled ids are distinct and none is still in flight.
\<close>

theorem promises_settle_once:
  "let s = reached cf cd evs cs in
     ids_ok (pendings s) (nextReqId s) \<and> distinct (settlements (out s)) \<and>
     set (settlements (out s)) \<subseteq> {..nextReqId s} - fst ` set (pendings s)"
  using ledger_reached [of cf cd evs cs] by (auto simp: Let_def ledger_def settled_ok_def)

text \<open>
  C13. No waiting call is forgotten: at rest the requests that \<open>establish\<close> and the heartbeat
  wait for are all in flight, so a response, a timeout or \<open>close\<close> will wake them, and no two
  calls wait for the same request.
\<close>

theorem waiting_calls_in_flight:
  "let s = reached cf cd evs cs in
     distinct (awaiting {} (tasks s)) \<and> set (awaiting {} (tasks s)) \<subseteq> fst ` set (pendings s)"
  using tasks_reached [of cf cd evs cs] by (auto simp: Let_def tasks_but_def)

subsection \<open>Connection and count\<close>

text \<open>
  C25. The session is online only while it holds a connection, a closed session holds none, the
  connection it holds was handed out by the transport, and the count is not negative.
\<close>

theorem session_link: "link (reached cf cd evs cs)"
  using link_reached [of cf cd evs cs] by (simp add: link_inv_def)

text \<open>
  C9. The count the client reports in \<open>login.resume\<close> and \<open>login.ping\<close> is exactly the number of
  packets that arrived on the current connection of the moment, undecodable and unclaimed ones
  included, handshake answers excluded, since the last accepted login. Packets of connections
  already given up do not count.
\<close>

theorem recv_counts_downlink:
  "recv (reached cf cd evs cs) = downlink cf cd evs (new_session cs) 0"
  using run_recv [of "new_session cs" cf cd evs] by (simp add: new_session_def)

text \<open>
  Events of a connection that is not the current one change nothing: neither late packets
  nor a late closing notification of an old connection reach the session.
\<close>

lemma stale_connection_ignored:
  assumes "conn s \<noteq> Some c"
  shows "on_event cf cd (EvMessage c bs) s = s \<and> on_event cf cd (EvClosed c) s = s"
  using assms by (simp add: drop_conn_def)

lemma stale_connection_ignored_new:
  "on_event default_conf fake_codec (EvMessage 0 [2]) (new_session ()) = new_session () \<and>
   on_event default_conf fake_codec (EvClosed 0) (new_session ()) = new_session ()"
  by (rule stale_connection_ignored) (simp add: new_session_def)

subsection \<open>Handshakes\<close>


definition ok_response :: jsval where
  "ok_response = JObj [(js ''code'', JNum 0), (js ''rid'', JNum 7), (js ''nonce'', JArr [JNum 9])]"

definition waiting_to_resume :: "unit session_client" where
  "waiting_to_resume = demo (logged_in @ [EvRequest (js ''shop.buy'') JUndef, EvReconnect,
     EvSleepOver 1, EvEndpoints 1 (Some [gate]), EvConnected 1 False])"

lemma waiting_to_resume:
  "conn waiting_to_resume = Some 1" "broken waiting_to_resume = []"
  "pendings waiting_to_resume =
     [(2, \<lparr>pname = js ''shop.buy'', pparam = JUndef\<rparr>),
      (3, \<lparr>pname = js ''login.resume'', pparam = JObj [(js ''rid'', JNum 7),
         (js ''nonce'', JArr [JNum 1, JNum 2]), (js ''recv'', JNum 0)]\<rparr>)]"
  by code_simp+



text \<open>
  C12. An accepted full login starts a new session: the count is 0, the credentials are the
  answer's, nothing is sent again, and every request in flight fails (its promise settles, in
  order) and is forgotten. The id counter is not reset.
\<close>

theorem login_fails_in_flight:
  assumes "resp_ok v"
  shows "let s' = login_result t cl c v s in
     online s' \<and> conn s' = conn s \<and> recv s' = 0 \<and> nextReqId s' = nextReqId s \<and>
     nonce s' = coalesce (prop_of v (js ''nonce'')) JNull \<and>
     rid s' = coalesce (prop_of v (js ''rid'')) JNull \<and>
     pendings s' = [] \<and> packets (out s') = packets (out s) \<and>
     settlements (out s') = settlements (out s) @ map fst (pendings s)"
  by (rule login_accepted_state) (rule assms)

theorem login_fails_in_flight_witness:
  "recv (login_result 1 BySupervisor 1 ok_response waiting_to_resume) = 0 \<and>
   settlements (out (login_result 1 BySupervisor 1 ok_response waiting_to_resume)) =
     settlements (out waiting_to_resume) @ [2, 3]"
proof -
  have "resp_ok ok_response" by code_simp
  from login_fails_in_flight [OF this, of 1 BySupervisor 1 waiting_to_resume]
  show ?thesis by (simp add: Let_def waiting_to_resume)
qed

subsection \<open>Heartbeat and closing\<close>

text \<open>
  C26. Black holes are found: on an online session whose heartbeat is between pings with no
  miss so far, after one round less than the tolerance (a round: the sleep ends, a ping goes
  out, no answer comes in time) the connection still stands, and after as many rounds as the
  tolerance it is given up and the session is offline, even if no close notification ever comes.
\<close>

theorem heartbeat_detects_black_hole:
  assumes "beating t 0 c s" and "pingTolerance cf = int n + 1"
  shows "conn (run cf cd (concat (replicate n (ping_round t))) s) = Some c \<and>
    (let s' = run cf cd (concat (replicate n (ping_round t)) @ ping_round t) s
     in conn s' = None \<and> \<not> online s')"
proof -
  have "beating t (0 + int n) c (run cf cd (concat (replicate n (ping_round t))) s)"
    using assms by (intro ping_rounds) simp_all
  with ping_round_drops [OF this, of cf cd] assms(2) show ?thesis
    by (simp add: run_append beating_def)
qed

lemma beating_demo: "beating 2 0 0 (demo logged_in)"
  by (simp add: beating_def demo_login task_pc_def) code_simp

theorem heartbeat_detects_black_hole_witness:
  "conn (run default_conf fake_codec (concat (replicate 1 (ping_round 2))) (demo logged_in)) = Some 0 \<and>
   (let s' = run default_conf fake_codec (concat (replicate 1 (ping_round 2)) @ ping_round 2) (demo logged_in)
    in conn s' = None \<and> \<not> online s')"
  by (rule heartbeat_detects_black_hole [OF beating_demo]) (simp add: default_conf_def conf_of_def)

text \<open>
  C27. Desynchronisation is found: a ping answer whose \<open>sent\<close> is not the client's count clears
  the resume credentials and gives the connection of the ping up, so the next reconnect logs
  in afresh; an answer that agrees changes nothing but the number of misses.
\<close>

theorem ping_reconciles:
  assumes "truthy resp" and "conn s = Some c" and "\<not> closed s"
  shows "let s' = ping_result cf t m (Some c) resp s in
     (if prop_of resp (js ''sent'') = JNum (recv s)
      then s' = set_task t (HbSleep 0) s
      else nonce s' = JNull \<and> conn s' = None \<and> \<not> online s')"
  using assms
  by (simp add: ping_result_def heartbeat_loop_def Let_def drop_conn_def notifyState_def emit_def
      set_task_def)

theorem ping_reconciles_witness:
  "let s' = ping_result default_conf 2 0 (Some 0) ok_response (demo logged_in) in
     nonce s' = JNull \<and> conn s' = None \<and> \<not> online s'"
proof -
  have "truthy ok_response" "\<not> closed (demo logged_in)"
      "prop_of ok_response (js ''sent'') \<noteq> JNum (recv (demo logged_in))"
    by code_simp+
  with ping_reconciles [of ok_response "demo logged_in" 0 default_conf 2 0] demo_login(2)
  show ?thesis by (simp add: Let_def)
qed



text \<open>
  C29. The microtask queue empties: every microtask reduces \<open>micro_load\<close>, the number of
  requests in flight plus the weight of the queue, so between two events only finitely much
  code runs.
\<close>

theorem microtasks_terminate:
  assumes "micro s = m # ms"
  shows "micro_load (run_micro cf cd m (s\<lparr>micro := ms\<rparr>)) < micro_load s"
  using run_micro_load [of cf cd m "s\<lparr>micro := ms\<rparr>"] assms by (simp add: micro_load_def)

theorem microtasks_terminate_witness:
  "micro_load (run_micro default_conf fake_codec (MWake 0) ((new_session ())\<lparr>micro := []\<rparr>))
     < micro_load ((new_session ())\<lparr>micro := [MWake 0]\<rparr>)"
  using microtasks_terminate [of "(new_session ())\<lparr>micro := [MWake 0]\<rparr>" "MWake 0" "[]"
      default_conf fake_codec] by simp

subsection \<open>Where the code departs from its protocol\<close>






end
