(* ===== verification/Ieee.thy ===== *)
theory Ieee
  imports JsValue Complex_Main "HOL-Library.Log_Nat"
begin

section \<open>JavaScript numbers\<close>

text \<open>
  IEEE 754 doubles by their bit patterns: the rational a finite double stands for, rounding to
  the nearest double (ties to even), and the canonical \<open>jsval\<close> of a double. This is what the
  codec relies on when it scales fixed-point integers and writes doubles.
\<close>

definition pow2 :: "int \<Rightarrow> rat" where
  "pow2 k = (if 0 \<le> k then 2 ^ nat k else 1 / 2 ^ nat (- k))"

definition dbl_neg :: "64 word \<Rightarrow> bool" where
  "dbl_neg w \<longleftrightarrow> bit w 63"

definition dbl_exp :: "64 word \<Rightarrow> int" where
  "dbl_exp w = uint w div 2 ^ 52 mod 2 ^ 11"

definition dbl_frac :: "64 word \<Rightarrow> int" where
  "dbl_frac w = uint w mod 2 ^ 52"

definition dbl_finite :: "64 word \<Rightarrow> bool" where
  "dbl_finite w \<longleftrightarrow> dbl_exp w < 2047"

definition dbl_nan :: "64 word \<Rightarrow> bool" where
  "dbl_nan w \<longleftrightarrow> dbl_exp w = 2047 \<and> dbl_frac w \<noteq> 0"

text \<open>The magnitude of a finite double, and its value.\<close>

definition dbl_abs :: "64 word \<Rightarrow> rat" where
  "dbl_abs w =
     (if dbl_exp w = 0 then of_int (dbl_frac w) * pow2 (- 1074)
      else of_int (2 ^ 52 + dbl_frac w) * pow2 (dbl_exp w - 1075))"

definition dbl_val :: "64 word \<Rightarrow> rat" where
  "dbl_val w = (if dbl_neg w then - dbl_abs w else dbl_abs w)"

text \<open>The binary exponent of a positive rational.\<close>

definition ilog2 :: "rat \<Rightarrow> int" where
  "ilog2 q = (case quotient_of q of (n, d) \<Rightarrow>
     let e = bitlen n - bitlen d in if q < pow2 e then e - 1 else e)"

definition round_even :: "rat \<Rightarrow> int" where
  "round_even q =
     (let k = \<lfloor>q\<rfloor>; r = q - of_int k in
      if r < 1 / 2 then k else if r > 1 / 2 then k + 1 else if even k then k else k + 1)"

definition dbl_of :: "rat \<Rightarrow> 64 word" where
  "dbl_of q =
     (let a = \<bar>q\<bar>;
          e = (if a = 0 then -1022 else max (- 1022) (ilog2 a));
          bits = (e + 1022) * 2 ^ 52 + round_even (a / pow2 (e - 52));
          bits' = min bits (2047 * 2 ^ 52)
      in word_of_int (if q < 0 then bits' + 2 ^ 63 else bits'))"

text \<open>A double as a \<open>jsval\<close>: integral and safe (and not \<open>-0\<close>), or any other.\<close>

definition num_of_dbl :: "64 word \<Rightarrow> jsval" where
  "num_of_dbl w =
     (if dbl_finite w \<and> w \<noteq> 0x8000000000000000 \<and> dbl_val w = of_int \<lfloor>dbl_val w\<rfloor> \<and>
         \<bar>\<lfloor>dbl_val w\<rfloor>\<bar> \<le> 9007199254740991
      then JNum \<lfloor>dbl_val w\<rfloor> else JDbl w)"

text \<open>\<open>Number(v)\<close> of a value that is no string and no array.\<close>

fun dbl_of_num :: "jsval \<Rightarrow> 64 word" where
  "dbl_of_num (JNum n) = dbl_of (of_int n)"
| "dbl_of_num (JBig n) = dbl_of (of_int n)"
| "dbl_of_num (JDbl w) = w"
| "dbl_of_num JNull = 0"
| "dbl_of_num (JBool b) = dbl_of (of_bool b)"
| "dbl_of_num _ = 0x7FF8000000000000"

text \<open>Products, sums and quotients of finite doubles; other operands give NaN here.\<close>

definition dbl_arith :: "(rat \<Rightarrow> rat \<Rightarrow> rat) \<Rightarrow> 64 word \<Rightarrow> 64 word \<Rightarrow> 64 word" where
  "dbl_arith f a b = (if dbl_finite a \<and> dbl_finite b then dbl_of (f (dbl_val a) (dbl_val b)) else 0x7FF8000000000000)"

text \<open>\<open>Math.trunc\<close> modulo \<open>2 ^ 32\<close>, the operand of a bitwise operator; 0 for NaN and infinities.\<close>

definition trunc_rat :: "rat \<Rightarrow> int" where
  "trunc_rat q = (if q < 0 then - \<lfloor>- q\<rfloor> else \<lfloor>q\<rfloor>)"

definition to_int32 :: "64 word \<Rightarrow> int" where
  "to_int32 w = (if dbl_finite w then trunc_rat (dbl_val w) else 0)"

text \<open>\<open>Math.floor(v / 2 ^ k)\<close>; \<open>None\<close> for NaN and infinities.\<close>

definition dbl_shift :: "64 word \<Rightarrow> nat \<Rightarrow> int option" where
  "dbl_shift w k = (if dbl_finite w then Some \<lfloor>dbl_val w / 2 ^ k\<rfloor> else None)"

subsection \<open>Bits and fields\<close>

lemma div_split:
  fixes x P Q :: int
  assumes "0 < P" "0 < Q"
  shows "x = x div (P * Q) * (P * Q) + x div P mod Q * P + x mod P"
proof -
  have "x = x div P * P + x mod P" by (rule div_mult_mod_eq [symmetric])
  also have "x div P = x div P div Q * Q + x div P mod Q" by (rule div_mult_mod_eq [symmetric])
  also have "x div P div Q = x div (P * Q)" using assms by (simp add: zdiv_zmult2_eq)
  finally show ?thesis by (simp only: distrib_right mult.assoc mult.commute [of Q P])
qed

lemma dbl_fields:
  "uint w = (if dbl_neg w then 2 ^ 63 else 0) + dbl_exp w * 2 ^ 52 + dbl_frac w"
proof -
  have "uint w div 2 ^ 63 = (if dbl_neg w then 1 else 0)"
  proof -
    have "uint w div 2 ^ 63 < 2" using uint_lt2p [of w] by simp
    moreover have "0 \<le> uint w div 2 ^ 63" by (simp add: pos_imp_zdiv_nonneg_iff)
    moreover have "odd (uint w div 2 ^ 63) \<longleftrightarrow> dbl_neg w"
    proof -
      have "odd (uint w div 2 ^ 63) \<longleftrightarrow> bit (uint w) 63" by (simp only: bit_iff_odd)
      also have "\<dots> \<longleftrightarrow> bit w 63" by (simp add: bit_simps)
      finally show ?thesis by (simp add: dbl_neg_def)
    qed
    ultimately have "(uint w div 2 ^ 63 = 0 \<or> uint w div 2 ^ 63 = 1) \<and> (odd (uint w div 2 ^ 63) \<longleftrightarrow> dbl_neg w)"
      by linarith
    then show ?thesis by (metis even_zero odd_one)
  qed
  moreover have "uint w = uint w div (2 ^ 52 * 2 ^ 11) * (2 ^ 52 * 2 ^ 11) + uint w div 2 ^ 52 mod 2 ^ 11 * 2 ^ 52 +
      uint w mod 2 ^ 52"
    by (rule div_split) simp_all
  moreover have "(2 :: int) ^ 52 * 2 ^ 11 = 2 ^ 63" by simp
  ultimately show ?thesis
    unfolding dbl_exp_def dbl_frac_def by (cases "dbl_neg w") (simp_all only: if_True if_False mult_1_left mult_zero_left)
qed

end
