(* ===== verification/SprotoUtil.thy ===== *)
theory SprotoUtil
  imports Ieee
begin

section \<open>sproto: byte buffers and integers\<close>

text \<open>
  The helpers of \<open>sdk/ts/src/sproto/sproto.ts\<close>. A \<open>number[]\<close> of bytes is a list of optional
  bytes: \<open>None\<close> is an element that reads as \<open>undefined\<close> (a hole, or a read past the end).
  JavaScript's bitwise operators work on 32-bit words; \<open>>>> 0\<close> reads such a word as unsigned.
\<close>

type_synonym buf = "byte option list"

subsection \<open>Reading and writing\<close>

definition get_at :: "buf \<Rightarrow> nat \<Rightarrow> byte option" where
  "get_at b i = (if i < length b then b ! i else None)"

text \<open>\<open>x & 0xff\<close>: \<open>undefined & 0xff\<close> is 0.\<close>

definition byte_at :: "buf \<Rightarrow> nat \<Rightarrow> byte" where
  "byte_at b i = (case get_at b i of None \<Rightarrow> 0 | Some x \<Rightarrow> x)"

text \<open>\<open>b[i] = v\<close>: a write past the end lengthens the array and leaves holes.\<close>

definition put_opt :: "buf \<Rightarrow> nat \<Rightarrow> byte option \<Rightarrow> buf" where
  "put_opt b i v = (b @ replicate (Suc i - length b) None)[i := v]"

abbreviation put_at :: "buf \<Rightarrow> nat \<Rightarrow> byte \<Rightarrow> buf" where
  "put_at b i v \<equiv> put_opt b i (Some v)"

fun put_list :: "buf \<Rightarrow> nat \<Rightarrow> byte option list \<Rightarrow> buf" where
  "put_list b i [] = b"
| "put_list b i (v # vs) = put_list (put_opt b i v) (Suc i) vs"

lemma length_put_opt [simp]: "length (put_opt b i v) = max (length b) (Suc i)"
  by (simp add: put_opt_def)

lemma get_at_put_opt: "get_at (put_opt b i v) j = (if j = i then v else get_at b j)"
  by (auto simp: get_at_def put_opt_def nth_append nth_list_update)

lemma length_put_list:
  "length (put_list b i vs) = (if vs = [] then length b else max (length b) (i + length vs))"
  by (induction b i vs rule: put_list.induct) auto

lemma get_at_put_list:
  "get_at (put_list b i vs) j =
     (if i \<le> j \<and> j < i + length vs then vs ! (j - i) else get_at b j)"
proof (induction b i vs rule: put_list.induct)
  case (2 b i v vs)
  then show ?case
    by (auto simp: get_at_put_opt nth_Cons' Suc_diff_Suc)
qed auto

lemma buf_eqI: "length a = length b \<Longrightarrow> (\<And>i. i < length a \<Longrightarrow> get_at a i = get_at b i) \<Longrightarrow> a = b"
  by (rule nth_equalityI) (auto simp: get_at_def)

lemma put_list_append: "i = length b \<Longrightarrow> put_list b i vs = b @ vs"
  by (rule buf_eqI) (auto simp: length_put_list get_at_put_list, auto simp: get_at_def nth_append)

subsection \<open>Little-endian words\<close>

definition toWord :: "buf \<Rightarrow> int" where
  "toWord stream =
     sint (ucast (byte_at stream 0) OR push_bit 8 (ucast (byte_at stream 1)) :: 32 word)"

definition toDword :: "buf \<Rightarrow> int" where
  "toDword stream =
     uint (ucast (byte_at stream 0) OR push_bit 8 (ucast (byte_at stream 1)) OR
           push_bit 16 (ucast (byte_at stream 2)) OR push_bit 24 (ucast (byte_at stream 3)) :: 32 word)"

text \<open>\<open>v | 0\<close>\<close>

definition expand64 :: "int \<Rightarrow> int" where
  "expand64 v = sint (word_of_int v :: 32 word)"

text \<open>
  Two unsigned 32-bit words to a signed 64-bit integer: a \<open>number\<close> where it is not negative and
  safe, else a \<open>bigint\<close>.
\<close>

definition int64 :: "int \<Rightarrow> int \<Rightarrow> jsval" where
  "int64 low hi =
     (let u = push_bit 32 (uint (word_of_int hi :: 32 word)) OR uint (word_of_int low :: 32 word) in
      if (word_of_int hi :: 32 word) AND 0x80000000 \<noteq> 0 then JBig (u - 0x10000000000000000)
      else if u \<le> 9007199254740991 then JNum u else JBig u)"

definition uint64Rshift :: "int \<Rightarrow> nat \<Rightarrow> int" where
  "uint64Rshift num offset = num div 2 ^ offset"

text \<open>\<open>v & 0xff\<close> of an integral number\<close>

definition low_byte :: "int \<Rightarrow> byte" where
  "low_byte v = word_of_int v"

definition fillSize :: "buf \<Rightarrow> nat \<Rightarrow> int \<Rightarrow> int \<times> buf" where
  "fillSize data dataIdx sz =
     (sz + 4,
      put_at (put_at (put_at (put_at data
        dataIdx (low_byte sz))
        (dataIdx + 1) (low_byte (sz div 2 ^ 8)))
        (dataIdx + 2) (low_byte (sz div 2 ^ 16)))
        (dataIdx + 3) (low_byte (sz div 2 ^ 24)))"

definition encodeInteger :: "int \<Rightarrow> buf \<Rightarrow> nat \<Rightarrow> int \<times> buf" where
  "encodeInteger v data dataIdx =
     fillSize (put_at (put_at (put_at (put_at data
        (dataIdx + 4) (low_byte v))
        (dataIdx + 5) (low_byte (v div 2 ^ 8)))
        (dataIdx + 6) (low_byte (v div 2 ^ 16)))
        (dataIdx + 7) (low_byte (v div 2 ^ 24))) dataIdx 4"

fun put_bigint :: "nat \<Rightarrow> int \<Rightarrow> buf \<Rightarrow> nat \<Rightarrow> buf" where
  "put_bigint 0 u data i = data"
| "put_bigint (Suc n) u data i =
     put_bigint n (u div 2 ^ 8) (put_at data i (low_byte (u AND 0xff))) (Suc i)"

text \<open>The 8 bytes of a \<open>number\<close>, each from its own shift, or of a \<open>bigint\<close>, by repeated shifts.\<close>

definition put_number64 :: "int \<Rightarrow> buf \<Rightarrow> nat \<Rightarrow> buf" where
  "put_number64 v data i =
     put_list data i (map (\<lambda>k. Some (low_byte (uint64Rshift v (8 * k)))) [0..<8])"

definition put_bigint64 :: "int \<Rightarrow> buf \<Rightarrow> nat \<Rightarrow> buf" where
  "put_bigint64 v data i =
     put_bigint 8 (if v < 0 then v + 0x10000000000000000 else v) data i"

text \<open>A \<open>number\<close> that is not a safe integer: the low byte of the truncation, then floors of shifts.\<close>

definition double_shift_bytes :: "64 word \<Rightarrow> byte list" where
  "double_shift_bytes w =
     low_byte (to_int32 w) # map (\<lambda>k. case dbl_shift w (8 * k) of None \<Rightarrow> 0 | Some h \<Rightarrow> low_byte h) [1..<8]"

definition put_double64 :: "64 word \<Rightarrow> buf \<Rightarrow> nat \<Rightarrow> buf" where
  "put_double64 w data i = put_list data i (map Some (double_shift_bytes w))"

fun put_wide :: "jsval \<Rightarrow> buf \<Rightarrow> nat \<Rightarrow> buf" where
  "put_wide (JBig v) data i = put_bigint64 v data i"
| "put_wide (JNum v) data i = put_number64 v data i"
| "put_wide (JDbl w) data i = put_double64 w data i"
| "put_wide _ data i = data"

definition encodeUint64 :: "jsval \<Rightarrow> buf \<Rightarrow> nat \<Rightarrow> int \<times> buf" where
  "encodeUint64 v data dataIdx = fillSize (put_wide v data (dataIdx + 4)) dataIdx 8"

text \<open>
  The integer case of the callback \<open>encode\<close>, without fixed-point scaling: the value to write and
  the width, 4 or 8 bytes. \<open>None\<close>: the value is no number.
\<close>

definition encode_integer :: "jsval \<Rightarrow> (jsval \<times> int) option" where
  "encode_integer target =
     (case target of
        JBig n \<Rightarrow>
          if n > 0x7FFFFFFF \<or> n < - 0x80000000 then Some (JBig n, 8)
          else Some (JNum (uint (word_of_int n :: 32 word)), 4)
      | JNum v \<Rightarrow>
          let vh = uint64Rshift v 31 in
          if vh = 0 \<or> vh = -1 then Some (JNum (uint (word_of_int v :: 32 word)), 4)
          else Some (JNum v, 8)
      | JDbl w \<Rightarrow>
          (case dbl_shift w 31 of
             Some vh \<Rightarrow>
               if vh = 0 \<or> vh = -1 then Some (JNum (uint (word_of_int (to_int32 w) :: 32 word)), 4)
               else Some (JDbl w, 8)
           | None \<Rightarrow> Some (JDbl w, 8))
      | _ \<Rightarrow> None)"

text \<open>
  A scalar integer field: the word for the field header (0 when the value goes to the data
  part), the size returned, and the buffer.
\<close>

definition scalar_integer :: "jsval \<Rightarrow> buf \<Rightarrow> nat \<Rightarrow> (int \<times> int \<times> buf) option" where
  "scalar_integer target data dataIdx =
     (case encode_integer target of
        None \<Rightarrow> None
      | Some (JNum x, sz) \<Rightarrow>
          if sz = 4 then
            if x < 0x7fff then Some ((x + 1) * 2, 2, data)
            else let (r, d) = encodeInteger x data dataIdx in Some (0, r, d)
          else let (r, d) = encodeUint64 (JNum x) data dataIdx in Some (0, r, d)
      | Some (v, sz) \<Rightarrow> let (r, d) = encodeUint64 v data dataIdx in Some (0, r, d))"

text \<open>The integer case of \<open>sprotoDecode\<close>: from the header word, or from the data part.\<close>

definition decode_integer :: "int \<Rightarrow> buf \<Rightarrow> jsval option" where
  "decode_integer header currentdata =
     (let value = header div 2 - 1 in
      if value \<ge> 0 then Some (JNum value)
      else
        let sz = toDword currentdata in
        if sz = 4 then Some (JNum (expand64 (toDword (drop 4 currentdata))))
        else if sz = 8 then
          Some (int64 (toDword (drop 4 currentdata)) (toDword (drop 8 currentdata)))
        else None)"

fun int_of :: "jsval \<Rightarrow> int" where
  "int_of (JNum n) = n"
| "int_of (JBig n) = n"
| "int_of _ = 0"

fun is_integer :: "jsval \<Rightarrow> bool" where
  "is_integer (JNum n) = True"
| "is_integer (JBig n) = True"
| "is_integer _ = False"

subsection \<open>Integers survive the wire\<close>

lemma byte_at_put_opt:
  "byte_at (put_opt b i v) j =
     (if j = i then (case v of None \<Rightarrow> 0 | Some x \<Rightarrow> x) else byte_at b j)"
  by (simp add: byte_at_def get_at_put_opt)

lemma byte_at_drop: "byte_at (drop n b) i = byte_at b (n + i)"
  by (auto simp: byte_at_def get_at_def)

lemma div_sign:
  fixes v P :: int
  assumes "0 < P"
  shows "v div P = 0 \<longleftrightarrow> 0 \<le> v \<and> v < P" and "v div P = -1 \<longleftrightarrow> - P \<le> v \<and> v < 0"
proof -
  show "v div P = 0 \<longleftrightarrow> 0 \<le> v \<and> v < P"
    using assms by (auto simp: zdiv_eq_0_iff)
  have "(v + P) div P = v div P + 1"
    using assms by (intro div_add_self2) simp
  then have "v div P = -1 \<longleftrightarrow> (v + P) div P = 0" by linarith
  also have "\<dots> \<longleftrightarrow> 0 \<le> v + P \<and> v + P < P"
    using assms zdiv_eq_0_iff [of "v + P" P] by linarith
  also have "\<dots> \<longleftrightarrow> - P \<le> v \<and> v < 0" by linarith
  finally show "v div P = -1 \<longleftrightarrow> - P \<le> v \<and> v < 0" .
qed

lemma mod_negative: "(v::int) < 0 \<Longrightarrow> - P \<le> v \<Longrightarrow> v mod P = v + P"
  by (metis add_less_same_cancel2 mod_add_self2 mod_pos_pos_trivial neg_le_iff_le minus_le_iff
      ab_group_add_class.ab_diff_conv_add_uminus diff_ge_0_iff_ge minus_minus diff_minus_eq_add add.commute)

lemma bit_low_byte: "bit (low_byte (v div 2 ^ k)) n \<longleftrightarrow> n < 8 \<and> bit v (k + n)"
  by (simp add: low_byte_def bit_simps flip: drop_bit_eq_div)

lemma toDword_bytes:
  assumes "\<And>k. k < 4 \<Longrightarrow> byte_at b k = low_byte (v div 2 ^ (8 * k))"
  shows "toDword b = take_bit 32 v"
proof -
  have bits: "bit (byte_at b k) n \<longleftrightarrow> n < 8 \<and> bit v (8 * k + n)" if "k < 4" for k n
    using assms [OF that] by (simp add: bit_low_byte)
  let ?w = "ucast (byte_at b 0) OR push_bit 8 (ucast (byte_at b 1)) OR
      push_bit 16 (ucast (byte_at b 2)) OR push_bit 24 (ucast (byte_at b 3)) :: 32 word"
  have "?w = word_of_int v"
  proof (rule bit_word_eqI)
    fix n assume n: "n < LENGTH(32)"
    then consider "n < 8" | "8 \<le> n" "n < 16" | "16 \<le> n" "n < 24" | "24 \<le> n" "n < 32" by fastforce
    then show "bit ?w n = bit (word_of_int v :: 32 word) n"
      using n unfolding bit_or_iff bit_push_bit_iff bit_ucast_iff bit_word_of_int_iff
      by cases (simp_all add: bits, auto)
  qed
  then show ?thesis
    by (simp add: toDword_def unsigned_of_int)
qed

lemma byte_at_fillSize:
  "byte_at (snd (fillSize data i sz)) j =
     (if i \<le> j \<and> j < i + 4 then low_byte (sz div 2 ^ (8 * (j - i))) else byte_at data j)"
proof -
  consider "j < i" | "j = i" | "j = i + 1" | "j = i + 2" | "j = i + 3" | "i + 4 \<le> j" by linarith
  then show ?thesis
    by cases (simp_all add: fillSize_def byte_at_put_opt)
qed

lemma toDword_fillSize: "toDword (drop i (snd (fillSize data i sz))) = take_bit 32 sz"
  by (rule toDword_bytes) (simp add: byte_at_drop byte_at_fillSize)

lemma byte_at_put_list:
  "byte_at (put_list b i (map Some bs)) j =
     (if i \<le> j \<and> j < i + length bs then bs ! (j - i) else byte_at b j)"
  by (auto simp: byte_at_def get_at_put_list)

lemma put_number64_bytes:
  "k < 8 \<Longrightarrow> byte_at (put_number64 v data i) (i + k) = low_byte (v div 2 ^ (8 * k))"
proof -
  have "put_number64 v data i = put_list data i (map Some (map (\<lambda>k. low_byte (v div 2 ^ (8 * k))) [0..<8]))"
    by (simp add: put_number64_def uint64Rshift_def comp_def)
  moreover assume "k < 8"
  ultimately show ?thesis by (simp add: byte_at_put_list del: upt_rec_numeral map_map)
qed

lemma low_byte_and: "low_byte (u AND 255) = low_byte u"
proof -
  have "u AND 255 = take_bit 8 u"
    by (simp add: take_bit_eq_mask mask_eq_exp_minus_1)
  then show ?thesis
    by (auto simp: low_byte_def bit_simps intro!: bit_word_eqI)
qed

lemma byte_at_put_bigint:
  "byte_at (put_bigint n u data i) j =
     (if i \<le> j \<and> j < i + n then low_byte (u div 2 ^ (8 * (j - i))) else byte_at data j)"
proof (induction n u data i rule: put_bigint.induct)
  case (2 n u data i)
  have "u div 2 ^ 8 div 2 ^ (8 * (j - Suc i)) = u div 2 ^ (8 * (j - i))" if "i < j"
  proof -
    have "8 + 8 * (j - Suc i) = 8 * (j - i)" using that by simp
    then show ?thesis
      by (metis zdiv_zmult2_eq power_add zero_le_numeral zero_le_power)
  qed
  with 2 show ?case
    by (auto simp: byte_at_put_opt low_byte_and le_Suc_eq Suc_le_eq)
qed auto

lemma low_byte_complement:
  assumes "k < 8"
  shows "low_byte ((v + 0x10000000000000000) div 2 ^ (8 * k)) = low_byte (v div 2 ^ (8 * k))"
proof (rule bit_word_eqI)
  fix n assume "n < LENGTH(8)"
  then have lt: "8 * k + n < 64" using assms by simp
  have "take_bit 64 (v + 0x10000000000000000) = take_bit 64 v"
    by (simp add: take_bit_eq_mod)
  then have "bit (v + 0x10000000000000000) (8 * k + n) = bit v (8 * k + n)"
    using lt by (metis bit_take_bit_iff)
  then show "bit (low_byte ((v + 0x10000000000000000) div 2 ^ (8 * k))) n = bit (low_byte (v div 2 ^ (8 * k))) n"
    by (simp add: bit_low_byte)
qed

lemma put_bigint64_bytes:
  "k < 8 \<Longrightarrow> byte_at (put_bigint64 v data i) (i + k) = low_byte (v div 2 ^ (8 * k))"
  by (simp add: put_bigint64_def byte_at_put_bigint low_byte_complement)

lemma take_bit_word_of_int: "(word_of_int (take_bit 32 v) :: 32 word) = word_of_int v"
  by (rule bit_word_eqI) (simp add: bit_simps)

text \<open>Two 32-bit halves of \<open>v\<close> give \<open>v\<close> back, in the representation the reader chooses.\<close>

lemma int64_halves:
  assumes "- (2 ^ 63) \<le> v" "v < 2 ^ 63"
  shows "int64 (take_bit 32 v) (take_bit 32 (v div 2 ^ 32)) =
    (if 0 \<le> v \<and> v \<le> 9007199254740991 then JNum v else JBig v)"
proof -
  have u: "push_bit 32 (take_bit 32 (v div 2 ^ 32)) OR take_bit 32 v = take_bit 64 v"
    unfolding drop_bit_eq_div [symmetric] by (rule bit_eqI) (auto simp: bit_simps)
  have sgn: "(word_of_int (v div 2 ^ 32) :: 32 word) AND 0x80000000 \<noteq> 0 \<longleftrightarrow> v < 0"
  proof -
    have "(0x80000000 :: 32 word) = push_bit 31 1" by simp
    then have "(word_of_int (v div 2 ^ 32) :: 32 word) AND 0x80000000 \<noteq> 0 \<longleftrightarrow>
        bit (word_of_int (v div 2 ^ 32) :: 32 word) 31"
      by (simp only: and_exp_eq_0_iff_not_bit push_bit_of_1 not_not)
    also have "\<dots> \<longleftrightarrow> bit v 63"
      unfolding drop_bit_eq_div [symmetric] by (simp add: bit_simps)
    also have "\<dots> \<longleftrightarrow> v < 0"
    proof -
      have "v div 2 ^ 63 = (if v < 0 then -1 else 0)"
        using assms div_sign [of "2 ^ 63" v] by auto
      then show ?thesis by (auto simp: bit_iff_odd)
    qed
    finally show ?thesis .
  qed
  have "take_bit 64 v = (if v < 0 then v + 0x10000000000000000 else v)"
    using assms mod_negative [of v 18446744073709551616] by (auto simp: take_bit_eq_mod)
  then show ?thesis
    using u sgn by (simp add: int64_def take_bit_word_of_int Let_def unsigned_of_int)
qed

lemma expand64_take_bit:
  assumes "- (2 ^ 31) \<le> v" "v < 2 ^ 31"
  shows "expand64 (take_bit 32 v) = v"
  using assms by (simp add: expand64_def take_bit_word_of_int signed_of_int signed_take_bit_int_eq_self)

lemma encodeInteger_bytes:
  "byte_at (snd (encodeInteger v data i)) j =
     (if i \<le> j \<and> j < i + 4 then low_byte (4 div 2 ^ (8 * (j - i)))
      else if i + 4 \<le> j \<and> j < i + 8 then low_byte (v div 2 ^ (8 * (j - i - 4)))
      else byte_at data j)"
proof -
  consider "j < i" | "i \<le> j" "j < i + 4" | "j = i + 4" | "j = i + 5" | "j = i + 6" | "j = i + 7" | "i + 8 \<le> j"
    by linarith
  then show ?thesis
    by cases (simp_all add: encodeInteger_def byte_at_fillSize byte_at_put_opt)
qed

lemma toDword_encodeInteger:
  "toDword (drop i (snd (encodeInteger v data i))) = 4"
  "toDword (drop (i + 4) (snd (encodeInteger v data i))) = take_bit 32 v"
proof -
  have "toDword (drop i (snd (encodeInteger v data i))) = take_bit 32 4"
    by (rule toDword_bytes) (simp add: byte_at_drop encodeInteger_bytes)
  then show "toDword (drop i (snd (encodeInteger v data i))) = 4" by simp
  show "toDword (drop (i + 4) (snd (encodeInteger v data i))) = take_bit 32 v"
    by (rule toDword_bytes) (simp add: byte_at_drop encodeInteger_bytes)
qed

lemma encodeUint64_bytes:
  assumes "is_integer t" "k < 8"
  shows "byte_at (snd (encodeUint64 t data i)) (i + 4 + k) = low_byte (int_of t div 2 ^ (8 * k))"
  using assms
  by (cases t) (simp_all add: encodeUint64_def byte_at_fillSize put_number64_bytes put_bigint64_bytes)

lemma toDword_encodeUint64:
  assumes "is_integer t"
  shows "toDword (drop i (snd (encodeUint64 t data i))) = 8"
    and "toDword (drop (i + 4) (snd (encodeUint64 t data i))) = take_bit 32 (int_of t)"
    and "toDword (drop (i + 8) (snd (encodeUint64 t data i))) = take_bit 32 (int_of t div 2 ^ 32)"
proof -
  show "toDword (drop i (snd (encodeUint64 t data i))) = 8"
    by (simp add: encodeUint64_def toDword_fillSize)
  show "toDword (drop (i + 4) (snd (encodeUint64 t data i))) = take_bit 32 (int_of t)"
    using encodeUint64_bytes [OF assms, of _ data i] by (intro toDword_bytes) (simp add: byte_at_drop)
  show "toDword (drop (i + 8) (snd (encodeUint64 t data i))) = take_bit 32 (int_of t div 2 ^ 32)"
  proof (rule toDword_bytes)
    fix k :: nat assume "k < 4"
    then have "byte_at (snd (encodeUint64 t data i)) (i + 4 + (k + 4)) =
        low_byte (int_of t div 2 ^ (8 * (k + 4)))"
      by (intro encodeUint64_bytes [OF assms]) simp
    moreover have "int_of t div 2 ^ (8 * (k + 4)) = int_of t div 2 ^ 32 div 2 ^ (8 * k)"
      unfolding distrib_left power_add by (subst mult.commute) (simp add: zdiv_zmult2_eq)
    ultimately show "byte_at (drop (i + 8) (snd (encodeUint64 t data i))) k =
        low_byte (int_of t div 2 ^ 32 div 2 ^ (8 * k))"
      by (simp add: byte_at_drop algebra_simps)
  qed
qed

text \<open>
  The round trip of a scalar integer: the value survives, and the reader gives a \<open>number\<close>
  unless the value went through 8 bytes and is negative or unsafe.
\<close>

lemma scalar_integer_roundtrip:
  assumes "is_integer t" and "- (2 ^ 63) \<le> int_of t" and "int_of t < 2 ^ 63"
    and "scalar_integer t data i = Some (h, sz, data')"
  shows "decode_integer h (drop i data') =
    Some (if (- (2 ^ 31) \<le> int_of t \<and> int_of t < 2 ^ 31) \<or> (0 \<le> int_of t \<and> int_of t \<le> 9007199254740991)
          then JNum (int_of t) else JBig (int_of t))"
proof -
  let ?v = "int_of t" and ?w = "uint (word_of_int (int_of t) :: 32 word)"
  have w: "?w = take_bit 32 ?v" by (simp add: unsigned_of_int)
  have range: "?v div 2 ^ 31 = 0 \<or> ?v div 2 ^ 31 = -1 \<longleftrightarrow> - (2 ^ 31) \<le> ?v \<and> ?v < 2 ^ 31"
    using div_sign [of "2 ^ 31" ?v] by auto
  show ?thesis
  proof (cases "- (2 ^ 31) \<le> ?v \<and> ?v < 2 ^ 31")
    case True
    then have enc: "encode_integer t = Some (JNum ?w, 4)"
      using assms(1) range by (cases t) (auto simp: encode_integer_def uint64Rshift_def)
    show ?thesis
    proof (cases "?w < 0x7fff")
      case small: True
      have "0 \<le> ?w" by simp
      moreover have "?w = ?v"
      proof -
        have "?v mod 4294967296 < 0x7fff" using small by (simp add: w take_bit_eq_mod)
        then have "\<not> ?v < 0" using True mod_negative [of ?v 4294967296] by auto
        then have "?v mod 4294967296 = ?v" using True by simp
        then show ?thesis by (simp add: w take_bit_eq_mod)
      qed
      ultimately show ?thesis
        using assms(4) enc small True by (auto simp: scalar_integer_def decode_integer_def)
    next
      case False
      then have "h = 0" "data' = snd (encodeInteger ?w data i)"
        using assms(4) enc by (auto simp: scalar_integer_def split_beta)
      moreover have "expand64 (take_bit 32 ?w) = ?v"
        using True by (simp add: w expand64_take_bit)
      ultimately show ?thesis
        using True toDword_encodeInteger [of i ?w data] by (simp add: decode_integer_def add.commute)
    qed
  next
    case False
    then have enc: "encode_integer t = Some (t, 8)"
      using assms(1) range by (cases t) (auto simp: encode_integer_def uint64Rshift_def)
    then have "h = 0" "data' = snd (encodeUint64 t data i)"
      using assms(1,4) by (cases t; auto simp: scalar_integer_def split_beta)+
    with False assms(2,3) toDword_encodeUint64 [OF assms(1), of i data] int64_halves [of ?v]
    show ?thesis by (auto simp: decode_integer_def add.commute)
  qed
qed

subsection \<open>Words as sums of bytes\<close>

text \<open>The equations the readers are evaluated with.\<close>

lemma get_at_code [code]: "get_at [] i = None" "get_at (x # xs) 0 = x" "get_at (x # xs) (Suc i) = get_at xs i"
  by (simp_all add: get_at_def)

lemma uint_byte: "0 \<le> uint (b :: byte)" "uint (b :: byte) < 256"
  using uint_lt2p [of b] by simp_all
lemma low_byte_shift: "low_byte (uint (a :: byte) + 256 * x) = a" "(uint (a :: byte) + 256 * x) div 256 = x"
proof -
  have "low_byte (uint a + 256 * x) = word_of_int (uint a) + word_of_int 256 * word_of_int x"
    by (simp add: low_byte_def)
  also have "(word_of_int 256 :: byte) = 0" by simp
  finally show "low_byte (uint a + 256 * x) = a" by simp
  show "(uint a + 256 * x) div 256 = x" using uint_byte [of a] by simp
qed

lemma toDword_code [code]:
  "toDword b = uint (byte_at b 0) + 256 * (uint (byte_at b 1) + 256 * (uint (byte_at b 2) + 256 * uint (byte_at b 3)))"
proof -
  let ?v = "uint (byte_at b 0) + 256 * (uint (byte_at b 1) + 256 * (uint (byte_at b 2) + 256 * uint (byte_at b 3)))"
  have "toDword b = take_bit 32 ?v"
  proof (rule toDword_bytes)
    fix k :: nat assume "k < 4"
    then have "8 * k = 0 \<and> k = 0 \<or> 8 * k = 8 \<and> k = 1 \<or> 8 * k = 16 \<and> k = 2 \<or> 8 * k = 24 \<and> k = 3" by presburger
    moreover have mults: "8 * (0 :: nat) = 0" "8 * (1 :: nat) = 8" "8 * (2 :: nat) = 16" "8 * (3 :: nat) = 24" by simp_all
    moreover have "?v div 2 ^ 8 = ?v div 256" "?v div 2 ^ 16 = ?v div 256 div 256" "?v div 2 ^ 24 = ?v div 256 div 256 div 256"
      by (simp_all only: zdiv_zmult2_eq [symmetric], simp_all)
    moreover have "low_byte (uint (byte_at b 3)) = byte_at b 3"
      using low_byte_shift [of "byte_at b 3" 0] by simp
    ultimately show "byte_at b k = low_byte (?v div 2 ^ (8 * k))"
      by (elim disjE) (simp_all only: low_byte_shift power_0 div_by_1 mults)
  qed
  moreover have "0 \<le> ?v" "?v < 2 ^ 32"
    using uint_byte [of "byte_at b 0"] uint_byte [of "byte_at b 1"] uint_byte [of "byte_at b 2"] uint_byte [of "byte_at b 3"] by auto
  ultimately show ?thesis by (simp only: take_bit_int_eq_self)
qed

lemma toWord_code [code]: "toWord b = uint (byte_at b 0) + 256 * uint (byte_at b 1)"
proof -
  let ?v = "uint (byte_at b 0) + 256 * uint (byte_at b 1)"
  let ?w = "ucast (byte_at b 0) OR push_bit 8 (ucast (byte_at b 1)) :: 32 word"
  have bnd: "0 \<le> ?v" "?v < 2 ^ 16"
    using uint_byte [of "byte_at b 0"] uint_byte [of "byte_at b 1"] by auto
  have "?w = ucast (byte_at b 0) + push_bit 8 (ucast (byte_at b 1))"
    by (rule disjunctive_add [symmetric]) (auto simp: bit_simps dest: bit_imp_le_length)
  also have "\<dots> = word_of_int ?v"
    unfolding ucast_eq push_bit_eq_mult of_int_add of_int_mult by simp
  finally have "?w = word_of_int ?v" .
  then have "sint ?w = signed_take_bit (LENGTH(32) - 1) ?v" by (simp only: signed_of_int One_nat_def of_int_eq_id id_apply)
  moreover have "signed_take_bit (LENGTH(32) - 1) ?v = ?v"
  proof (rule signed_take_bit_int_eq_self)
    show "- (2 ^ (LENGTH(32) - 1)) \<le> ?v" by (rule order_trans [OF _ bnd(1)]) simp
    show "?v < 2 ^ (LENGTH(32) - 1)" by (rule less_trans [OF bnd(2)]) simp
  qed
  ultimately show ?thesis by (simp only: toWord_def)
qed

lemma toWord_nonneg: "0 \<le> toWord b"
  and toWord_less: "toWord b < 65536"
  using uint_byte [of "byte_at b 0"] uint_byte [of "byte_at b 1"] by (simp_all add: toWord_code)

lemma toDword_nonneg: "0 \<le> toDword b"
  and toDword_less: "toDword b < 2 ^ 32"
  using uint_byte [of "byte_at b 0"] uint_byte [of "byte_at b 1"] uint_byte [of "byte_at b 2"]
    uint_byte [of "byte_at b 3"] by (simp_all add: toDword_code)

end
