(* ===== verification/SprotoPack.thy ===== *)
theory SprotoPack
  imports SprotoUtil
begin

section \<open>sproto: zero packing\<close>

text \<open>
  \<open>packSeg\<close>, \<open>writeFf\<close>, \<open>sprotoPack\<close> and \<open>sprotoUnpack\<close> of \<open>sproto.ts\<close>, with their index
  variables. The output array is written through indices and may keep holes and stray
  elements for a while, as in the code. \<open>bufsz\<close> starts at \<open>1 << 30\<close>.
\<close>

subsection \<open>Packing\<close>

text \<open>One iteration of the loop of \<open>packSeg\<close>: header bits, non-zero count, space, write index.\<close>

record seg =
  sg_header :: byte
  sg_notzero :: nat
  sg_sz :: int
  sg_idx :: nat
  sg_buf :: buf

definition seg_step :: "buf \<Rightarrow> nat \<Rightarrow> nat \<Rightarrow> seg \<Rightarrow> seg" where
  "seg_step src srcIdx i g =
     (let x = get_at src (srcIdx + i) in
      if x \<noteq> Some 0 then
        let g1 = g\<lparr>sg_notzero := sg_notzero g + 1, sg_header := sg_header g OR push_bit i 1\<rparr> in
        if sg_sz g > 0
        then g1\<lparr>sg_buf := put_opt (sg_buf g) (sg_idx g) x, sg_idx := sg_idx g + 1, sg_sz := sg_sz g - 1\<rparr>
        else g1
      else g)"

definition packSeg :: "buf \<Rightarrow> nat \<Rightarrow> buf \<Rightarrow> nat \<Rightarrow> int \<Rightarrow> nat \<Rightarrow> nat \<times> buf" where
  "packSeg src srcIdx buffer bufferIdx sz0 n =
     (let sz = sz0 - 1 in
      if sz < 0 then (10, buffer)
      else
        let g = fold (seg_step src srcIdx) [0..<8]
              \<lparr>sg_header = 0, sg_notzero = 0, sg_sz = sz, sg_idx = bufferIdx + 1, sg_buf = buffer\<rparr>;
            notzero = (if (sg_notzero g = 7 \<or> sg_notzero g = 6) \<and> n > 0 then 8 else sg_notzero g)
        in if notzero = 8 then (if n > 0 then 8 else 10, sg_buf g)
           else (notzero + 1, put_at (sg_buf g) bufferIdx (sg_header g)))"

text \<open>\<open>(n + 7) & (~7)\<close>\<close>

definition align8 :: "nat \<Rightarrow> nat" where
  "align8 n = (n + 7) div 8 * 8"

definition writeFf :: "buf \<Rightarrow> nat \<Rightarrow> buf \<Rightarrow> nat \<Rightarrow> nat \<Rightarrow> buf" where
  "writeFf src srcIdx des destIdx n =
     (let d1 = put_at des destIdx 0xff;
          d2 = put_at d1 (destIdx + 1) (of_nat (align8 n div 8 - 1));
          d3 = fold (\<lambda>i d. put_opt d (destIdx + i + 2) (get_at src (srcIdx + i))) [0..<n] d2
      in fold (\<lambda>i d. put_at d (destIdx + n + 2 + i) 0) [0..<align8 n - n] d3)"

record pack_state =
  p_src :: buf
  p_srcIdx :: nat
  p_bufferIdx :: nat
  p_buffer :: buf
  p_bufsz :: int
  p_size :: nat
  p_ffN :: nat
  p_ffSrc :: buf
  p_ffSrcIdx :: nat
  p_ffDesIdx :: nat

text \<open>
  The last, partial chunk is copied to an 8-element array and padded with 0; from then on \<open>src\<close>
  is that array.
\<close>

definition pad_tail :: "buf \<Rightarrow> nat \<Rightarrow> nat \<Rightarrow> buf" where
  "pad_tail src srcIdx padding =
     map (get_at src) [srcIdx..<srcIdx + (8 - padding)] @ replicate padding (Some 0)"

definition pack_step :: "nat \<Rightarrow> nat \<Rightarrow> pack_state \<Rightarrow> pack_state" where
  "pack_step srcsz i s0 =
     (let padding = int i + 8 - int srcsz;
          s = (if padding > 0
               then s0\<lparr>p_src := pad_tail (p_src s0) (p_srcIdx s0) (nat padding), p_srcIdx := 0\<rparr>
               else s0);
          (n, b) = packSeg (p_src s) (p_srcIdx s) (p_buffer s) (p_bufferIdx s) (p_bufsz s) (p_ffN s);
          s1 = s\<lparr>p_buffer := b, p_bufsz := p_bufsz s - int n\<rparr>;
          s2 = (if n = 10 then
                  s1\<lparr>p_ffSrc := p_src s, p_ffSrcIdx := p_srcIdx s, p_ffDesIdx := p_bufferIdx s, p_ffN := 1\<rparr>
                else if n = 8 \<and> p_ffN s1 > 0 then
                  if p_ffN s1 + 1 = 256 then
                    s1\<lparr>p_buffer := (if p_bufsz s1 \<ge> 0
                          then writeFf (p_ffSrc s1) (p_ffSrcIdx s1) b (p_ffDesIdx s1) (256 * 8) else b),
                       p_ffN := 0\<rparr>
                  else s1\<lparr>p_ffN := p_ffN s1 + 1\<rparr>
                else if p_ffN s1 > 0 then
                  s1\<lparr>p_buffer := (if p_bufsz s1 \<ge> 0
                        then writeFf (p_ffSrc s1) (p_ffSrcIdx s1) b (p_ffDesIdx s1) (p_ffN s1 * 8) else b),
                     p_ffN := 0\<rparr>
                else s1)
      in s2\<lparr>p_srcIdx := p_srcIdx s2 + 8, p_bufferIdx := p_bufferIdx s2 + n, p_size := p_size s2 + n\<rparr>)"

function pack_loop :: "nat \<Rightarrow> nat \<Rightarrow> pack_state \<Rightarrow> pack_state" where
  "pack_loop srcsz i s = (if i < srcsz then pack_loop srcsz (i + 8) (pack_step srcsz i s) else s)"
  by pat_completeness auto
termination by (relation "measure (\<lambda>(srcsz, i, s). srcsz - i)") auto

declare pack_loop.simps [simp del]

definition pack_start :: "buf \<Rightarrow> pack_state" where
  "pack_start srcv = \<lparr>p_src = srcv, p_srcIdx = 0, p_bufferIdx = 0, p_buffer = [], p_bufsz = 2 ^ 30,
     p_size = 0, p_ffN = 0, p_ffSrc = [], p_ffSrcIdx = 0, p_ffDesIdx = 0\<rparr>"

definition pack_finish :: "nat \<Rightarrow> pack_state \<Rightarrow> buf" where
  "pack_finish srcsz s =
     (if p_bufsz s \<ge> 0 then
        let b = (if p_ffN s = 1 then writeFf (p_ffSrc s) (p_ffSrcIdx s) (p_buffer s) (p_ffDesIdx s) 8
                 else if p_ffN s > 1 then
                   writeFf (p_ffSrc s) (p_ffSrcIdx s) (p_buffer s) (p_ffDesIdx s) (srcsz - p_ffSrcIdx s)
                 else p_buffer s)
        in take (p_size s) b @ replicate (length b - p_size s) (Some 0)
      else p_buffer s)"

definition sprotoPack :: "buf \<Rightarrow> buf" where
  "sprotoPack srcv = pack_finish (length srcv) (pack_loop (length srcv) 0 (pack_start srcv))"

subsection \<open>Unpacking\<close>

text \<open>
  The inner loop over the 8 bits of a header: \<open>None\<close> when it returns \<open>-1\<close> (the array written so
  far stays).
\<close>

record unp =
  u_srcsz :: int
  u_srcIdx :: nat
  u_bufsz :: int
  u_bufIdx :: nat
  u_buf :: buf

fun unpack_bits :: "buf \<Rightarrow> byte \<Rightarrow> nat \<Rightarrow> nat \<Rightarrow> unp \<Rightarrow> unp \<times> bool" where
  "unpack_bits src header i 0 u = (u, True)"
| "unpack_bits src header i (Suc k) u =
     (if bit header i then
        if u_srcsz u < 0 then (u, False)
        else
          let u1 = (if u_bufsz u > 0
                    then u\<lparr>u_buf := put_opt (u_buf u) (u_bufIdx u) (get_at src (u_srcIdx u)),
                           u_bufsz := u_bufsz u - 1, u_bufIdx := u_bufIdx u + 1\<rparr>
                    else u)
          in unpack_bits src header (Suc i) k (u1\<lparr>u_srcIdx := u_srcIdx u1 + 1, u_srcsz := u_srcsz u1 - 1\<rparr>)
      else
        unpack_bits src header (Suc i) k
          (if u_bufsz u > 0
           then u\<lparr>u_buf := put_at (u_buf u) (u_bufIdx u) 0,
                  u_bufsz := u_bufsz u - 1, u_bufIdx := u_bufIdx u + 1\<rparr>
           else u))"

lemma unpack_bits_srcsz: "u_srcsz (fst (unpack_bits src h i k u)) \<le> u_srcsz u"
proof (induction src h i k u rule: unpack_bits.induct)
  case (2 src h i k u)
  then show ?case
    by (auto simp: Let_def)
qed simp

text \<open>
  The result is the array written and whether the routine returned a size (\<open>False\<close>: it
  returned \<open>-1\<close>). When the run length of an \<open>0xff\<close> segment is missing, \<open>n\<close> is \<open>NaN\<close>: nothing is
  copied and the loop ends.
\<close>

function unpack_loop :: "buf \<Rightarrow> unp \<Rightarrow> buf \<times> bool" where
  "unpack_loop src u =
     (if u_srcsz u > 0 then
        let header = get_at src (u_srcIdx u);
            u1 = u\<lparr>u_srcsz := u_srcsz u - 1, u_srcIdx := u_srcIdx u + 1\<rparr>
        in if header = Some 0xff then
             (case get_at src (u_srcIdx u1) of
                None \<Rightarrow> (u_buf u1, True)
              | Some c \<Rightarrow>
                  let n = (unat c + 1) * 8 in
                  if u_srcsz u1 < int n + 1 then (u_buf u1, False)
                  else
                    let srcIdx = u_srcIdx u1 + 1;
                        b = (if u_bufsz u1 \<ge> int n
                             then put_list (u_buf u1) (u_bufIdx u1) (map (get_at src) [srcIdx..<srcIdx + n])
                             else u_buf u1)
                    in unpack_loop src
                         \<lparr>u_srcsz = u_srcsz u1 - (int n + 1), u_srcIdx = srcIdx + n,
                          u_bufsz = u_bufsz u1 - int n, u_bufIdx = u_bufIdx u1 + n, u_buf = b\<rparr>)
           else
             (case unpack_bits src (case header of None \<Rightarrow> 0 | Some h \<Rightarrow> h) 0 8 u1 of
                (u2, ok) \<Rightarrow> if ok then unpack_loop src u2 else (u_buf u2, False))
      else (u_buf u, True))"
  by pat_completeness auto
termination
proof (relation "measure (\<lambda>(src, u). nat (u_srcsz u))", goal_cases)
  case (3 src u header u1 u2 ok)
  have "u_srcsz u2 \<le> u_srcsz u1"
    using unpack_bits_srcsz [of src "case header of None \<Rightarrow> 0 | Some h \<Rightarrow> h" 0 8 u1] 3(5) by (metis fst_conv)
  with 3 show ?case by simp
next
  case (2 src u header u1 c n srcIdx b)
  moreover have "- (uint c * 8) < 10" using uint_ge_0 [of c] by linarith
  ultimately show ?case by simp
qed auto

declare unpack_loop.simps [simp del]

definition sprotoUnpack :: "buf \<Rightarrow> buf \<times> bool" where
  "sprotoUnpack srcv =
     unpack_loop srcv \<lparr>u_srcsz = int (length srcv), u_srcIdx = 0, u_bufsz = 2 ^ 30, u_bufIdx = 0, u_buf = []\<rparr>"

text \<open>The exported \<open>pack\<close> and \<open>unpack\<close>: \<open>unpack\<close> ignores the error code.\<close>

definition api_pack :: "buf \<Rightarrow> buf" where
  "api_pack inbuf = sprotoPack inbuf"

definition api_unpack :: "buf \<Rightarrow> buf" where
  "api_unpack inbuf = fst (sprotoUnpack inbuf)"

text \<open>\<open>Uint8Array.from\<close>: \<open>undefined\<close> becomes 0.\<close>

definition uint8array_from :: "buf \<Rightarrow> byte list" where
  "uint8array_from b = map (\<lambda>x. case x of None \<Rightarrow> 0 | Some v \<Rightarrow> v) b"

end
