(* ===== verification/SprotoPack_Correct.thy ===== *)
theory SprotoPack_Correct
  imports SprotoPack
begin

section \<open>sproto: the packing routine against its format\<close>

text \<open>
  The format as data: the input is cut into 8-byte chunks (the last padded with 0), the chunks
  are grouped into blocks, and a block is written either as a header byte with the non-zero
  bytes or, for a run, as \<open>0xff\<close>, the run length minus 1 and the raw bytes. The index-driven
  routine writes exactly this format, up to one trailing 0, and unpacking gives the chunks back.
\<close>

subsection \<open>The format\<close>

definition pad8 :: "byte list \<Rightarrow> byte list" where
  "pad8 ys = ys @ replicate (8 - length ys) 0"

function chunks :: "byte list \<Rightarrow> byte list list" where
  "chunks xs = (if xs = [] then [] else pad8 (take 8 xs) # chunks (drop 8 xs))"
  by pat_completeness auto
termination by (relation "measure length") auto

declare chunks.simps [simp del]

abbreviation nonzero :: "byte list \<Rightarrow> byte list" where
  "nonzero c \<equiv> filter (\<lambda>b. b \<noteq> 0) c"

definition nz :: "byte list \<Rightarrow> nat" where
  "nz c = length (nonzero c)"

definition header_of :: "byte list \<Rightarrow> byte" where
  "header_of c = fold (\<lambda>i h. if c ! i \<noteq> 0 then h OR push_bit i 1 else h) [0..<8] 0"

datatype block = Seg "byte list" | Run "byte list list"

fun block_bytes :: "block \<Rightarrow> byte list" where
  "block_bytes (Seg c) = header_of c # nonzero c"
| "block_bytes (Run cs) = 0xff # of_nat (length cs - 1) # concat cs"

fun block_chunks :: "block \<Rightarrow> byte list list" where
  "block_chunks (Seg c) = [c]"
| "block_chunks (Run cs) = cs"

fun block_ok :: "block \<Rightarrow> bool" where
  "block_ok (Seg c) \<longleftrightarrow> length c = 8 \<and> nz c < 8"
| "block_ok (Run cs) \<longleftrightarrow> cs \<noteq> [] \<and> length cs \<le> 256 \<and> (\<forall>c \<in> set cs. length c = 8)"

text \<open>Grouping: the blocks finished so far and the run still open.\<close>

definition group_step :: "block list \<times> byte list list \<Rightarrow> byte list \<Rightarrow> block list \<times> byte list list" where
  "group_step BR c = (case BR of (B, R) \<Rightarrow>
     if R = [] then (if nz c = 8 then (B, [c]) else (B @ [Seg c], []))
     else if nz c \<ge> 6 then
       (if length R + 1 = 256 then (B @ [Run (R @ [c])], []) else (B, R @ [c]))
     else (B @ [Run R, Seg c], []))"

definition open_run :: "byte list list \<Rightarrow> block list" where
  "open_run R = (if R = [] then [] else [Run R])"

definition group :: "byte list list \<Rightarrow> block list" where
  "group cs = (case foldl group_step ([], []) cs of (B, R) \<Rightarrow> B @ open_run R)"

definition wire :: "block list \<Rightarrow> byte list" where
  "wire B = concat (map block_bytes B)"

lemma wire_simps [simp]: "wire [] = []" "wire (b # B) = block_bytes b @ wire B" "wire (A @ B) = wire A @ wire B"
  by (simp_all add: wire_def)

subsection \<open>Chunks and groups\<close>

lemma length_pad8: "length ys \<le> 8 \<Longrightarrow> length (pad8 ys) = 8"
  by (simp add: pad8_def)

lemma chunks_Nil [simp]: "chunks [] = []"
  by (subst chunks.simps) simp

lemma chunks_ne: "xs \<noteq> [] \<Longrightarrow> chunks xs = pad8 (take 8 xs) # chunks (drop 8 xs)"
  by (subst chunks.simps) simp

lemma chunks_length: "c \<in> set (chunks xs) \<Longrightarrow> length c = 8"
proof (induction xs rule: chunks.induct)
  case (1 xs)
  then show ?case
    by (cases "xs = []") (auto simp: chunks_ne length_pad8)
qed

lemma concat_chunks: "\<exists>k < 8. concat (chunks xs) = xs @ replicate k 0"
proof (induction xs rule: chunks.induct)
  case (1 xs)
  show ?case
  proof (cases "xs = [] \<or> length xs \<ge> 8")
    case True
    then show ?thesis
    proof
      assume "length xs \<ge> 8"
      with 1 obtain k where "k < 8" "concat (chunks (drop 8 xs)) = drop 8 xs @ replicate k 0"
        by fastforce
      with \<open>length xs \<ge> 8\<close> show ?thesis
        by (subst chunks_ne) (auto simp: pad8_def)
    qed (auto intro: exI [of _ 0])
  next
    case False
    then have ne: "xs \<noteq> []" and "8 - length xs < 8" by auto
    then show ?thesis
      using False by (intro exI [of _ "8 - length xs"]) (simp add: chunks_ne [OF ne] pad8_def)
  qed
qed

lemma nz_le: "nz c \<le> length c"
  by (simp add: nz_def)

lemma nz_full: "nz c = length c \<Longrightarrow> nonzero c = c"
  unfolding nz_def by (metis filter_True length_filter_less less_irrefl)

lemma group_fold_ok:
  assumes "\<forall>c \<in> set cs. length c = 8"
    and "list_all block_ok B" and "length R < 256" and "\<forall>c \<in> set R. length c = 8"
    and "foldl group_step (B, R) cs = (B', R')"
  shows "list_all block_ok B' \<and> length R' < 256 \<and> (\<forall>c \<in> set R'. length c = 8) \<and>
    concat (map block_chunks (B' @ open_run R')) = concat (map block_chunks (B @ open_run R)) @ cs"
  using assms
proof (induction cs arbitrary: B R)
  case (Cons c cs)
  obtain B1 R1 where st: "group_step (B, R) c = (B1, R1)" by (cases "group_step (B, R) c")
  have c8: "length c = 8" "nz c \<le> 8"
    using Cons.prems(1) nz_le [of c] by auto
  have "list_all block_ok B1" "length R1 < 256" "\<forall>c \<in> set R1. length c = 8"
      "concat (map block_chunks (B1 @ open_run R1)) = concat (map block_chunks (B @ open_run R)) @ [c]"
    using st Cons.prems(2-4) c8 by (auto simp: group_step_def open_run_def split: if_splits)
  with Cons.IH [of B1 R1] Cons.prems(1,5) st show ?case by simp
qed auto

lemma group_ok:
  assumes "\<forall>c \<in> set cs. length c = 8"
  shows "list_all block_ok (group cs) \<and> concat (map block_chunks (group cs)) = cs"
proof -
  obtain B R where "foldl group_step ([], []) cs = (B, R)" by fastforce
  with group_fold_ok [OF assms, of "[]" "[]" B R] show ?thesis
    by (auto simp: group_def open_run_def)
qed

subsection \<open>One chunk\<close>

lemma put_list_snoc: "put_list b i (vs @ [v]) = put_opt (put_list b i vs) (i + length vs) v"
  by (induction b i vs rule: put_list.induct) auto

lemma seg_fold:
  assumes "m \<le> 8" and "length c = 8" and "\<forall>i < 8. get_at src (srcIdx + i) = Some (c ! i)" and "8 \<le> sz"
  shows "fold (seg_step src srcIdx) [0..<m]
      \<lparr>sg_header = 0, sg_notzero = 0, sg_sz = sz, sg_idx = bi, sg_buf = b\<rparr> =
    \<lparr>sg_header = fold (\<lambda>i h. if c ! i \<noteq> 0 then h OR push_bit i 1 else h) [0..<m] 0,
     sg_notzero = nz (take m c), sg_sz = sz - int (nz (take m c)), sg_idx = bi + nz (take m c),
     sg_buf = put_list b bi (map Some (nonzero (take m c)))\<rparr>"
  using assms(1)
proof (induction m)
  case 0
  then show ?case by (simp add: nz_def)
next
  case (Suc m)
  have c: "take (Suc m) c = take m c @ [c ! m]"
    using Suc.prems assms(2) by (intro take_Suc_conv_app_nth) simp
  have "nz (take m c) \<le> m" using nz_le [of "take m c"] by simp
  then have "sz - int (nz (take m c)) > 0" using Suc.prems assms(4) by simp
  with Suc assms(3) show ?case
    by (auto simp: c nz_def seg_step_def Let_def put_list_snoc)
qed

definition seg_full :: "nat \<Rightarrow> byte list \<Rightarrow> bool" where
  "seg_full n c \<longleftrightarrow> nz c = 8 \<or> (n > 0 \<and> nz c \<ge> 6)"

lemma packSeg_chunk:
  assumes "length c = 8" and "\<forall>i < 8. get_at src (srcIdx + i) = Some (c ! i)" and "9 \<le> sz"
  shows "packSeg src srcIdx b bi sz n =
    (let b1 = put_list b (bi + 1) (map Some (nonzero c)) in
     if seg_full n c then (if n > 0 then 8 else 10, b1) else (nz c + 1, put_at b1 bi (header_of c)))"
proof -
  have "nz c \<le> 8" using nz_le [of c] assms(1) by simp
  then have "nz c = 8 \<or> nz c = 7 \<or> nz c = 6 \<or> nz c < 6" by linarith
  moreover have "fold (seg_step src srcIdx) [0..<8]
      \<lparr>sg_header = 0, sg_notzero = 0, sg_sz = sz - 1, sg_idx = bi + 1, sg_buf = b\<rparr> =
    \<lparr>sg_header = header_of c, sg_notzero = nz c, sg_sz = sz - 1 - int (nz c), sg_idx = bi + 1 + nz c,
     sg_buf = put_list b (bi + 1) (map Some (nonzero c))\<rparr>"
    using seg_fold [OF order_refl assms(1,2), of "sz - 1" "bi + 1" b] assms(1,3)
    by (simp add: header_of_def del: upt_rec_numeral)
  ultimately show ?thesis
    using assms(3) by (auto simp: packSeg_def Let_def seg_full_def simp del: upt_rec_numeral)
qed

subsection \<open>One run\<close>

lemma fold_put:
  "fold (\<lambda>i d. put_opt d (k + i) (f i)) [0..<n] d = put_list d k (map f [0..<n])"
  by (induction n) (simp_all add: put_list_snoc)

lemma align8_bounds: "n \<le> align8 n" "align8 n < n + 8" "8 dvd align8 n"
  by (auto simp: align8_def)

lemma align8_eq: "n \<le> 8 * m \<Longrightarrow> 8 * m < n + 8 \<Longrightarrow> align8 n = 8 * m"
proof -
  assume "n \<le> 8 * m" "8 * m < n + 8"
  then have "(n + 7) div 8 = m" by linarith
  then show ?thesis by (simp add: align8_def)
qed

lemma writeFf_put_list:
  "writeFf src si des di n = put_list des di
     ([Some 0xff, Some (of_nat (align8 n div 8 - 1))] @ map (\<lambda>i. get_at src (si + i)) [0..<n] @
      replicate (align8 n - n) (Some 0))"
proof -
  have app: "put_list b i (xs @ ys) = put_list (put_list b i xs) (i + length xs) ys" for b i xs ys
    by (induction b i xs rule: put_list.induct) auto
  have "fold (\<lambda>i d. put_opt d (di + i + 2) (get_at src (si + i))) [0..<n] d =
      put_list d (di + 2) (map (\<lambda>i. get_at src (si + i)) [0..<n])" for d
    using fold_put [of "di + 2" "\<lambda>i. get_at src (si + i)" n d] by (simp add: algebra_simps)
  moreover have "fold (\<lambda>i d. put_at d (di + n + 2 + i) 0) [0..<m] d =
      put_list d (di + n + 2) (replicate m (Some 0))" for d m
    using fold_put [of "di + n + 2" "\<lambda>i. Some 0" m d] by (simp add: map_replicate_const)
  ultimately show ?thesis
    by (simp add: writeFf_def Let_def app algebra_simps)
qed

lemma byte_at_put_list_opt:
  "byte_at (put_list b i vs) j =
     (if i \<le> j \<and> j < i + length vs then (case vs ! (j - i) of None \<Rightarrow> 0 | Some x \<Rightarrow> x) else byte_at b j)"
  by (auto simp: byte_at_def get_at_put_list)

lemma byte_at_writeFf:
  assumes "map (byte_at src) [si..<si + 8 * length R] = concat R" and "R \<noteq> []" and "\<forall>c \<in> set R. length c = 8"
    and "n \<le> 8 * length R" "8 * length R < n + 8" and "\<forall>i \<ge> si + n. i < si + 8 * length R \<longrightarrow> byte_at src i = 0"
  shows "byte_at (writeFf src si des di n) j =
     (if di \<le> j \<and> j < di + length (block_bytes (Run R)) then block_bytes (Run R) ! (j - di) else byte_at des j)"
    and "length (writeFf src si des di n) = max (length des) (di + length (block_bytes (Run R)))"
proof -
  let ?vs = "[Some 0xff, Some (of_nat (align8 n div 8 - 1))] @ map (\<lambda>i. get_at src (si + i)) [0..<n] @
      replicate (align8 n - n) (Some 0)"
  have al: "align8 n = 8 * length R" using assms(4,5) by (rule align8_eq)
  have len: "length (concat R) = 8 * length R" using arg_cong [OF assms(1), of length] by simp
  have lv: "length ?vs = length (block_bytes (Run R))" using al len assms(4) by simp
  have nth: "(case ?vs ! k of None \<Rightarrow> 0 | Some x \<Rightarrow> x) = block_bytes (Run R) ! k" if k: "k < length ?vs" for k
  proof (cases "k < 2")
    case True
    then have "k = 0 \<or> k = 1" by linarith
    then show ?thesis using al by auto
  next
    case False
    then obtain l where l: "k = Suc (Suc l)" by (metis add_2_eq_Suc not_less le_Suc_ex)
    have l8: "l < 8 * length R" using k lv l len by simp
    then have "concat R ! l = byte_at src (si + l)" by (simp flip: assms(1))
    then show ?thesis
      using l l8 al assms(4,6) by (auto simp: nth_append byte_at_def)
  qed
  show "byte_at (writeFf src si des di n) j =
     (if di \<le> j \<and> j < di + length (block_bytes (Run R)) then block_bytes (Run R) ! (j - di) else byte_at des j)"
  proof (cases "di \<le> j \<and> j < di + length (block_bytes (Run R))")
    case True
    then have "j - di < length ?vs" using lv by linarith
    from nth [OF this] True show ?thesis
      unfolding writeFf_put_list byte_at_put_list_opt lv by (simp only: if_True)
  next
    case False
    then show ?thesis unfolding writeFf_put_list byte_at_put_list_opt lv by (simp only: if_False)
  qed
  show "length (writeFf src si des di n) = max (length des) (di + length (block_bytes (Run R)))"
    unfolding writeFf_put_list length_put_list lv by simp
qed

subsection \<open>The loop invariant\<close>

definition placed :: "byte list \<Rightarrow> nat \<Rightarrow> buf \<Rightarrow> bool" where
  "placed w n b \<longleftrightarrow> (\<forall>i < length w. byte_at b i = w ! i) \<and> length b \<le> n + 1"

definition run_open :: "byte list \<Rightarrow> nat \<Rightarrow> block list \<Rightarrow> byte list list \<Rightarrow> pack_state \<Rightarrow> bool" where
  "run_open xs j B R s \<longleftrightarrow>
     p_ffDesIdx s = length (wire B) \<and> p_ffSrc s = map Some xs \<and>
     map (byte_at (map Some xs)) [p_ffSrcIdx s..<p_ffSrcIdx s + 8 * length R] = concat R \<and>
     p_ffSrcIdx s + 8 * length R = 8 * j"

definition pack_rel :: "byte list \<Rightarrow> nat \<Rightarrow> block list \<Rightarrow> byte list list \<Rightarrow> pack_state \<Rightarrow> bool" where
  "pack_rel xs j B R s \<longleftrightarrow>
     p_size s = p_bufferIdx s \<and>
     p_bufferIdx s = length (wire B) + (if R = [] then 0 else 2 + 8 * length R) \<and>
     p_bufsz s = 2 ^ 30 - int (p_size s) \<and> p_size s \<le> 10 * j \<and>
     placed (wire B) (p_bufferIdx s) (p_buffer s) \<and>
     (R = [] \<longrightarrow> p_bufferIdx s \<le> length (p_buffer s)) \<and>
     p_ffN s = length R \<and> (R \<noteq> [] \<longrightarrow> run_open xs j B R s) \<and>
     (8 * j \<le> length xs \<longrightarrow> p_src s = map Some xs \<and> p_srcIdx s = 8 * j)"

text \<open>Where a step reads its chunk from: the input, or the padded copy of its tail.\<close>

definition chunk_src :: "nat \<Rightarrow> nat \<Rightarrow> pack_state \<Rightarrow> pack_state" where
  "chunk_src srcsz i s0 =
     (let padding = int i + 8 - int srcsz in
      if padding > 0
      then s0\<lparr>p_src := pad_tail (p_src s0) (p_srcIdx s0) (nat padding), p_srcIdx := 0\<rparr> else s0)"

lemma pad8_nth:
  assumes "8 * j < length xs" "i < 8"
  shows "byte_at (map Some xs) (8 * j + i) = pad8 (take 8 (drop (8 * j) xs)) ! i"
  using assms by (auto simp: byte_at_def get_at_def pad8_def nth_append)

lemma chunk_src_get:
  assumes "8 * j < length xs" "p_src s = map Some xs" "p_srcIdx s = 8 * j" "i < 8"
  shows "get_at (p_src (chunk_src (length xs) (8 * j) s)) (p_srcIdx (chunk_src (length xs) (8 * j) s) + i) =
    Some (pad8 (take 8 (drop (8 * j) xs)) ! i)"
proof (cases "8 * j + 8 > length xs")
  case True
  then have "nat (int (8 * j) + 8 - int (length xs)) = 8 * j + 8 - length xs" by linarith
  with True assms show ?thesis
    by (auto simp: chunk_src_def pad_tail_def get_at_def pad8_def nth_append Let_def)
next
  case False
  with assms show ?thesis
    by (auto simp: chunk_src_def get_at_def pad8_def nth_append Let_def)
qed

lemma chunk_src_simps [simp]:
  "p_bufferIdx (chunk_src n i s) = p_bufferIdx s" "p_buffer (chunk_src n i s) = p_buffer s"
  "p_bufsz (chunk_src n i s) = p_bufsz s" "p_size (chunk_src n i s) = p_size s"
  "p_ffN (chunk_src n i s) = p_ffN s" "p_ffSrc (chunk_src n i s) = p_ffSrc s"
  "p_ffSrcIdx (chunk_src n i s) = p_ffSrcIdx s" "p_ffDesIdx (chunk_src n i s) = p_ffDesIdx s"
  by (simp_all add: chunk_src_def Let_def)

lemma chunk_src_full: "i + 8 \<le> n \<Longrightarrow> chunk_src n i s = s"
  by (simp add: chunk_src_def)

text \<open>What a step does when the segment routine answers \<open>(n, b)\<close>.\<close>

definition after_seg :: "nat \<Rightarrow> buf \<Rightarrow> pack_state \<Rightarrow> pack_state" where
  "after_seg n b s =
     (let s1 = s\<lparr>p_buffer := b, p_bufsz := p_bufsz s - int n\<rparr>;
          s2 = (if n = 10 then
                  s1\<lparr>p_ffSrc := p_src s, p_ffSrcIdx := p_srcIdx s, p_ffDesIdx := p_bufferIdx s, p_ffN := 1\<rparr>
                else if n = 8 \<and> p_ffN s1 > 0 then
                  if p_ffN s1 + 1 = 256 then
                    s1\<lparr>p_buffer := (if p_bufsz s1 \<ge> 0
                          then writeFf (p_ffSrc s1) (p_ffSrcIdx s1) b (p_ffDesIdx s1) (256 * 8) else b),
                       p_ffN := 0\<rparr>
                  else s1\<lparr>p_ffN := p_ffN s1 + 1\<rparr>
                else if p_ffN s1 > 0 then
                  s1\<lparr>p_buffer := (if p_bufsz s1 \<ge> 0
                        then writeFf (p_ffSrc s1) (p_ffSrcIdx s1) b (p_ffDesIdx s1) (p_ffN s1 * 8) else b),
                     p_ffN := 0\<rparr>
                else s1)
      in s2\<lparr>p_srcIdx := p_srcIdx s2 + 8, p_bufferIdx := p_bufferIdx s2 + n, p_size := p_size s2 + n\<rparr>)"

lemma pack_step_after_seg:
  "pack_step srcsz i s0 =
     (let s = chunk_src srcsz i s0;
          (n, b) = packSeg (p_src s) (p_srcIdx s) (p_buffer s) (p_bufferIdx s) (p_bufsz s) (p_ffN s)
      in after_seg n b s)"
  unfolding pack_step_def chunk_src_def after_seg_def Let_def by simp

lemma placed_put:
  "placed w n b \<Longrightarrow> length w \<le> n \<Longrightarrow> n \<le> i \<Longrightarrow> i + length vs \<le> m + 1 \<Longrightarrow> n \<le> m \<Longrightarrow>
   placed w m (put_list b i (map Some vs))"
  by (auto simp: placed_def byte_at_put_list length_put_list)

lemma placed_put1:
  "placed w n b \<Longrightarrow> length w \<le> n \<Longrightarrow> n \<le> i \<Longrightarrow> i \<le> m \<Longrightarrow> n \<le> m \<Longrightarrow> placed w m (put_at b i v)"
  by (auto simp: placed_def byte_at_put_opt)

text \<open>A header byte and the non-zero bytes of a segment, behind what is already in place.\<close>

lemma placed_seg:
  fixes c :: "byte list"
  assumes "placed w n b" "length w \<le> n"
  defines "b' \<equiv> put_at (put_list b (n + 1) (map Some (nonzero c))) n (header_of c)"
  shows "placed w (n + nz c + 1) b'" and "\<And>i. i < nz c + 1 \<Longrightarrow> byte_at b' (n + i) = block_bytes (Seg c) ! i"
    and "n + nz c + 1 \<le> length b'"
  using assms(1,2)
  by (auto simp: b'_def placed_def byte_at_put_opt byte_at_put_list length_put_list nz_def nth_Cons')

lemma placed_append:
  assumes "placed w n b" "\<And>i. i < length v \<Longrightarrow> byte_at b (length w + i) = v ! i"
  shows "placed (w @ v) n b"
  using assms by (auto simp: placed_def nth_append) (metis add_diff_inverse_nat nat_add_left_cancel_less)


subsection \<open>One step\<close>

lemma step_seg:
  assumes "pack_rel xs j B [] s" "nz c < 8"
  defines "b \<equiv> put_at (put_list (p_buffer s) (p_bufferIdx s + 1) (map Some (nonzero c))) (p_bufferIdx s) (header_of c)"
  shows "pack_rel xs (Suc j) (B @ [Seg c]) []
      ((after_seg (nz c + 1) b s)\<lparr>p_src := map Some xs, p_srcIdx := 8 * Suc j\<rparr>)"
proof -
  have "placed (wire B) (p_bufferIdx s) (p_buffer s)" "p_bufferIdx s = length (wire B)"
    using assms(1) by (auto simp: pack_rel_def)
  from placed_seg [OF this(1), where c = c] this(2)
  have "placed (wire B @ block_bytes (Seg c)) (p_bufferIdx s + nz c + 1) b"
      "p_bufferIdx s + nz c + 1 \<le> length b"
    by (auto simp: b_def nz_def intro!: placed_append)
  with assms(1,2) show ?thesis
    by (auto simp: pack_rel_def after_seg_def Let_def nz_def)
qed

lemma step_open:
  assumes "pack_rel xs j B [] s" "length c = 8" "nz c = 8" "8 * j + 8 \<le> length xs"
    and "\<forall>i < 8. byte_at (map Some xs) (8 * j + i) = c ! i"
  defines "b \<equiv> put_list (p_buffer s) (p_bufferIdx s + 1) (map Some (nonzero c))"
  shows "pack_rel xs (Suc j) B [c] (after_seg 10 b s)"
proof -
  have "placed (wire B) (p_bufferIdx s + 10) b"
    using assms(1,3) unfolding b_def by (intro placed_put) (auto simp: pack_rel_def nz_def)
  moreover have "map (byte_at (map Some xs)) [8 * j..<8 * j + 8] = c"
    using assms(2,5) by (intro nth_equalityI) (simp_all del: upt_rec_numeral)
  ultimately show ?thesis
    using assms(1,4) by (auto simp: pack_rel_def after_seg_def Let_def run_open_def add.commute)
qed

lemma run_bytes_snoc:
  assumes "run_open xs j B R s" "length c = 8" "\<forall>i < 8. byte_at (map Some xs) (8 * j + i) = c ! i"
  shows "map (byte_at (map Some xs)) [p_ffSrcIdx s..<p_ffSrcIdx s + 8 * length (R @ [c])] = concat (R @ [c])"
proof -
  have "[p_ffSrcIdx s..<p_ffSrcIdx s + 8 * length (R @ [c])] =
      [p_ffSrcIdx s..<p_ffSrcIdx s + 8 * length R] @ [8 * j..<8 * j + 8]"
  proof -
    have e: "p_ffSrcIdx s + 8 * length (R @ [c]) = 8 * j + 8" "p_ffSrcIdx s + 8 * length R = 8 * j"
      using assms(1) by (simp_all add: run_open_def)
    then have "p_ffSrcIdx s \<le> 8 * j" by linarith
    from upt_add_eq_append [OF this, of 8] show ?thesis
      unfolding e .
  qed
  moreover have "map (byte_at (map Some xs)) [8 * j..<8 * j + 8] = c"
    using assms(2,3) by (intro nth_equalityI) (simp_all del: upt_rec_numeral)
  moreover have "map (byte_at (map Some xs)) [p_ffSrcIdx s..<p_ffSrcIdx s + 8 * length R] = concat R"
    using assms(1) unfolding run_open_def by blast
  ultimately show ?thesis
    by (simp only: map_append concat_append concat.simps append_Nil2)
qed

lemma step_extend:
  assumes "pack_rel xs j B R s" "R \<noteq> []" "length R + 1 < 256" "length c = 8"
    and "\<forall>i < 8. byte_at (map Some xs) (8 * j + i) = c ! i"
  defines "b \<equiv> put_list (p_buffer s) (p_bufferIdx s + 1) (map Some (nonzero c))"
  shows "pack_rel xs (Suc j) B (R @ [c])
      ((after_seg 8 b s)\<lparr>p_src := map Some xs, p_srcIdx := 8 * Suc j\<rparr>)"
proof -
  have run: "run_open xs j B R s" using assms(1,2) by (simp add: pack_rel_def)
  have "length (nonzero c) \<le> 8" using nz_le [of c] assms(4) by (simp add: nz_def)
  then have "placed (wire B) (p_bufferIdx s + 8) b"
    using assms(1) unfolding b_def by (intro placed_put) (auto simp: pack_rel_def)
  with run_bytes_snoc [OF run assms(4,5)] assms(1-3) run show ?thesis
    by (auto simp: pack_rel_def after_seg_def Let_def run_open_def)
qed

lemma step_full:
  assumes "pack_rel xs j B R s" "length R + 1 = 256" "length c = 8" "\<forall>r \<in> set R. length r = 8"
    and "\<forall>i < 8. byte_at (map Some xs) (8 * j + i) = c ! i" and "10 * Suc j \<le> 2 ^ 30"
  defines "b \<equiv> put_list (p_buffer s) (p_bufferIdx s + 1) (map Some (nonzero c))"
  shows "pack_rel xs (Suc j) (B @ [Run (R @ [c])]) []
      ((after_seg 8 b s)\<lparr>p_src := map Some xs, p_srcIdx := 8 * Suc j\<rparr>)"
proof -
  have ne: "R \<noteq> []" using assms(2) by auto
  then have run: "run_open xs j B R s" using assms(1) by (simp add: pack_rel_def)
  have "length (nonzero c) \<le> 8" using nz_le [of c] assms(3) by (simp add: nz_def)
  then have pl: "placed (wire B) (p_bufferIdx s + 8) b"
    using assms(1) unfolding b_def by (intro placed_put) (auto simp: pack_rel_def)
  let ?d = "writeFf (map Some xs) (p_ffSrcIdx s) b (length (wire B)) (256 * 8)"
  note w = byte_at_writeFf [OF run_bytes_snoc [OF run assms(3,5)], of "256 * 8" b "length (wire B)"]
  have len: "length (concat (R @ [c])) = 256 * 8"
    using arg_cong [OF run_bytes_snoc [OF run assms(3,5)], of length] assms(2) by simp
  have bytes: "byte_at ?d k = (if length (wire B) \<le> k \<and> k < length (wire B) + length (block_bytes (Run (R @ [c])))
      then block_bytes (Run (R @ [c])) ! (k - length (wire B)) else byte_at b k)"
      and dlen: "length ?d = max (length b) (length (wire B) + length (block_bytes (Run (R @ [c]))))" for k
    using w assms(2-4) by auto
  have idx: "p_bufferIdx s + 8 = length (wire B) + length (block_bytes (Run (R @ [c])))"
    using assms(1,2) ne len by (simp add: pack_rel_def)
  have "placed (wire B @ block_bytes (Run (R @ [c]))) (p_bufferIdx s + 8) ?d"
    using pl idx dlen bytes by (intro placed_append) (auto simp: placed_def)
  moreover have "p_bufferIdx s + 8 \<le> length ?d" using dlen idx by simp
  moreover have "p_bufsz s - 8 \<ge> 0" using assms(1,6) by (auto simp: pack_rel_def)
  ultimately show ?thesis
    using assms(1,2) run ne idx by (auto simp: pack_rel_def after_seg_def Let_def run_open_def)
qed

lemma step_close:
  assumes "pack_rel xs j B R s" "R \<noteq> []" "length c = 8" "nz c < 6" "\<forall>r \<in> set R. length r = 8"
    and "10 * Suc j \<le> 2 ^ 30"
  defines "b \<equiv> put_at (put_list (p_buffer s) (p_bufferIdx s + 1) (map Some (nonzero c))) (p_bufferIdx s) (header_of c)"
  shows "pack_rel xs (Suc j) (B @ [Run R, Seg c]) []
      ((after_seg (nz c + 1) b s)\<lparr>p_src := map Some xs, p_srcIdx := 8 * Suc j\<rparr>)"
proof -
  have run: "run_open xs j B R s" using assms(1,2) by (simp add: pack_rel_def)
  have pl: "placed (wire B) (p_bufferIdx s) (p_buffer s)" and le: "length (wire B) \<le> p_bufferIdx s"
    using assms(1) by (auto simp: pack_rel_def)
  note seg = placed_seg [OF pl le, where c = c, folded b_def]
  let ?d = "writeFf (map Some xs) (p_ffSrcIdx s) b (length (wire B)) (length R * 8)"
  have cat: "map (byte_at (map Some xs)) [p_ffSrcIdx s..<p_ffSrcIdx s + 8 * length R] = concat R"
    using run unfolding run_open_def by blast
  have len: "length (concat R) = 8 * length R"
    using arg_cong [OF cat, of length] by simp
  have bytes: "byte_at ?d k = (if length (wire B) \<le> k \<and> k < length (wire B) + length (block_bytes (Run R))
      then block_bytes (Run R) ! (k - length (wire B)) else byte_at b k)"
      and dlen: "length ?d = max (length b) (length (wire B) + length (block_bytes (Run R)))" for k
    using byte_at_writeFf [OF cat assms(2,5), of "length R * 8" b "length (wire B)"] by auto
  have idx: "p_bufferIdx s = length (wire B) + length (block_bytes (Run R))"
    using assms(1,2) len by (simp add: pack_rel_def)
  have "placed (wire B) (p_bufferIdx s + nz c + 1) ?d"
    using seg(1,3) bytes dlen idx by (auto simp: placed_def)
  then have "placed (wire B @ block_bytes (Run R)) (p_bufferIdx s + nz c + 1) ?d"
    by (rule placed_append) (simp add: bytes)
  then have "placed ((wire B @ block_bytes (Run R)) @ block_bytes (Seg c)) (p_bufferIdx s + nz c + 1) ?d"
    by (rule placed_append) (use seg(2) bytes idx in \<open>auto simp: nz_def\<close>)
  moreover have "p_bufferIdx s + nz c + 1 \<le> length ?d" using dlen seg(3) by simp
  moreover have "p_bufsz s - (int (nz c) + 1) \<ge> 0" using assms(1,4,6) by (auto simp: pack_rel_def)
  ultimately show ?thesis
    using assms(1,2,4) run idx by (auto simp: pack_rel_def after_seg_def Let_def run_open_def nz_def)
qed


text \<open>The source fields are read only while a chunk is left.\<close>

lemma pack_rel_src:
  "pack_rel xs j B R (s\<lparr>p_src := map Some xs, p_srcIdx := 8 * j\<rparr>) \<Longrightarrow>
   (8 * j \<le> length xs \<longrightarrow> p_src s = map Some xs \<and> p_srcIdx s = 8 * j) \<Longrightarrow> pack_rel xs j B R s"
  by (auto simp: pack_rel_def run_open_def)

lemma after_seg_src:
  "n \<noteq> 10 \<Longrightarrow> (after_seg n b (s\<lparr>p_src := x, p_srcIdx := y\<rparr>))\<lparr>p_src := x', p_srcIdx := y'\<rparr> =
     (after_seg n b s)\<lparr>p_src := x', p_srcIdx := y'\<rparr>"
  by (simp add: after_seg_def Let_def)

lemma after_seg_src_fields:
  "p_src (after_seg n b s) = p_src s" "p_srcIdx (after_seg n b s) = p_srcIdx s + 8"
  by (simp_all add: after_seg_def Let_def)

lemma full_chunk_unpadded:
  assumes "8 * j < length xs" "nz (pad8 (take 8 (drop (8 * j) xs))) = 8"
  shows "8 * j + 8 \<le> length xs"
proof (rule ccontr)
  let ?c = "pad8 (take 8 (drop (8 * j) xs))"
  assume "\<not> ?thesis"
  then have "0 \<in> set ?c" by (auto simp: pad8_def)
  then have "length (nonzero ?c) < length ?c"
    by (intro length_filter_less [of 0]) auto
  moreover have "length ?c = 8" by (rule length_pad8) simp
  ultimately show False using assms(2) by (simp add: nz_def)
qed

lemma pack_step_rel:
  assumes rel: "pack_rel xs j B R s" and lt: "8 * j < length xs" and R: "length R < 256" "\<forall>r \<in> set R. length r = 8"
    and bound: "10 * Suc j \<le> 2 ^ 30"
    and step: "group_step (B, R) (pad8 (take 8 (drop (8 * j) xs))) = (B', R')"
  shows "pack_rel xs (Suc j) B' R' (pack_step (length xs) (8 * j) s)"
proof -
  define c where "c = pad8 (take 8 (drop (8 * j) xs))"
  define s1 where "s1 = chunk_src (length xs) (8 * j) s"
  have src: "p_src s = map Some xs" "p_srcIdx s = 8 * j" using rel lt by (simp_all add: pack_rel_def)
  have c8: "length c = 8" "nz c \<le> 8"
    using nz_le [of c] by (simp_all add: c_def length_pad8)
  have get: "\<forall>i < 8. get_at (p_src s1) (p_srcIdx s1 + i) = Some (c ! i)"
    using chunk_src_get [OF lt src] by (simp add: s1_def c_def)
  have bytes: "\<forall>i < 8. byte_at (map Some xs) (8 * j + i) = c ! i"
    using pad8_nth [OF lt] by (simp add: c_def)
  have ffN: "p_ffN s = length R" and size: "p_size s \<le> 10 * j" "p_bufsz s = 2 ^ 30 - int (p_size s)"
    using rel by (simp_all add: pack_rel_def)
  have room: "9 \<le> p_bufsz s" using size bound by simp
  define b where "b = put_list (p_buffer s) (p_bufferIdx s + 1) (map Some (nonzero c))"
  define n where "n = (if seg_full (length R) c then if R = [] then 10 else 8 else nz c + 1)"
  define b' where "b' = (if seg_full (length R) c then b else put_at b (p_bufferIdx s) (header_of c))"
  have st: "pack_step (length xs) (8 * j) s = after_seg n b' s1"
    unfolding pack_step_after_seg s1_def [symmetric] Let_def
    using packSeg_chunk [OF c8(1) get, of "p_bufsz s1" "p_buffer s1" "p_bufferIdx s1" "length R"] room ffN
    by (auto simp: n_def b'_def b_def s1_def Let_def)
  have unpadded: "s1 = s" if "8 * Suc j \<le> length xs"
    using that by (simp add: s1_def chunk_src_full)
  have s1_upd: "s1 = s\<lparr>p_src := p_src s1, p_srcIdx := p_srcIdx s1\<rparr>"
    by (simp add: s1_def chunk_src_def Let_def)
  show ?thesis
  proof (cases "R = [] \<and> nz c = 8")
    case True
    then have full: "8 * j + 8 \<le> length xs" using full_chunk_unpadded [OF lt] by (simp add: c_def)
    then have "s1 = s" using unpadded by simp
    then show ?thesis
      using step_open [OF _ c8(1) _ full bytes, of B s] rel True step
      by (auto simp: st n_def b'_def b_def seg_full_def group_step_def c_def)
  next
    case False
    have n10: "n \<noteq> 10" using False c8 by (auto simp: n_def seg_full_def)
    have upd: "(after_seg n b' s1)\<lparr>p_src := map Some xs, p_srcIdx := 8 * Suc j\<rparr> =
        (after_seg n b' s)\<lparr>p_src := map Some xs, p_srcIdx := 8 * Suc j\<rparr>"
      by (subst s1_upd) (rule after_seg_src [OF n10])
    have "pack_rel xs (Suc j) B' R' ((after_seg n b' s)\<lparr>p_src := map Some xs, p_srcIdx := 8 * Suc j\<rparr>)"
    proof (cases "R = []")
      case True
      with False c8 have "nz c < 8" by linarith
      with True step_seg [of xs j B s c] rel step show ?thesis
        by (auto simp: n_def b'_def b_def seg_full_def group_step_def c_def)
    next
      case ne: False
      consider "nz c < 6" | "6 \<le> nz c" "length R + 1 = 256" | "6 \<le> nz c" "length R + 1 < 256"
        using R(1) by linarith
      then show ?thesis
      proof cases
        case 1
        with step_close [OF rel ne c8(1) _ R(2) bound] step ne show ?thesis
          by (auto simp: n_def b'_def b_def seg_full_def group_step_def c_def)
      next
        case 2
        with step_full [OF rel _ c8(1) R(2) bytes bound] step ne show ?thesis
          by (auto simp: n_def b'_def b_def seg_full_def group_step_def c_def)
      next
        case 3
        with step_extend [OF rel ne _ c8(1) bytes] step ne show ?thesis
          by (auto simp: n_def b'_def b_def seg_full_def group_step_def c_def)
      qed
    qed
    then show ?thesis
      unfolding st upd [symmetric]
      by (rule pack_rel_src) (use unpadded src in \<open>auto simp: after_seg_src_fields\<close>)
  qed
qed

lemma pack_loop_rel:
  assumes "pack_rel xs j B R s" "length R < 256" "\<forall>r \<in> set R. length r = 8" "list_all block_ok B"
    and "10 * (j + length (chunks (drop (8 * j) xs))) \<le> 2 ^ 30" and "8 * j < length xs + 8"
    and "foldl group_step (B, R) (chunks (drop (8 * j) xs)) = (B', R')"
  shows "\<exists>j'. pack_rel xs j' B' R' (pack_loop (length xs) (8 * j) s) \<and> length xs \<le> 8 * j' \<and>
    8 * j' < length xs + 8"
  using assms
proof (induction "length xs - 8 * j" arbitrary: j B R s rule: less_induct)
  case less
  show ?case
  proof (cases "8 * j < length xs")
    case False
    then show ?thesis using less.prems by (subst pack_loop.simps) auto
  next
    case True
    let ?c = "pad8 (take 8 (drop (8 * j) xs))" and ?s = "pack_step (length xs) (8 * j) s"
    have ch: "chunks (drop (8 * j) xs) = ?c # chunks (drop (8 * Suc j) xs)"
      using True chunks_ne [of "drop (8 * j) xs"] by (simp add: add.commute)
    obtain B1 R1 where g: "group_step (B, R) ?c = (B1, R1)" by (cases "group_step (B, R) ?c")
    have ok: "list_all block_ok B1 \<and> length R1 < 256 \<and> (\<forall>c \<in> set R1. length c = 8)"
      using group_fold_ok [of "[?c]" B R B1 R1] less.prems(2-4) g by (simp add: length_pad8)
    have bound: "10 * (Suc j + length (chunks (drop (8 * Suc j) xs))) \<le> 2 ^ 30"
      using less.prems(5) unfolding ch by simp
    have "pack_rel xs (Suc j) B1 R1 ?s"
      using bound by (intro pack_step_rel [OF less.prems(1) True less.prems(2,3) _ g]) simp
    moreover have "foldl group_step (B1, R1) (chunks (drop (8 * Suc j) xs)) = (B', R')"
      using less.prems(7) unfolding ch by (simp add: g)
    ultimately have "\<exists>j'. pack_rel xs j' B' R' (pack_loop (length xs) (8 * Suc j) ?s) \<and>
      length xs \<le> 8 * j' \<and> 8 * j' < length xs + 8"
      using ok bound True by (intro less.hyps) auto
    then show ?thesis
      using True by (subst pack_loop.simps) (simp add: add.commute)
  qed
qed

lemma uint8array_bytes: "uint8array_from b = map (byte_at b) [0..<length b]"
  by (rule nth_equalityI) (auto simp: uint8array_from_def byte_at_def get_at_def)

lemma length_chunks: "8 * length (chunks xs) < length xs + 8"
proof (induction xs rule: chunks.induct)
  case (1 xs)
  show ?case
  proof (cases "xs = []")
    case False
    then show ?thesis using 1 by (cases "length xs \<ge> 8") (auto simp: chunks_ne)
  qed simp
qed

lemma finish_bytes:
  assumes "placed w (p_size s) b" "length w = p_size s" "p_size s \<le> length b"
  shows "\<exists>t \<in> {[], [0]}. uint8array_from (take (p_size s) b @ replicate (length b - p_size s) (Some 0)) = w @ t"
proof -
  have "map (byte_at b) [0..<p_size s] = w"
    using assms by (intro nth_equalityI) (auto simp: placed_def)
  moreover have "uint8array_from (take (p_size s) b) = map (byte_at b) [0..<p_size s]"
    using assms(3) unfolding uint8array_bytes
    by (intro nth_equalityI) (auto simp: byte_at_def get_at_def)
  moreover have "uint8array_from (replicate k (Some 0)) = replicate k 0" for k
    by (simp add: uint8array_from_def)
  moreover have "length b - p_size s = 0 \<or> length b - p_size s = 1"
    using assms(1) by (auto simp: placed_def)
  ultimately show ?thesis
    by (auto simp: uint8array_from_def)
qed

lemma pack_format:
  assumes "length xs \<le> 2 ^ 29"
  shows "\<exists>t \<in> {[], [0]}. uint8array_from (api_pack (map Some xs)) = wire (group (chunks xs)) @ t"
proof -
  define s where "s = pack_loop (length xs) 0 (pack_start (map Some xs))"
  obtain B R where BR: "foldl group_step ([], []) (chunks xs) = (B, R)" by fastforce
  have start: "pack_rel xs 0 [] [] (pack_start (map Some xs))"
    by (simp add: pack_rel_def pack_start_def placed_def)
  have bound: "10 * length (chunks xs) \<le> 2 ^ 30"
    using length_chunks [of xs] assms by simp
  obtain j where j: "pack_rel xs j B R s" "length xs \<le> 8 * j" "8 * j < length xs + 8"
    using pack_loop_rel [OF start, of B R] BR bound by (auto simp: s_def)
  have R: "length R < 256" "\<forall>r \<in> set R. length r = 8"
    using group_fold_ok [OF _ _ _ _ BR] chunks_length by auto
  have "p_size s \<le> 2 ^ 30" using j assms by (auto simp: pack_rel_def)
  then have room: "0 \<le> p_bufsz s" using j(1) by (simp add: pack_rel_def)
  have rel: "placed (wire B) (p_size s) (p_buffer s)" "p_ffN s = length R"
      "p_size s = length (wire B) + (if R = [] then 0 else 2 + 8 * length R)"
    using j(1) by (auto simp: pack_rel_def)
  have out: "api_pack (map Some xs) = pack_finish (length xs) s"
    by (simp add: api_pack_def sprotoPack_def s_def)
  have grp: "group (chunks xs) = B @ open_run R"
    using BR by (simp add: group_def)
  show ?thesis
  proof (cases "R = []")
    case True
    have "p_size s \<le> length (p_buffer s)" using j(1) True by (simp add: pack_rel_def)
    moreover have "pack_finish (length xs) s =
        take (p_size s) (p_buffer s) @ replicate (length (p_buffer s) - p_size s) (Some 0)"
      using room rel(2) True by (simp add: pack_finish_def Let_def)
    ultimately show ?thesis
      using finish_bytes [OF rel(1)] rel(3) True unfolding out grp by (simp add: open_run_def)
  next
    case ne: False
    then have run: "run_open xs j B R s" using j(1) by (simp add: pack_rel_def)
    define n where "n = (if length R = 1 then 8 else length xs - p_ffSrcIdx s)"
    let ?d = "writeFf (map Some xs) (p_ffSrcIdx s) (p_buffer s) (length (wire B)) n"
    have n: "n \<le> 8 * length R" "8 * length R < n + 8"
      using run j(2,3) ne by (auto simp: n_def run_open_def)
    have beyond: "\<forall>i \<ge> p_ffSrcIdx s + n. i < p_ffSrcIdx s + 8 * length R \<longrightarrow> byte_at (map Some xs) i = 0"
      by (auto simp: n_def byte_at_def get_at_def)
    have cat: "map (byte_at (map Some xs)) [p_ffSrcIdx s..<p_ffSrcIdx s + 8 * length R] = concat R"
      using run unfolding run_open_def by blast
    have len: "length (concat R) = 8 * length R" using arg_cong [OF cat, of length] by simp
    note w = byte_at_writeFf [OF cat ne R(2) n beyond, of "p_buffer s" "length (wire B)"]
    have "placed (wire B @ block_bytes (Run R)) (p_size s) ?d"
      using rel ne len w by (intro placed_append) (auto simp: placed_def)
    moreover have "p_size s \<le> length ?d" "length (wire B @ block_bytes (Run R)) = p_size s"
      using rel ne len w(2) by auto
    ultimately obtain t where "t \<in> {[], [0]}" "uint8array_from
        (take (p_size s) ?d @ replicate (length ?d - p_size s) (Some 0)) = (wire B @ block_bytes (Run R)) @ t"
      using finish_bytes [of "wire B @ block_bytes (Run R)" s ?d] by blast
    moreover have "pack_finish (length xs) s = take (p_size s) ?d @ replicate (length ?d - p_size s) (Some 0)"
    proof -
      have "p_ffSrc s = map Some xs" "p_ffDesIdx s = length (wire B)" using run by (simp_all add: run_open_def)
      moreover have "length R = 1 \<or> length R > 1" using ne by (cases R) auto
      ultimately show ?thesis
        using room rel(2) by (auto simp: pack_finish_def n_def Let_def)
    qed
    ultimately show ?thesis
      using ne unfolding out grp by (simp add: open_run_def)
  qed
qed


subsection \<open>Unpacking\<close>

definition unp_at :: "byte list \<Rightarrow> nat \<Rightarrow> byte list \<Rightarrow> unp" where
  "unp_at w i o' = \<lparr>u_srcsz = int (length w) - int i, u_srcIdx = i, u_bufsz = 2 ^ 30 - int (length o'),
     u_bufIdx = length o', u_buf = map Some o'\<rparr>"

lemma put_opt_end: "put_opt b (length b) v = b @ [v]"
  by (simp add: put_opt_def)

lemma header_bit:
  assumes "i < 8" "m \<le> 8"
  shows "bit (fold (\<lambda>i h. if c ! i \<noteq> 0 then h OR push_bit i 1 else h) [0..<m] (0::byte)) i \<longleftrightarrow> i < m \<and> c ! i \<noteq> 0"
  using assms(2)
proof (induction m)
  case (Suc m)
  then show ?case
    using assms(1) by (auto simp: bit_simps less_Suc_eq)
qed simp

lemma header_of_bit: "i < 8 \<Longrightarrow> bit (header_of c) i \<longleftrightarrow> c ! i \<noteq> 0"
  unfolding header_of_def by (simp add: header_bit del: upt_rec_numeral)

text \<open>The bits of a header from \<open>8 - k\<close> on, reading the non-zero bytes of the rest of the chunk.\<close>

lemma unpack_bits_chunk:
  assumes "k \<le> 8" "length c = 8" "length o' + k \<le> 2 ^ 30" "w = pre @ nonzero (drop (8 - k) c) @ post"
  shows "unpack_bits (map Some w) (header_of c) (8 - k) k (unp_at w (length pre) o') =
    (unp_at w (length pre + nz (drop (8 - k) c)) (o' @ drop (8 - k) c), True)"
  using assms
proof (induction k arbitrary: pre o')
  case 0
  then show ?case by (simp add: nz_def)
next
  case (Suc k)
  define m where "m = 8 - Suc k"
  have m: "8 - Suc k = m" "8 - k = Suc m" "m < 8" using Suc.prems(1) by (simp_all add: m_def)
  have d: "drop m c = c ! m # drop (Suc m) c"
    using m(3) Suc.prems(2) by (intro Cons_nth_drop_Suc [symmetric]) simp
  have room: "int (length o') < 2 ^ 30" using Suc.prems(3) by simp
  have w: "w = pre @ nonzero (drop m c) @ post" using Suc.prems(4) unfolding m(1) .
  note IH = Suc.IH [unfolded m(2)]
  show ?case unfolding m(1)
  proof (cases "c ! m = 0")
    case True
    then have "unpack_bits (map Some w) (header_of c) m (Suc k) (unp_at w (length pre) o') =
        unpack_bits (map Some w) (header_of c) (Suc m) k (unp_at w (length pre) (o' @ [0]))"
      using room m(3) put_opt_end [of "map Some o'"]
      by (simp add: header_of_bit unp_at_def del: unpack_bits.simps(1))
    with IH [of "o' @ [0]" pre] Suc.prems(1-3) w True d
    show "unpack_bits (map Some w) (header_of c) m (Suc k) (unp_at w (length pre) o') =
        (unp_at w (length pre + nz (drop m c)) (o' @ drop m c), True)"
      by (simp add: nz_def del: unpack_bits.simps)
  next
    case False
    let ?x = "c ! m"
    have "get_at (map Some w) (length pre) = Some ?x" "length pre < length w"
      using w d False by (simp_all add: get_at_def nth_append)
    then have "unpack_bits (map Some w) (header_of c) m (Suc k) (unp_at w (length pre) o') =
        unpack_bits (map Some w) (header_of c) (Suc m) k (unp_at w (length (pre @ [?x])) (o' @ [?x]))"
      using room m(3) False put_opt_end [of "map Some o'" "Some ?x"]
      by (simp add: header_of_bit unp_at_def Let_def diff_diff_eq add.commute del: unpack_bits.simps(1))
    with IH [of "o' @ [?x]" "pre @ [?x]"] Suc.prems(1-3) w False d
    show "unpack_bits (map Some w) (header_of c) m (Suc k) (unp_at w (length pre) o') =
        (unp_at w (length pre + nz (drop m c)) (o' @ drop m c), True)"
      by (simp add: nz_def del: unpack_bits.simps)
  qed
qed

lemma header_not_ff:
  assumes "length c = 8" "nz c < 8"
  shows "header_of c \<noteq> 0xff"
proof
  assume ff: "header_of c = 0xff"
  have "bit (0xff :: byte) i" if "i < 8" for i
  proof -
    have "(0xff :: byte) = -1" by simp
    then show ?thesis using that by (simp only: bit_minus_1_iff) simp
  qed
  then have "c ! i \<noteq> 0" if "i < 8" for i
    using that header_of_bit [of i c] ff by simp
  then have "nonzero c = c" using assms(1) by (auto simp: filter_id_conv in_set_conv_nth)
  then show False using assms by (simp add: nz_def)
qed

lemma unpack_loop_run:
  assumes "get_at src (u_srcIdx u) = Some 0xff" "get_at src (u_srcIdx u + 1) = Some c"
    and n: "(unat c + 1) * 8 = n" and "int n + 2 \<le> u_srcsz u" "int n \<le> u_bufsz u"
  shows "unpack_loop src u = unpack_loop src
    \<lparr>u_srcsz = u_srcsz u - 1 - (int n + 1), u_srcIdx = u_srcIdx u + 1 + 1 + n, u_bufsz = u_bufsz u - int n,
     u_bufIdx = u_bufIdx u + n,
     u_buf = put_list (u_buf u) (u_bufIdx u) (map (get_at src) [u_srcIdx u + 1 + 1..<u_srcIdx u + 1 + 1 + n])\<rparr>"
proof -
  have "0 < u_srcsz u" "\<not> u_srcsz u - 1 < int n + 1" using assms(4) by linarith+
  moreover have "u_srcIdx (u\<lparr>u_srcsz := a, u_srcIdx := b\<rparr>) = b" "u_srcsz (u\<lparr>u_srcsz := a, u_srcIdx := b\<rparr>) = a"
    "u_buf (u\<lparr>u_srcsz := a, u_srcIdx := b\<rparr>) = u_buf u" "u_bufsz (u\<lparr>u_srcsz := a, u_srcIdx := b\<rparr>) = u_bufsz u"
    "u_bufIdx (u\<lparr>u_srcsz := a, u_srcIdx := b\<rparr>) = u_bufIdx u" for a b
    by simp_all
  ultimately show ?thesis
    by (subst unpack_loop.simps) (simp only: Let_def assms(1,2,5) n if_True if_False option.case simp_thms)
qed

lemma get_at_slice: "map (get_at (map Some (a @ b @ c))) [length a..<length a + length b] = map Some b"
  by (rule nth_equalityI) (simp_all add: get_at_def nth_append)

lemma unpack_loop_block:
  assumes "block_ok b" "w = pre @ block_bytes b @ post"
    and "length (o' @ concat (block_chunks b)) \<le> 2 ^ 30"
  shows "unpack_loop (map Some w) (unp_at w (length pre) o') =
    unpack_loop (map Some w) (unp_at w (length (pre @ block_bytes b)) (o' @ concat (block_chunks b)))"
proof (cases b)
  case (Seg c)
  have c: "length c = 8" "nz c < 8" using assms(1) Seg by simp_all
  have get: "get_at (map Some w) (length pre) = Some (header_of c)" "length pre < length w"
    using assms(2) Seg by (simp_all add: get_at_def nth_append)
  have adv: "(unp_at w (length pre) o')\<lparr>u_srcsz := int (length w) - int (length pre) - 1, u_srcIdx := length pre + 1\<rparr> =
      unp_at w (length (pre @ [header_of c])) o'"
    by (simp add: unp_at_def)
  have "unpack_bits (map Some w) (header_of c) (8 - 8) 8 (unp_at w (length (pre @ [header_of c])) o') =
      (unp_at w (length (pre @ [header_of c]) + nz (drop (8 - 8) c)) (o' @ drop (8 - 8) c), True)"
    using assms(2,3) c Seg by (intro unpack_bits_chunk [where post = post]) auto
  then have "unpack_bits (map Some w) (header_of c) 0 8 (unp_at w (length (pre @ [header_of c])) o') =
      (unp_at w (length (pre @ block_bytes b)) (o' @ c), True)"
    using Seg by (simp add: nz_def del: unpack_bits.simps)
  with get adv header_not_ff [OF c] show ?thesis
    by (subst unpack_loop.simps) (simp add: unp_at_def [of w "length pre"] Seg Let_def del: unpack_bits.simps)
next
  case (Run R)
  have R: "R \<noteq> []" "length R \<le> 256" "\<forall>c \<in> set R. length c = 8" using assms(1) Run by simp_all
  have len: "length (concat R) = 8 * length R"
    using R(3) by (induction R) auto
  have get: "get_at (map Some w) (length pre) = Some 0xff" "length pre < length w"
    "get_at (map Some w) (Suc (length pre)) = Some (of_nat (length R - 1))"
    using assms(2) Run by (simp_all add: get_at_def nth_append)
  have cnt: "unat (of_nat (length R - 1) :: byte) = length R - 1"
    using R(1,2) by (simp add: unsigned_of_nat take_bit_nat_eq_self)
  have n: "(length R - 1 + 1) * 8 = length (concat R)" using R(1) len by (cases R) auto
  have w: "int (length w) = int (length pre) + 2 + int (length (concat R)) + int (length post)"
    using assms(2) Run by simp
  have data: "map (get_at (map Some w)) [length pre + 1 + 1..<length pre + 1 + 1 + length (concat R)] = map Some (concat R)"
    using get_at_slice [of "pre @ [0xff, of_nat (length R - 1)]" "concat R" post] assms(2) Run
    by (simp del: map_append length_concat)
  have put: "put_list (map Some o') (length o') (map Some (concat R)) = map Some (o' @ concat R)"
    by (simp add: put_list_append)
  have room: "int (length (concat R)) \<le> 2 ^ 30 - int (length o')"
    using assms(3) Run by simp
  have step: "unpack_loop (map Some w) (unp_at w (length pre) o') = unpack_loop (map Some w)
     \<lparr>u_srcsz = int (length w) - int (length pre) - 1 - (int (length (concat R)) + 1),
      u_srcIdx = length pre + 1 + 1 + length (concat R),
      u_bufsz = 2 ^ 30 - int (length o') - int (length (concat R)),
      u_bufIdx = length o' + length (concat R),
      u_buf = put_list (map Some o') (length o')
        (map (get_at (map Some w)) [length pre + 1 + 1..<length pre + 1 + 1 + length (concat R)])\<rparr>"
    using unpack_loop_run [of "map Some w" "unp_at w (length pre) o'" "of_nat (length R - 1)" "length (concat R)"]
      get w room cnt n by (simp add: unp_at_def)
  show ?thesis
    unfolding step data put by (simp add: unp_at_def Run algebra_simps del: length_concat)
qed


lemma length_concat_8: "\<forall>c \<in> set cs. length c = 8 \<Longrightarrow> length (concat cs) = 8 * length cs"
  by (induction cs) auto

lemma unpack_loop_blocks:
  assumes "list_all block_ok B" "w = pre @ wire B @ post"
    and "length o' + 8 * length (concat (map block_chunks B)) \<le> 2 ^ 30"
  shows "unpack_loop (map Some w) (unp_at w (length pre) o') =
    unpack_loop (map Some w) (unp_at w (length (pre @ wire B)) (o' @ concat (concat (map block_chunks B))))"
  using assms
proof (induction B arbitrary: pre o')
  case (Cons b B)
  have "\<forall>c \<in> set (block_chunks b). length c = 8" using Cons.prems(1) by (cases b) auto
  then have len: "length (concat (block_chunks b)) = 8 * length (block_chunks b)"
    by (rule length_concat_8)
  have "unpack_loop (map Some w) (unp_at w (length pre) o') =
      unpack_loop (map Some w) (unp_at w (length (pre @ block_bytes b)) (o' @ concat (block_chunks b)))"
    using Cons.prems len by (intro unpack_loop_block [where post = "wire B @ post"]) auto
  also have "\<dots> = unpack_loop (map Some w) (unp_at w (length ((pre @ block_bytes b) @ wire B))
      ((o' @ concat (block_chunks b)) @ concat (concat (map block_chunks B))))"
    using Cons.prems len by (intro Cons.IH) auto
  finally show ?case by simp
qed simp

lemma unpack_loop_end: "unpack_loop (map Some w) (unp_at w (length w) o') = (map Some o', True)"
  by (subst unpack_loop.simps) (simp add: unp_at_def)

lemma sprotoUnpack_wire:
  assumes "list_all block_ok B" "8 * length (concat (map block_chunks B)) \<le> 2 ^ 30"
  shows "sprotoUnpack (map Some (wire B)) = (map Some (concat (concat (map block_chunks B))), True)"
proof -
  have "sprotoUnpack (map Some (wire B)) = unpack_loop (map Some (wire B)) (unp_at (wire B) 0 [])"
    by (simp add: sprotoUnpack_def unp_at_def)
  also have "\<dots> = (map Some (concat (concat (map block_chunks B))), True)"
    using unpack_loop_blocks [OF assms(1), of "wire B" "[]" "[]" "[]"] assms(2) unpack_loop_end [of "wire B"]
    by simp
  finally show ?thesis .
qed

text \<open>A single 0 is the segment of a chunk of zeros.\<close>

lemma zero_block: "block_ok (Seg (replicate 8 0))" "block_bytes (Seg (replicate 8 0)) = [0]"
proof -
  have "header_of (replicate 8 0) = 0" by code_simp
  then show "block_bytes (Seg (replicate 8 0)) = [0]" by simp
  show "block_ok (Seg (replicate 8 0))" by (simp add: nz_def)
qed

lemma unpack_pack:
  assumes "length xs \<le> 2 ^ 29"
  shows "\<exists>k < 16. sprotoUnpack (map Some (uint8array_from (api_pack (map Some xs)))) =
    (map Some (xs @ replicate k 0), True)"
proof -
  obtain t where t: "t \<in> {[], [0]}" "uint8array_from (api_pack (map Some xs)) = wire (group (chunks xs)) @ t"
    using pack_format [OF assms] by blast
  have ok: "list_all block_ok (group (chunks xs))" "concat (map block_chunks (group (chunks xs))) = chunks xs"
    using group_ok [of "chunks xs"] chunks_length by auto
  obtain k where k: "k < 8" "concat (chunks xs) = xs @ replicate k 0" using concat_chunks by blast
  define Z where "Z = (if t = [] then [] else [Seg (replicate 8 (0::byte))])"
  have Z: "wire (group (chunks xs)) @ t = wire (group (chunks xs) @ Z)" "list_all block_ok Z"
      "concat (concat (map block_chunks Z)) = replicate (8 * length Z) 0" "length Z \<le> 1"
      "length (concat (map block_chunks Z)) = length Z"
    using t(1) zero_block by (auto simp: Z_def wire_def)
  have "8 * length (chunks xs) < 2 ^ 29 + 8"
    using length_chunks [of xs] assms by linarith
  then have "8 * length (concat (map block_chunks (group (chunks xs) @ Z))) \<le> 2 ^ 30"
    using Z(4,5) ok(2) by simp
  from sprotoUnpack_wire [OF _ this] ok Z(2)
  have "sprotoUnpack (map Some (wire (group (chunks xs) @ Z))) =
      (map Some (concat (chunks xs) @ concat (concat (map block_chunks Z))), True)"
    by simp
  then have "sprotoUnpack (map Some (uint8array_from (api_pack (map Some xs)))) =
      (map Some (xs @ replicate (k + 8 * length Z) 0), True)"
    by (simp only: t(2) Z(1,3) k(2) append_assoc replicate_add)
  moreover have "k + 8 * length Z < 16" using k(1) Z(4) by simp
  ultimately show ?thesis by blast
qed

end
