(* ===== verification/Sproto_Props.thy ===== *)
theory Sproto_Props
  imports SprotoPack_Correct
begin

section \<open>Properties of the sproto codec\<close>

text \<open>
  The user-facing theorems about \<open>sproto.ts\<close>: integers on the wire, the packing format and its
  inverse, with concrete runs as witnesses.
\<close>

subsection \<open>Integers\<close>

text \<open>
  C33. A scalar integer field survives encoding and decoding for every value of 64 bits, given as
  \<open>number\<close> or as \<open>bigint\<close>, on top of any buffer. The reader gives a \<open>number\<close> when the value fits
  32 bits or is not negative and safe, otherwise a \<open>bigint\<close> of the same value.
\<close>

theorem integer_field_roundtrip:
  assumes "is_integer t" and "- (2 ^ 63) \<le> int_of t" and "int_of t < 2 ^ 63"
    and "scalar_integer t data i = Some (h, sz, data')"
  shows "decode_integer h (drop i data') =
    Some (if (- (2 ^ 31) \<le> int_of t \<and> int_of t < 2 ^ 31) \<or> (0 \<le> int_of t \<and> int_of t \<le> 9007199254740991)
          then JNum (int_of t) else JBig (int_of t))"
  by (rule scalar_integer_roundtrip) (fact assms)+

theorem integer_field_roundtrip_witness:
  "\<exists>h sz data'. scalar_integer (JNum (- 3000000000)) [] 0 = Some (h, sz, data') \<and>
     decode_integer h (drop 0 data') = Some (JBig (- 3000000000))"
proof -
  obtain h sz data' where s: "scalar_integer (JNum (- 3000000000)) [] 0 = Some (h, sz, data')"
    by (cases "encodeUint64 (JNum (- 3000000000)) [] 0")
      (simp add: scalar_integer_def encode_integer_def uint64Rshift_def)
  with integer_field_roundtrip [of "JNum (- 3000000000)" "[]" 0 h sz data'] show ?thesis by auto
qed

subsection \<open>Packing\<close>

text \<open>
  C34. The packing routine writes the packed format: the bytes of the blocks that group the
  8-byte chunks of its input, well formed (a segment has a zero byte, a run at most 256 chunks)
  and standing for exactly these chunks, followed by at most one stray 0.
\<close>

theorem pack_writes_format:
  assumes "length xs \<le> 2 ^ 29"
  shows "\<exists>t \<in> {[], [0]}. uint8array_from (api_pack (map Some xs)) = wire (group (chunks xs)) @ t \<and>
    list_all block_ok (group (chunks xs)) \<and> concat (map block_chunks (group (chunks xs))) = chunks xs"
proof -
  have "\<forall>c \<in> set (chunks xs). length c = 8" using chunks_length by blast
  from group_ok [OF this] pack_format [OF assms] show ?thesis by blast
qed

theorem pack_writes_format_witness:
  "\<exists>t \<in> {[], [0]}. uint8array_from (api_pack (map Some [8, 0, 0, 0, 3, 0, 2, 0, 0x19, 0, 0, 0, 0xaa, 1, 0, 0])) =
     [0x51, 8, 3, 2, 0x31, 0x19, 0xaa, 1] @ t"
proof -
  have "wire (group (chunks [8, 0, 0, 0, 3, 0, 2, 0, 0x19, 0, 0, 0, 0xaa, 1, 0, 0])) =
      [0x51, 8, 3, 2, 0x31, 0x19, 0xaa, 1]"
    by code_simp
  with pack_writes_format [of "[8, 0, 0, 0, 3, 0, 2, 0, 0x19, 0, 0, 0, 0xaa, 1, 0, 0]"]
  show ?thesis by auto
qed

text \<open>
  C35. Unpacking inverts packing: what comes back is the packed bytes followed by fewer than 16
  zeros (the padding of the last chunk and the stray 0), and the routine reports no error.
\<close>

theorem unpack_inverts_pack:
  assumes "length xs \<le> 2 ^ 29"
  shows "\<exists>k < 16. sprotoUnpack (map Some (uint8array_from (api_pack (map Some xs)))) =
    (map Some (xs @ replicate k 0), True)"
  by (rule unpack_pack) (rule assms)

theorem unpack_inverts_pack_witness:
  "\<exists>k < 16. sprotoUnpack (map Some (uint8array_from (api_pack (map Some [1, 2, 3])))) =
    (map Some ([1, 2, 3] @ replicate k 0), True)"
  by (rule unpack_inverts_pack) simp

text \<open>
  The stray 0: two chunks without a zero byte are written as one run of 18 bytes, and a
  19th byte follows. The segment routine writes the first byte of the second chunk one place
  beyond the run's end, and the caller clears it but does not cut it off.
\<close>

lemma pack_leaves_stray_zero:
  "api_pack (replicate 16 (Some 1)) = map Some ([0xff, 1] @ replicate 16 1 @ [0])"
  by code_simp

end
