(* ===== verification/SprotoSchema.thy ===== *)
theory SprotoSchema
  imports SprotoUtil
begin

section \<open>sproto: loading a schema\<close>

text \<open>
  \<open>countArray\<close>, \<open>structField\<close>, the \<open>import*\<close> functions and \<open>createFromBundle\<close> of
  \<open>sproto.ts\<close>. A schema bundle is itself sproto data, read here word by word. Each function
  answers \<open>Loaded\<close>, \<open>Rejected\<close> (it returns \<open>null\<close>) or \<open>Crashed\<close> (it throws). \<open>slice(k)\<close> of an
  array is \<open>drop k\<close>.
\<close>

datatype 'a import_result = Loaded 'a | Rejected | Crashed

fun bind_import :: "'a import_result \<Rightarrow> ('a \<Rightarrow> 'b import_result) \<Rightarrow> 'b import_result" where
  "bind_import (Loaded x) f = f x"
| "bind_import Rejected f = Rejected"
| "bind_import Crashed f = Crashed"

definition import_opt :: "'a option \<Rightarrow> 'a import_result" where
  "import_opt r = (case r of None \<Rightarrow> Rejected | Some x \<Rightarrow> Loaded x)"

subsection \<open>Data\<close>

definition SPROTO_TINTEGER :: int where "SPROTO_TINTEGER = 0"
definition SPROTO_TBOOLEAN :: int where "SPROTO_TBOOLEAN = 1"
definition SPROTO_TSTRING :: int where "SPROTO_TSTRING = 2"
definition SPROTO_TDOUBLE :: int where "SPROTO_TDOUBLE = 3"
definition SPROTO_TSTRUCT :: int where "SPROTO_TSTRUCT = 4"
definition SPROTO_TARRAY :: int where "SPROTO_TARRAY = 0x80"

lemmas type_codes = SPROTO_TINTEGER_def SPROTO_TBOOLEAN_def SPROTO_TSTRING_def
  SPROTO_TDOUBLE_def SPROTO_TSTRUCT_def SPROTO_TARRAY_def

text \<open>\<open>f_extra\<close> is exact up to \<open>10 ^ 22\<close>; beyond, the code's power of ten is rounded.\<close>

record sproto_field =
  f_tag :: int
  f_type :: int
  f_name :: "jsstr option"
  f_st :: "int option"
  f_key :: int
  f_extra :: int

record sproto_type =
  t_name :: "jsstr option"
  t_n :: nat
  t_base :: int
  t_maxn :: nat
  t_f :: "sproto_field list option"

record sproto_protocol =
  p_name :: "jsstr option"
  p_tag :: int
  p_request :: "sproto_type option"
  p_response :: "sproto_type option"
  p_confirm :: int

record sproto_instance =
  s_type_n :: int
  s_protocol_n :: int
  s_type :: "sproto_type list option"
  s_proto :: "sproto_protocol list option"

subsection \<open>Arrays and field headers\<close>

function count_loop :: "buf \<Rightarrow> int \<Rightarrow> int \<Rightarrow> int" where
  "count_loop currentStream remainingLength n =
     (if remainingLength > 0 then
        if remainingLength < 4 then -1
        else
          let nsz = toDword currentStream + 4 in
          if nsz > remainingLength then -1
          else count_loop (drop (nat nsz) currentStream) (remainingLength - nsz) (n + 1)
      else n)"
  by pat_completeness auto

termination
proof (relation "measure (\<lambda>(s, r, n). nat r)", goal_cases)
  case (2 currentStream remainingLength n nsz)
  moreover have "- toDword currentStream < 4" using toDword_nonneg [of currentStream] by linarith
  ultimately show ?case by simp
qed simp

declare count_loop.simps [simp del]

definition countArray :: "buf \<Rightarrow> int" where
  "countArray stream = count_loop (drop 4 stream) (toDword stream) 0"

text \<open>
  The field words are read one place too far: \<open>field\<close> already starts behind the count, and the
  loop adds \<open>SIZEOF_HEADER\<close> again.
\<close>

fun struct_loop :: "buf \<Rightarrow> buf \<Rightarrow> int \<Rightarrow> nat \<Rightarrow> nat \<Rightarrow> bool" where
  "struct_loop field currentStream remainingSz i 0 = True"
| "struct_loop field currentStream remainingSz i (Suc k) =
     (let value = toWord (drop (i * 2 + 2) field) in
      if value \<noteq> 0 then struct_loop field currentStream remainingSz (Suc i) k
      else if remainingSz < 4 then False
      else
        let dsz = toDword currentStream in
        if remainingSz < 4 + dsz then False
        else struct_loop field (drop (nat (4 + dsz)) currentStream) (remainingSz - (4 + dsz)) (Suc i) k)"

definition structField :: "buf \<Rightarrow> int \<Rightarrow> int" where
  "structField stream sz =
     (if sz < 4 then -1
      else
        let fn = toWord stream; header = 2 + 2 * fn in
        if sz < header then -1
        else if struct_loop (drop 2 stream) (drop (nat header) stream) (sz - header) 0 (nat fn)
        then fn else -1)"

definition importString :: "buf \<Rightarrow> jsstr" where
  "importString stream =
     map (\<lambda>b. case b of None \<Rightarrow> 0 | Some x \<Rightarrow> ucast x) (take (nat (toDword stream)) (drop 4 stream))"

subsection \<open>Fields\<close>

definition blank_field :: sproto_field where
  "blank_field = \<lparr>f_tag = -1, f_type = -1, f_name = None, f_st = None, f_key = -1, f_extra = 0\<rparr>"

text \<open>One field word of a field description: the field, the array flag, the next tag.\<close>

definition field_step ::
  "int \<Rightarrow> buf \<Rightarrow> int \<Rightarrow> nat \<Rightarrow> sproto_field \<times> bool \<times> int \<Rightarrow> (sproto_field \<times> bool \<times> int) option"
where
  "field_step type_n stream fn i fat =
     (case fat of (f, arr, tag0) \<Rightarrow>
        let tag = tag0 + 1; word = toWord (drop (2 * i) stream) in
        if word mod 2 \<noteq> 0 then Some (f, arr, tag + word div 2)
        else if tag = 0 then
          if word \<noteq> 0 then None
          else Some (f\<lparr>f_name := Some (importString (drop (nat (fn * 2)) stream))\<rparr>, arr, tag)
        else if word = 0 then None
        else
          let value = word div 2 - 1 in
          if tag = 1 then
            if value \<ge> SPROTO_TSTRUCT then None else Some (f\<lparr>f_type := value\<rparr>, arr, tag)
          else if tag = 2 then
            if f_type f = SPROTO_TINTEGER then Some (f\<lparr>f_extra := 10 ^ nat value\<rparr>, arr, tag)
            else if f_type f = SPROTO_TSTRING then Some (f\<lparr>f_extra := value\<rparr>, arr, tag)
            else if value \<ge> type_n \<or> f_type f \<ge> 0 then None
            else Some (f\<lparr>f_type := SPROTO_TSTRUCT, f_st := Some value\<rparr>, arr, tag)
          else if tag = 3 then Some (f\<lparr>f_tag := value\<rparr>, arr, tag)
          else if tag = 4 then Some (f, arr \<or> value \<noteq> 0, tag)
          else if tag = 5 then Some (f\<lparr>f_key := value\<rparr>, arr, tag)
          else None)"

fun field_loop ::
  "int \<Rightarrow> buf \<Rightarrow> int \<Rightarrow> nat \<Rightarrow> nat \<Rightarrow> sproto_field \<times> bool \<times> int \<Rightarrow> (sproto_field \<times> bool \<times> int) option"
where
  "field_loop type_n stream fn i 0 fat = Some fat"
| "field_loop type_n stream fn i (Suc k) fat =
     (case field_step type_n stream fn i fat of
        None \<Rightarrow> None
      | Some fat' \<Rightarrow> field_loop type_n stream fn (Suc i) k fat')"

definition importField :: "int \<Rightarrow> buf \<Rightarrow> (sproto_field \<times> buf) option" where
  "importField type_n stream0 =
     (let sz = toDword stream0;
          stream = drop 4 stream0;
          result = drop (nat sz) stream;
          fn = structField stream sz
      in if fn < 0 then None
         else
           case field_loop type_n (drop 2 stream) fn 0 (nat fn) (blank_field, False, -1) of
             None \<Rightarrow> None
           | Some (f, arr, tag) \<Rightarrow>
               if f_tag f < 0 \<or> f_type f < 0 \<or> f_name f = None then None
               else Some (f\<lparr>f_type := (if arr then f_type f OR SPROTO_TARRAY else f_type f)\<rparr>, result))"

subsection \<open>Types\<close>

text \<open>The fields of a type, with the running \<open>maxn\<close> and the tag of the field before.\<close>

fun fields_loop :: "int \<Rightarrow> nat \<Rightarrow> buf \<Rightarrow> nat \<Rightarrow> int \<Rightarrow> (sproto_field list \<times> nat) option" where
  "fields_loop type_n 0 stream maxn last' = Some ([], maxn)"
| "fields_loop type_n (Suc k) stream maxn last' =
     (case importField type_n stream of
        None \<Rightarrow> None
      | Some (f, stream') \<Rightarrow>
          if f_tag f \<le> last' then None
          else
            map_option (\<lambda>(fs, m). (f # fs, m))
              (fields_loop type_n k stream' (if f_tag f > last' + 1 then maxn + 1 else maxn) (f_tag f)))"

text \<open>A type with an empty field list makes \<open>t.f[0].tag\<close> throw.\<close>

definition importType :: "int \<Rightarrow> buf \<Rightarrow> (sproto_type \<times> buf) import_result" where
  "importType type_n stream0 =
     (let sz = toDword stream0;
          stream = drop 4 stream0;
          result = drop (nat sz) stream;
          fn = structField stream sz
      in if fn \<le> 0 \<or> fn > 2 then Rejected
         else if \<exists>i \<in> set [0..<nat fn]. toWord (drop (2 + 2 * i) stream) \<noteq> 0 then Rejected
         else
           let stream1 = drop (nat (2 + fn * 2)) stream;
               name = importString stream1
           in if fn = 1 then
                Loaded (\<lparr>t_name = Some name, t_n = 0, t_base = 0, t_maxn = 0, t_f = None\<rparr>, result)
              else
                let stream2 = drop (nat (toDword stream1 + 4)) stream1; n = countArray stream2 in
                if n < 0 then Rejected
                else
                  case fields_loop type_n (nat n) (drop 4 stream2) (nat n) (-1) of
                    None \<Rightarrow> Rejected
                  | Some (fs, maxn) \<Rightarrow>
                      if fs = [] then Crashed
                      else
                        let base = f_tag (hd fs); span = f_tag (last fs) - base + 1 in
                        Loaded (\<lparr>t_name = Some name, t_n = nat n,
                            t_base = (if span \<noteq> n then -1 else base), t_maxn = maxn, t_f = Some fs\<rparr>,
                          result))"

subsection \<open>Protocols\<close>

definition blank_protocol :: sproto_protocol where
  "blank_protocol = \<lparr>p_name = None, p_tag = -1, p_request = None, p_response = None, p_confirm = 0\<rparr>"

text \<open>\<open>s.type?.[value] || null\<close>\<close>

definition type_at :: "sproto_instance \<Rightarrow> int \<Rightarrow> sproto_type option" where
  "type_at s i =
     (case s_type s of
        None \<Rightarrow> None
      | Some ts \<Rightarrow> if 0 \<le> i \<and> nat i < length ts then Some (ts ! nat i) else None)"

definition protocol_step ::
  "sproto_instance \<Rightarrow> buf \<Rightarrow> int \<Rightarrow> nat \<Rightarrow> sproto_protocol \<Rightarrow> sproto_protocol option" where
  "protocol_step s stream fn i p =
     (let word = toWord (drop (2 * i) stream) in
      if word mod 2 \<noteq> 0 then Some p
      else
        let value = word div 2 - 1 in
        if i = 0 then
          if value \<noteq> -1 then None
          else Some (p\<lparr>p_name := Some (importString (drop (nat (2 * fn)) stream))\<rparr>)
        else if i = 1 then
          if value < 0 then None else Some (p\<lparr>p_tag := value\<rparr>)
        else if i = 2 then
          if value < 0 \<or> value \<ge> s_type_n s then None else Some (p\<lparr>p_request := type_at s value\<rparr>)
        else if i = 3 then
          if value < 0 \<or> value > s_type_n s then None else Some (p\<lparr>p_response := type_at s value\<rparr>)
        else if i = 4 then Some (p\<lparr>p_confirm := value\<rparr>)
        else None)"

fun protocol_loop ::
  "sproto_instance \<Rightarrow> buf \<Rightarrow> int \<Rightarrow> nat \<Rightarrow> nat \<Rightarrow> sproto_protocol \<Rightarrow> sproto_protocol option" where
  "protocol_loop s stream fn i 0 p = Some p"
| "protocol_loop s stream fn i (Suc k) p =
     (case protocol_step s stream fn i p of
        None \<Rightarrow> None
      | Some p' \<Rightarrow> protocol_loop s stream fn (Suc i) k p')"

definition importProtocol :: "sproto_instance \<Rightarrow> buf \<Rightarrow> (sproto_protocol \<times> buf) option" where
  "importProtocol s stream0 =
     (let sz = toDword stream0;
          stream = drop 4 stream0;
          result = drop (nat sz) stream;
          fn = structField stream sz
      in case protocol_loop s (drop 2 stream) fn 0 (nat fn) blank_protocol of
           None \<Rightarrow> None
         | Some p \<Rightarrow> if p_name p = None \<or> p_tag p < 0 then None else Some (p, result))"

subsection \<open>The bundle\<close>

fun types_loop :: "int \<Rightarrow> nat \<Rightarrow> buf \<Rightarrow> sproto_type list import_result" where
  "types_loop type_n 0 typedata = Loaded []"
| "types_loop type_n (Suc k) typedata =
     bind_import (importType type_n typedata) (\<lambda>(t, typedata').
       bind_import (types_loop type_n k typedata') (\<lambda>ts. Loaded (t # ts)))"

fun protocols_loop :: "sproto_instance \<Rightarrow> nat \<Rightarrow> buf \<Rightarrow> sproto_protocol list option" where
  "protocols_loop s 0 protocoldata = Some []"
| "protocols_loop s (Suc k) protocoldata =
     (case importProtocol s protocoldata of
        None \<Rightarrow> None
      | Some (p, protocoldata') \<Rightarrow> map_option ((#) p) (protocols_loop s k protocoldata'))"

text \<open>
  The two sections of the bundle: types and protocols, each an array; a missing section leaves
  its count 0 and its list \<open>null\<close>.
\<close>

fun sections_loop :: "buf \<Rightarrow> nat \<Rightarrow> nat \<Rightarrow> buf \<Rightarrow> (int \<times> buf) list \<Rightarrow> (int \<times> buf) list option" where
  "sections_loop stream i 0 content acc = Some acc"
| "sections_loop stream i (Suc k) content acc =
     (if toWord (drop (i * 2) stream) \<noteq> 0 then None
      else
        let n = countArray content in
        if n < 0 then None
        else sections_loop stream (Suc i) k (drop (nat (toDword content + 4)) content)
               (acc @ [(n, drop 4 content)]))"

definition load_sections :: "(int \<times> buf) list \<Rightarrow> sproto_instance import_result" where
  "load_sections secs =
     (case secs of
        [] \<Rightarrow> Loaded \<lparr>s_type_n = 0, s_protocol_n = 0, s_type = None, s_proto = None\<rparr>
      | (tn, td) # rest \<Rightarrow>
          bind_import (types_loop tn (nat tn) td) (\<lambda>ts.
            let s = \<lparr>s_type_n = tn, s_protocol_n = 0, s_type = Some ts, s_proto = None\<rparr> in
            case rest of
              [] \<Rightarrow> Loaded s
            | (pn, pd) # _ \<Rightarrow>
                bind_import (import_opt (protocols_loop s (nat pn) pd)) (\<lambda>ps.
                  Loaded (s\<lparr>s_protocol_n := pn, s_proto := Some ps\<rparr>))))"

definition createFromBundle :: "buf \<Rightarrow> int \<Rightarrow> sproto_instance import_result" where
  "createFromBundle stream0 sz =
     (let fn = structField stream0 sz in
      if fn < 0 \<or> fn > 2 then Rejected
      else
        let stream = drop 2 stream0 in
        bind_import (import_opt (sections_loop stream 0 (nat fn) (drop (nat (fn * 2)) stream) []))
          load_sections)"

definition createNew :: "buf \<Rightarrow> sproto_instance import_result" where
  "createNew binsch = createFromBundle binsch (int (length binsch))"

end
