(* ===== verification/SprotoQuery.thy ===== *)
theory SprotoQuery
  imports SprotoSchema
begin

section \<open>sproto: looking up protocols, types and fields\<close>

text \<open>
  The lookups of \<open>sproto.ts\<close> in a loaded schema: linear by name, by binary search by tag, and the
  two caches in front of them. Indices stay in range because the counts are the lengths of the
  lists (\<open>SprotoSchema_Wf\<close>).
\<close>

subsection \<open>By name and by tag\<close>

definition sprotoProtoTag :: "sproto_instance \<Rightarrow> jsstr \<Rightarrow> int" where
  "sprotoProtoTag sp name =
     (case s_proto sp of
        None \<Rightarrow> -1
      | Some ps \<Rightarrow>
          (case find (\<lambda>p. p_name p = Some name) (take (nat (s_protocol_n sp)) ps) of
             None \<Rightarrow> -1
           | Some p \<Rightarrow> p_tag p))"

text \<open>The binary search shared by \<open>queryProto\<close> and \<open>findTag\<close>: the first index hit, if any.\<close>

function bsearch :: "('a \<Rightarrow> int) \<Rightarrow> 'a list \<Rightarrow> int \<Rightarrow> nat \<Rightarrow> nat \<Rightarrow> 'a option" where
  "bsearch key xs tag begin' end' =
     (if begin' < end' then
        let mid = (begin' + end') div 2; t = key (xs ! mid) in
        if t = tag then Some (xs ! mid)
        else if tag > t then bsearch key xs tag (mid + 1) end'
        else bsearch key xs tag begin' mid
      else None)"
  by pat_completeness auto
termination by (relation "measure (\<lambda>(key, xs, tag, b, e). e - b)") auto

declare bsearch.simps [simp del]

definition queryProto :: "sproto_instance \<Rightarrow> int \<Rightarrow> sproto_protocol option" where
  "queryProto sp tag =
     (case s_proto sp of
        None \<Rightarrow> None
      | Some ps \<Rightarrow> bsearch p_tag ps tag 0 (nat (s_protocol_n sp)))"

definition sprotoProtoQuery :: "sproto_instance \<Rightarrow> int \<Rightarrow> int \<Rightarrow> sproto_type option" where
  "sprotoProtoQuery sp proto what =
     (if what < 0 \<or> what > 1 then None
      else
        case queryProto sp proto of
          None \<Rightarrow> None
        | Some p \<Rightarrow> if what = 0 then p_request p else p_response p)"

definition sprotoProtoName :: "sproto_instance \<Rightarrow> int \<Rightarrow> jsstr option" where
  "sprotoProtoName sp proto = (case queryProto sp proto of None \<Rightarrow> None | Some p \<Rightarrow> p_name p)"

definition sprotoProtoResponse :: "sproto_instance \<Rightarrow> int \<Rightarrow> bool" where
  "sprotoProtoResponse sp proto =
     (case queryProto sp proto of
        None \<Rightarrow> False
      | Some p \<Rightarrow> p_response p \<noteq> None \<or> p_confirm p \<noteq> 0)"

definition sprotoType :: "sproto_instance \<Rightarrow> jsstr \<Rightarrow> sproto_type option" where
  "sprotoType sp name =
     (case s_type sp of
        None \<Rightarrow> None
      | Some ts \<Rightarrow> find (\<lambda>t. t_name t = Some name) (take (nat (s_type_n sp)) ts))"

text \<open>
  \<open>findTag\<close> with the guard the code has: \<open>tag > st.n\<close> lets the index \<open>st.n\<close> through, and the
  read behind the array gives \<open>undefined\<close>; with no field array at all the read throws.
\<close>

datatype find_result = NoField | Field sproto_field | FieldUndefined | FieldThrows

definition findTag :: "sproto_type \<Rightarrow> int \<Rightarrow> find_result" where
  "findTag st tag =
     (if t_base st \<ge> 0 then
        let i = tag - t_base st in
        if i < 0 \<or> i > int (t_n st) then NoField
        else
          case t_f st of
            None \<Rightarrow> FieldThrows
          | Some fs \<Rightarrow> if nat i < length fs then Field (fs ! nat i) else FieldUndefined
      else
        case bsearch f_tag (case t_f st of None \<Rightarrow> [] | Some fs \<Rightarrow> fs) tag 0 (t_n st) of
          None \<Rightarrow> NoField
        | Some f \<Rightarrow> Field f)"

subsection \<open>The caches\<close>

record proto_info =
  i_tag :: int
  i_name :: jsstr
  i_request :: "sproto_type option"
  i_response :: "sproto_type option"

text \<open>A protocol is asked for by name or by number.\<close>

datatype proto_key = ByName jsstr | ByTag int

definition protocol :: "sproto_instance \<Rightarrow> proto_key \<Rightarrow> proto_info option" where
  "protocol sp key =
     (let info = (\<lambda>tag name. \<lparr>i_tag = tag, i_name = name,
            i_request = sprotoProtoQuery sp tag 0, i_response = sprotoProtoQuery sp tag 1\<rparr>) in
      case key of
        ByTag tag \<Rightarrow>
          (case sprotoProtoName sp tag of
             None \<Rightarrow> None
           | Some name \<Rightarrow> if name = [] then None else Some (info tag name))
      | ByName name \<Rightarrow>
          let tag = sprotoProtoTag sp name in
          if tag = -1 then None else Some (info tag name))"

type_synonym type_cache = "jsstr \<Rightarrow> sproto_type option"
type_synonym proto_cache = "proto_key \<Rightarrow> proto_info option"

definition queryType :: "sproto_instance \<Rightarrow> jsstr \<Rightarrow> type_cache \<Rightarrow> sproto_type option \<times> type_cache" where
  "queryType sp typename tcache =
     (case tcache typename of
        Some t \<Rightarrow> (Some t, tcache)
      | None \<Rightarrow>
          (case sprotoType sp typename of
             None \<Rightarrow> (None, tcache)
           | Some t \<Rightarrow> (Some t, tcache(typename \<mapsto> t))))"

definition queryProtoFunc ::
  "sproto_instance \<Rightarrow> proto_key \<Rightarrow> proto_cache \<Rightarrow> proto_info option \<times> proto_cache" where
  "queryProtoFunc sp key pcache =
     (case pcache key of
        Some i \<Rightarrow> (Some i, pcache)
      | None \<Rightarrow>
          (case protocol sp key of
             None \<Rightarrow> (None, pcache)
           | Some i \<Rightarrow> (Some i, pcache(ByName (i_name i) \<mapsto> i, ByTag (i_tag i) \<mapsto> i))))"

text \<open>
  The contract of a cache: where the table asked (\<open>query\<close>) is in order, storing an answer under
  the keys \<open>keys\<close> is sound. Then a cached lookup answers as the table does and keeps the cache
  sound, whatever was asked before.
\<close>

locale memo =
  fixes ok :: "'s \<Rightarrow> bool"
    and query :: "'s \<Rightarrow> 'k \<Rightarrow> 'v option"
    and lookup :: "'s \<Rightarrow> 'k \<Rightarrow> ('k \<Rightarrow> 'v option) \<Rightarrow> 'v option \<times> ('k \<Rightarrow> 'v option)"
    and keys :: "'k \<Rightarrow> 'v \<Rightarrow> 'k set"
  assumes keys_sound: "ok s \<Longrightarrow> query s k = Some v \<Longrightarrow> k' \<in> keys k v \<Longrightarrow> query s k' = Some v"
    and lookup_hit: "c k = Some v \<Longrightarrow> lookup s k c = (Some v, c)"
    and lookup_none: "c k = None \<Longrightarrow> query s k = None \<Longrightarrow> lookup s k c = (None, c)"
    and lookup_miss: "c k = None \<Longrightarrow> query s k = Some v \<Longrightarrow>
      lookup s k c = (Some v, \<lambda>k'. if k' \<in> keys k v then Some v else c k')"
begin

definition sound :: "'s \<Rightarrow> ('k \<Rightarrow> 'v option) \<Rightarrow> bool" where
  "sound s c \<longleftrightarrow> (\<forall>k v. c k = Some v \<longrightarrow> query s k = Some v)"

lemma sound_empty: "sound s (\<lambda>k. None)"
  by (simp add: sound_def)

lemma lookup_sound:
  assumes "ok s" "sound s c"
  shows "fst (lookup s k c) = query s k \<and> sound s (snd (lookup s k c))"
proof (cases "c k")
  case (Some v)
  then show ?thesis using assms lookup_hit [of c k v] by (simp add: sound_def)
next
  case None
  show ?thesis
  proof (cases "query s k")
    case qn: None
    then show ?thesis using assms None lookup_none [of c k s] by simp
  next
    case (Some v)
    then show ?thesis
      using assms None lookup_miss [of c k s v] keys_sound [OF assms(1) Some] by (auto simp: sound_def)
  qed
qed

lemma lookups_sound:
  assumes "ok s" "sound s c"
  shows "sound s (fold (\<lambda>k c. snd (lookup s k c)) ks c)"
  using assms(2) by (induction ks arbitrary: c) (simp_all add: lookup_sound [OF assms(1)])

end

end
