(* ===== verification/SprotoDouble.thy ===== *)
theory SprotoDouble
  imports SprotoUtil
begin

section \<open>sproto: doubles\<close>

text \<open>
  \<open>decToBinTail\<close>, \<open>decToBinHead\<close>, \<open>getDoubleHex\<close>, \<open>doubleToBinary\<close> and \<open>binaryToDouble\<close> of
  \<open>sproto.ts\<close>: the writer finds the bits of a double by arithmetic on its magnitude. Halving
  and doubling are exact there, so the magnitude is a rational, an infinity or NaN. The halving
  loop need not end: \<open>None\<close> stands for a call that never returns.
\<close>

datatype magnitude = Finite rat | Infinite | NotANumber

fun mag_ge2 :: "magnitude \<Rightarrow> bool" where
  "mag_ge2 (Finite q) = (q \<ge> 2)"
| "mag_ge2 Infinite = True"
| "mag_ge2 NotANumber = False"

fun mag_half :: "magnitude \<Rightarrow> magnitude" where
  "mag_half (Finite q) = Finite (q / 2)"
| "mag_half m = m"

partial_function (option) halve_loop :: "magnitude \<Rightarrow> int \<Rightarrow> (magnitude \<times> int) option" where
  "halve_loop m e = (if mag_ge2 m then halve_loop (mag_half m) (e + 1) else Some (m, e))"

text \<open>The loop for magnitudes below 1; it stops at the exponent 0 at the latest.\<close>

function double_loop :: "rat \<Rightarrow> int \<Rightarrow> rat \<times> int" where
  "double_loop q e =
     (if q < 1 \<and> 0 < e then (if e - 1 = 0 then (q * 2, e - 1) else double_loop (q * 2) (e - 1)) else (q, e))"
  by pat_completeness auto
termination by (relation "measure (\<lambda>(q, e). nat e)") auto

declare double_loop.simps [simp del]

fun decToBinTail :: "rat \<Rightarrow> nat \<Rightarrow> bool list" where
  "decToBinTail dec 0 = []"
| "decToBinTail dec (Suc k) = (if dec * 2 \<ge> 1 then True # decToBinTail (dec * 2 - 1) k else False # decToBinTail (dec * 2) k)"

definition decToBinHead :: "int \<Rightarrow> nat \<Rightarrow> bool list" where
  "decToBinHead data len = map (\<lambda>i. bit data i) (rev [0..<len])"

text \<open>The fraction: \<open>exponent !== 0 ? temp - 1 : temp / 2\<close>; NaN compares false in every loop.\<close>

fun mag_frac :: "magnitude \<Rightarrow> int \<Rightarrow> rat option" where
  "mag_frac (Finite q) e = Some (if e \<noteq> 0 then q - 1 else q / 2)"
| "mag_frac _ e = None"

definition tail_bits :: "rat option \<Rightarrow> bool list" where
  "tail_bits r = (case r of None \<Rightarrow> replicate 52 False | Some q \<Rightarrow> decToBinTail q 52)"

text \<open>The magnitude brought to the exponent that fits, starting at 1023.\<close>

definition find_exponent :: "magnitude \<Rightarrow> (magnitude \<times> int) option" where
  "find_exponent decValue =
     (case decValue of
        Finite q \<Rightarrow>
          if q \<ge> 2 then halve_loop decValue 1023
          else if q < 1 then Some (case double_loop q 1023 of (q', e) \<Rightarrow> (Finite q', e))
          else Some (decValue, 1023)
      | Infinite \<Rightarrow> halve_loop decValue 1023
      | NotANumber \<Rightarrow> Some (decValue, 1023))"

text \<open>
  The 64 bits as \<open>getDoubleHex\<close> finds them. \<open>Some None\<close> is the empty string it gives for 0.
  \<open>toString\<close> writes a minus sign for negative numbers and \<open>-Infinity\<close>, not for \<open>-0\<close> or NaN.
\<close>

definition getDoubleHex :: "bool \<Rightarrow> magnitude \<Rightarrow> bool list option option" where
  "getDoubleHex sign decValue =
     (if decValue = Finite 0 then Some None
      else
        map_option (\<lambda>(m, e). Some ([sign] @ decToBinHead e 11 @ tail_bits (mag_frac m e)))
          (find_exponent decValue))"

definition magnitude_of :: "64 word \<Rightarrow> magnitude" where
  "magnitude_of w = (if dbl_finite w then Finite (dbl_abs w) else if dbl_nan w then NotANumber else Infinite)"

definition printed_negative :: "64 word \<Rightarrow> bool" where
  "printed_negative w \<longleftrightarrow> dbl_neg w \<and> \<not> dbl_nan w \<and> magnitude_of w \<noteq> Finite 0"

fun byte_of_bits :: "bool list \<Rightarrow> byte" where
  "byte_of_bits bs = word_of_int (foldl (\<lambda>n b. 2 * n + of_bool b) 0 bs)"

declare byte_of_bits.simps [simp del]

text \<open>The eight bytes, most significant first, reversed.\<close>

definition bits_to_bytes :: "bool list \<Rightarrow> byte list" where
  "bits_to_bytes bits = rev (map (\<lambda>i. byte_of_bits (take 8 (drop (8 * i) bits))) [0..<8])"

definition double_bytes :: "64 word \<Rightarrow> byte list option" where
  "double_bytes w =
     map_option (\<lambda>r. case r of None \<Rightarrow> replicate 8 0 | Some bits \<Rightarrow> bits_to_bytes bits)
       (getDoubleHex (printed_negative w) (magnitude_of w))"

definition doubleToBinary :: "64 word \<Rightarrow> buf \<Rightarrow> nat \<Rightarrow> (int \<times> buf) option" where
  "doubleToBinary w data dataIdx =
     map_option (\<lambda>bs. fillSize (put_list data (dataIdx + 4) (map Some bs)) dataIdx 8) (double_bytes w)"

text \<open>\<open>Float64Array\<close> over the eight bytes.\<close>

definition binaryToDouble :: "buf \<Rightarrow> jsval" where
  "binaryToDouble data =
     num_of_dbl (word_of_int (\<Sum>k<8. uint (byte_at data k) * 2 ^ (8 * k)))"

subsection \<open>The loops\<close>

lemma halve_finite: "1 \<le> q \<Longrightarrow> q < 2 \<Longrightarrow> halve_loop (Finite (q * 2 ^ n)) e = Some (Finite q, e + int n)"
proof (induction n arbitrary: e)
  case (Suc n)
  have "2 \<le> q * 2 ^ Suc n"
    using Suc.prems(1) mult_mono [of 1 q 2 "2 ^ Suc n :: rat"] by simp
  then have "halve_loop (Finite (q * 2 ^ Suc n)) e = halve_loop (Finite (q * 2 ^ n)) (e + 1)"
    by (subst halve_loop.simps) simp
  with Suc show ?case by simp
qed (subst halve_loop.simps, simp)

lemma halve_infinite: "halve_loop Infinite e = None"
proof -
  have "\<And>m e r. halve_loop m e = Some r \<Longrightarrow> m \<noteq> Infinite"
    by (erule halve_loop.raw_induct [rotated]) (auto split: if_splits, blast)
  then show ?thesis by (cases "halve_loop Infinite e") blast+
qed

lemma double_normal: "1 \<le> q \<Longrightarrow> int n < e \<Longrightarrow> double_loop (q / 2 ^ n) e = (q, e - int n)"
  if "q < 2" for q :: rat
proof (induction n arbitrary: e)
  case (Suc n)
  have "q < 2 ^ Suc n" using that one_le_power [of "2 :: rat" n] unfolding power_Suc by linarith
  then have "q / 2 ^ Suc n < 1" by simp
  then have "double_loop (q / 2 ^ Suc n) e = double_loop (q / 2 ^ n) (e - 1)"
    using Suc.prems by (subst double_loop.simps) simp
  with Suc show ?case by simp
qed (subst double_loop.simps, simp)

lemma double_subnormal: "q * 2 ^ n < 1 \<Longrightarrow> 0 \<le> q \<Longrightarrow> double_loop q (int n + 1) = (q * 2 ^ Suc n, 0)"
proof (induction n arbitrary: q)
  case (Suc n)
  have "q \<le> q * 2 ^ Suc n" using Suc.prems(2) mult_left_mono [of 1 "2 ^ Suc n" q] one_le_power [of "2 :: rat" "Suc n"] by simp
  then have "q < 1" using Suc.prems(1) by simp
  then have "double_loop q (int (Suc n) + 1) = double_loop (q * 2) (int n + 1)"
    by (subst double_loop.simps) (simp add: add.commute)
  with Suc.IH [of "q * 2"] Suc.prems show ?case by (simp add: mult.assoc add.commute)
qed (subst double_loop.simps, simp)

subsection \<open>Bits\<close>

lemma take_bit_Suc_top: "take_bit (Suc n) (f :: int) = (if bit f n then 2 ^ n else 0) + take_bit n f"
  by (simp add: take_bit_Suc_from_most)

lemma tail_bits_of: "decToBinTail (of_int (take_bit n f) / 2 ^ n) n = map (bit f) (rev [0..<n])"
proof (induction n)
  case (Suc n)
  have half: "of_int (take_bit (Suc n) f) / 2 ^ Suc n * 2 = (of_int (take_bit (Suc n) f) / 2 ^ n :: rat)"
    by simp
  have "take_bit n f < 2 ^ n" by simp
  then have lt: "of_int (take_bit n f) / 2 ^ n < (1 :: rat)"
    by simp
  show ?case
  proof (cases "bit f n")
    case True
    then have "of_int (take_bit (Suc n) f) / 2 ^ n = (1 + of_int (take_bit n f) / 2 ^ n :: rat)"
      by (simp add: take_bit_Suc_top add_divide_distrib)
    with True Suc half show ?thesis by simp
  next
    case False
    then have "of_int (take_bit (Suc n) f) / 2 ^ n = (of_int (take_bit n f) / 2 ^ n :: rat)"
      by (simp add: take_bit_Suc_top)
    with False Suc half lt show ?thesis by (simp add: not_le)
  qed
qed simp

lemma byte_of_bits_fold:
  "foldl (\<lambda>n b. 2 * n + of_bool b) 0 (map (bit (v :: int)) (rev [0..<n])) = take_bit n v"
proof -
  have "foldl (\<lambda>n b. 2 * n + of_bool b) a (map (bit v) (rev [0..<n])) = a * 2 ^ n + take_bit n v" for a
  proof (induction n arbitrary: a)
    case (Suc n)
    then show ?case by (simp add: take_bit_Suc_top algebra_simps)
  qed simp
  from this [of 0] show ?thesis by simp
qed

lemma bits_to_bytes_of:
  "bits_to_bytes (map (bit (u :: int)) (rev [0..<64])) = map (\<lambda>k. low_byte (u div 2 ^ (8 * k))) [0..<8]"
proof -
  have "byte_of_bits (take 8 (drop (8 * i) (map (bit u) (rev [0..<64])))) = low_byte (u div 2 ^ (8 * (7 - i)))"
    if i: "i < 8" for i
  proof -
    have "take 8 (drop (8 * i) (rev [0..<64])) = map (\<lambda>k. 8 * (7 - i) + k) (rev [0..<8])"
      using i by (intro nth_equalityI) (auto simp: rev_nth simp del: upt_rec_numeral)
    then have "take 8 (drop (8 * i) (map (bit u) (rev [0..<64]))) = map (bit (u div 2 ^ (8 * (7 - i)))) (rev [0..<8])"
      by (simp add: take_map drop_map bit_simps comp_def flip: drop_bit_eq_div del: upt_rec_numeral)
    then show ?thesis
      by (simp add: byte_of_bits.simps byte_of_bits_fold low_byte_def del: upt_rec_numeral) (simp add: bit_eq_iff bit_simps)
  qed
  then have "map (\<lambda>i. byte_of_bits (take 8 (drop (8 * i) (map (bit u) (rev [0..<64]))))) [0..<8] =
      map (\<lambda>i. low_byte (u div 2 ^ (8 * (7 - i)))) [0..<8]"
    by (intro map_cong) auto
  moreover have "rev (map (\<lambda>i. low_byte (u div 2 ^ (8 * (7 - i)))) [0..<8]) = map (\<lambda>k. low_byte (u div 2 ^ (8 * k))) [0..<8]"
    by (intro nth_equalityI) (auto simp: rev_nth simp del: upt_rec_numeral)
  ultimately show ?thesis unfolding bits_to_bytes_def by (simp only:)
qed


subsection \<open>The bits found are the bits of the double\<close>

lemma dbl_exp_bits: "dbl_exp w = take_bit 11 (drop_bit 52 (uint w))"
  by (simp only: dbl_exp_def drop_bit_eq_div take_bit_eq_mod)

lemma dbl_frac_bits: "dbl_frac w = take_bit 52 (uint w)"
  by (simp only: dbl_frac_def take_bit_eq_mod)

lemma word_bits:
  fixes w :: "64 word"
  shows "map (bit (uint w)) (rev [0..<64]) =
    [dbl_neg w] @ decToBinHead (dbl_exp w) 11 @ map (bit (dbl_frac w)) (rev [0..<52])"
proof -
  have "rev [0..<64] = [63] @ map (\<lambda>i. 52 + i) (rev [0..<11]) @ rev [0..<52]"
    by (intro nth_equalityI) (auto simp: rev_nth nth_append nth_Cons' simp del: upt_rec_numeral)
  moreover have "bit (uint w) 63 = dbl_neg w"
    by (simp add: dbl_neg_def bit_simps)
  moreover have "map (bit (uint w)) (map (\<lambda>i. 52 + i) (rev [0..<11])) = decToBinHead (dbl_exp w) 11"
    by (auto simp: decToBinHead_def dbl_exp_bits bit_simps simp del: upt_rec_numeral)
  moreover have "map (bit (uint w)) (rev [0..<52]) = map (bit (dbl_frac w)) (rev [0..<52])"
    by (auto simp: dbl_frac_bits bit_simps simp del: upt_rec_numeral)
  ultimately show ?thesis by (simp del: upt_rec_numeral)
qed

lemma frac_bounds: "0 \<le> dbl_frac w" "dbl_frac w < 2 ^ 52" "take_bit 52 (dbl_frac w) = dbl_frac w"
  by (simp_all add: dbl_frac_def take_bit_eq_mod)

lemma exp_bounds: "0 \<le> dbl_exp w" "dbl_exp w \<le> 2047"
proof -
  show "0 \<le> dbl_exp w" by (simp add: dbl_exp_def)
  have "dbl_exp w < 2 ^ 11" unfolding dbl_exp_def by (rule pos_mod_bound) simp
  then show "dbl_exp w \<le> 2047" by simp
qed

text \<open>The loops bring a normal magnitude to \<open>1 + f / 2 ^ 52\<close> and a subnormal one to \<open>f / 2 ^ 51\<close>.\<close>

lemma loops_finite:
  assumes "dbl_finite w" "dbl_abs w \<noteq> 0"
  shows "\<exists>q. find_exponent (magnitude_of w) = Some (Finite q, dbl_exp w) \<and>
      (if dbl_exp w \<noteq> 0 then q - 1 else q / 2) = of_int (dbl_frac w) / 2 ^ 52"
proof (cases "dbl_exp w = 0")
  case True
  define f where "f = (of_int (dbl_frac w) :: rat)"
  have q: "dbl_abs w = f / 2 ^ 1074" using True by (simp add: dbl_abs_def pow2_def f_def)
  have f: "0 \<le> f" "f < 2 ^ 52" using frac_bounds [of w] by (simp_all add: f_def)
  have "f / 2 ^ 1074 * 2 ^ 1022 = f / 2 ^ 52" by simp
  with f have "dbl_abs w * 2 ^ 1022 < 1" unfolding q by simp
  from double_subnormal [OF this] f
  have d: "double_loop (dbl_abs w) (int 1022 + 1) = (dbl_abs w * 2 ^ Suc 1022, 0)" unfolding q by simp
  have "dbl_abs w * 2 ^ Suc 1022 / 2 = f / 2 ^ 52" unfolding q by simp
  moreover have "int 1022 + 1 = (1023 :: int)" by simp
  ultimately obtain r where r: "double_loop (dbl_abs w) 1023 = (r, 0)" "r / 2 = f / 2 ^ 52"
    using d by metis
  have "dbl_abs w < 1"
  proof -
    have "(2 :: rat) ^ 52 \<le> 2 ^ 1074" by (rule power_increasing) simp_all
    with f show ?thesis unfolding q by simp
  qed
  with r assms True show ?thesis
    by (intro exI [of _ r]) (simp add: magnitude_of_def find_exponent_def f_def)
next
  case False
  define E where "E = dbl_exp w"
  define a where "a = (1 + of_int (dbl_frac w) / 2 ^ 52 :: rat)"
  have E: "1 \<le> E" "E \<le> 2046" using False exp_bounds [of w] assms(1) by (auto simp: E_def dbl_finite_def)
  have a: "1 \<le> a" "a < 2" using frac_bounds [of w] by (simp_all add: a_def)
  have m: "magnitude_of w = Finite (dbl_abs w)" using assms(1) by (simp add: magnitude_of_def)
  have q: "dbl_abs w = a * 2 ^ 52 * pow2 (E - 1075)"
    using False by (simp add: dbl_abs_def a_def E_def)
  show ?thesis
  proof (cases "1023 \<le> E")
    case True
    define n where "n = nat (E - 1023)"
    have qn: "dbl_abs w = a * 2 ^ n"
    proof (cases "1075 \<le> E")
      case True
      then have "n = 52 + nat (E - 1075)" by (simp add: n_def)
      with True show ?thesis by (simp add: q pow2_def power_add)
    next
      case False
      then have "52 = n + nat (1075 - E)" using \<open>1023 \<le> E\<close> by (simp add: n_def)
      then have "(2 :: rat) ^ 52 = 2 ^ n * 2 ^ nat (1075 - E)" by (metis power_add)
      then have "a * 2 ^ 52 * (1 / 2 ^ nat (1075 - E)) = a * 2 ^ n" by (simp only: field_simps) simp
      with False show ?thesis unfolding q pow2_def by simp
    qed
    show ?thesis
    proof (cases "n = 0")
      case n0: True
      then have "E = 1023" using True by (simp add: n_def)
      then show ?thesis using m qn n0 a False
        by (intro exI [of _ a]) (simp add: find_exponent_def E_def [symmetric] a_def)
    next
      case False
      then obtain k where "n = Suc k" by (cases n) auto
      then have "2 \<le> a * 2 ^ n" using a mult_mono [of 1 a 2 "2 ^ n"] one_le_power [of "2 :: rat" k] by simp
      moreover have "halve_loop (Finite (a * 2 ^ n)) 1023 = Some (Finite a, E)"
        using halve_finite [OF a, of n 1023] True by (simp add: n_def)
      ultimately show ?thesis
        using m qn \<open>dbl_exp w \<noteq> 0\<close> by (intro exI [of _ a]) (simp add: find_exponent_def E_def [symmetric] a_def)
    qed
  next
    case lt: False
    define n where "n = nat (1023 - E)"
    have "nat (1075 - E) = 52 + n" using lt by (simp add: n_def)
    then have qn: "dbl_abs w = a / 2 ^ n" using lt by (simp add: q pow2_def power_add)
    have "0 < n" using lt by (simp add: n_def)
    then have lt1: "a / 2 ^ n < 1"
      using a power_increasing [of 1 n "2 :: rat"] by (simp add: le_less_trans)
    have "double_loop (a / 2 ^ n) 1023 = (a, E)"
      using double_normal [OF a(2,1), of n 1023] lt E by (simp add: n_def)
    moreover have "\<not> 2 \<le> a / 2 ^ n" using lt1 by linarith
    ultimately have "find_exponent (Finite (a / 2 ^ n)) = Some (Finite a, E)"
      using lt1 unfolding find_exponent_def by (simp only: magnitude.case if_True if_False prod.case)
    then show ?thesis
      using m qn False by (intro exI [of _ a]) (simp add: E_def [symmetric] a_def)
  qed
qed

lemma double_bytes_finite:
  assumes "dbl_finite w" "w \<noteq> 0x8000000000000000"
  shows "double_bytes w = Some (map (\<lambda>k. low_byte (uint w div 2 ^ (8 * k))) [0..<8])"
proof (cases "dbl_abs w = 0")
  case True
  have "uint w = (if dbl_neg w then 2 ^ 63 else 0)"
  proof -
    have "dbl_exp w = 0 \<and> dbl_frac w = 0"
      using True frac_bounds(1) [of w] by (auto simp: dbl_abs_def pow2_def split: if_splits)
    then show ?thesis using dbl_fields [of w] by simp
  qed
  moreover have "uint w \<noteq> 2 ^ 63" using assms(2) by (simp add: word_uint_eq_iff)
  ultimately have "w = 0" by (auto simp: uint_0_iff split: if_splits)
  moreover have "map (\<lambda>k. low_byte (0 div 2 ^ (8 * k))) [0..<8] = replicate 8 0"
    by (simp add: low_byte_def map_replicate_const del: upt_rec_numeral)
  ultimately show ?thesis
    using True assms(1) by (simp add: double_bytes_def getDoubleHex_def magnitude_of_def)
next
  case False
  have m: "magnitude_of w = Finite (dbl_abs w)" using assms(1) by (simp add: magnitude_of_def)
  obtain q where "find_exponent (magnitude_of w) = Some (Finite q, dbl_exp w)"
      "mag_frac (Finite q) (dbl_exp w) = Some (of_int (dbl_frac w) / 2 ^ 52)"
    using loops_finite [OF assms(1) False] by (auto simp del: upt_rec_numeral)
  then have q: "getDoubleHex s (magnitude_of w) =
      Some (Some ([s] @ decToBinHead (dbl_exp w) 11 @ decToBinTail (of_int (dbl_frac w) / 2 ^ 52) 52))" for s
    using False m unfolding getDoubleHex_def tail_bits_def by (simp only: option.map option.case prod.case magnitude.inject) simp
  have "printed_negative w = dbl_neg w"
    using assms(1) False m by (simp add: printed_negative_def dbl_nan_def dbl_finite_def)
  then have "getDoubleHex (printed_negative w) (magnitude_of w) = Some (Some (map (bit (uint w)) (rev [0..<64])))"
    using q tail_bits_of [of 52 "dbl_frac w"] frac_bounds(3) [of w] word_bits [of w] by (simp del: upt_rec_numeral)
  then show ?thesis
    by (simp add: double_bytes_def bits_to_bytes_of del: upt_rec_numeral)
qed

subsection \<open>Reading back, and what is not finite\<close>

lemma bytes_sum: "(\<Sum>k<n. uint (low_byte (u div 2 ^ (8 * k))) * 2 ^ (8 * k)) = take_bit (8 * n) u"
proof (induction n)
  case (Suc n)
  have "uint (low_byte (u div 2 ^ (8 * n))) = take_bit 8 (drop_bit (8 * n) u)"
    by (simp add: low_byte_def unsigned_of_int drop_bit_eq_div)
  then have "uint (low_byte (u div 2 ^ (8 * n))) * 2 ^ (8 * n) = push_bit (8 * n) (take_bit 8 (drop_bit (8 * n) u))"
    by (simp add: push_bit_eq_mult)
  moreover have "take_bit (8 * Suc n) u = take_bit (8 * n) u + push_bit (8 * n) (take_bit 8 (drop_bit (8 * n) u))"
    by (subst disjunctive_add) (auto simp: bit_simps intro!: bit_eqI)
  ultimately show ?case using Suc by simp
qed simp

lemma binaryToDouble_bytes:
  assumes "\<And>k. k < 8 \<Longrightarrow> byte_at b k = low_byte (uint (w :: 64 word) div 2 ^ (8 * k))"
  shows "binaryToDouble b = num_of_dbl w"
proof -
  have "(\<Sum>k<8. uint (byte_at b k) * 2 ^ (8 * k)) = (\<Sum>k<8. uint (low_byte (uint w div 2 ^ (8 * k))) * 2 ^ (8 * k))"
    by (rule sum.cong) (simp_all add: assms)
  also have "\<dots> = take_bit (8 * 8) (uint w)" by (rule bytes_sum)
  also have "\<dots> = uint w" by (rule bit_eqI) (auto simp: bit_simps dest: bit_imp_le_length)
  finally show ?thesis by (simp add: binaryToDouble_def)
qed

lemma double_roundtrip:
  assumes "dbl_finite w" "w \<noteq> 0x8000000000000000"
  shows "\<exists>d. doubleToBinary w data i = Some (12, d) \<and> toDword (drop i d) = 8 \<and>
    binaryToDouble (take 8 (drop (i + 4) d)) = num_of_dbl w"
proof -
  let ?bs = "map (\<lambda>k. low_byte (uint w div 2 ^ (8 * k))) [0..<8]"
  let ?d = "snd (fillSize (put_list data (i + 4) (map Some ?bs)) i 8)"
  have "doubleToBinary w data i = Some (12, ?d)"
    using double_bytes_finite [OF assms] by (simp add: doubleToBinary_def fillSize_def del: upt_rec_numeral map_map)
  moreover have "toDword (drop i ?d) = 8"
    by (simp add: toDword_fillSize del: upt_rec_numeral map_map)
  moreover have "byte_at (take 8 (drop (i + 4) ?d)) k = low_byte (uint w div 2 ^ (8 * k))" if "k < 8" for k
  proof -
    have "byte_at (take 8 (drop (i + 4) ?d)) k = byte_at (drop (i + 4) ?d) k"
      using that by (auto simp: byte_at_def get_at_def)
    also have "\<dots> = byte_at ?d (i + 4 + k)" by (rule byte_at_drop)
    also have "\<dots> = low_byte (uint w div 2 ^ (8 * k))"
      using that by (simp add: byte_at_fillSize byte_at_put_list del: upt_rec_numeral map_map)
    finally show ?thesis .
  qed
  ultimately show ?thesis using binaryToDouble_bytes by blast
qed

lemma double_infinite:
  assumes "\<not> dbl_finite w" "\<not> dbl_nan w"
  shows "doubleToBinary w data i = None"
  using assms halve_infinite
  by (simp add: doubleToBinary_def double_bytes_def getDoubleHex_def magnitude_of_def find_exponent_def)

lemma double_nan:
  assumes "dbl_nan w"
  shows "double_bytes w = Some [0, 0, 0, 0, 0, 0, 0xF0, 0x3F]"
proof -
  have "magnitude_of w = NotANumber" using assms by (simp add: magnitude_of_def dbl_nan_def dbl_finite_def)
  moreover have "bits_to_bytes ([False] @ decToBinHead 1023 11 @ replicate 52 False) = [0, 0, 0, 0, 0, 0, 0xF0, 0x3F]"
    by code_simp
  ultimately show ?thesis
    using assms
    by (simp add: double_bytes_def getDoubleHex_def find_exponent_def tail_bits_def printed_negative_def)
qed

end
