(* ===== verification/SprotoEncode.thy ===== *)
theory SprotoEncode
  imports SprotoQuery SprotoDouble
begin

section \<open>sproto: encoding\<close>

text \<open>
  \<open>encodeObject\<close>, \<open>encodeIntegerArray\<close>, \<open>encodeArray\<close>, \<open>sprotoEncode\<close> and the callback \<open>encode\<close> of
  \<open>sproto.ts\<close>. Everything is written in place into one growing array: a struct leaves room for
  the largest header its type can need, writes its data behind it, and moves the data down when
  the header was smaller.

  The code calls the callback for index 1, 2, \<dots> until it answers \<open>SPROTO_CB_NIL\<close>; the elements
  it will see are \<open>elements\<close>. \<open>array_tag\<close> only saves the check of the value's kind after the
  first element. \<open>alert\<close> is taken as an effect that returns.
\<close>

text \<open>
  How a call fails: it returns a negative number, it throws, it never returns, or the value is
  of a kind that JavaScript would convert (a string in a number field), where the model stops.
\<close>

datatype failure = Failed | Threw | Hangs | Coerced

datatype cb_result = CbSize int jsval buf | CbNil | CbFail failure

subsection \<open>The values of a field\<close>

fun digits :: "nat \<Rightarrow> string" where
  "digits n = (if n < 10 then [char_of (48 + n)] else digits (n div 10) @ [char_of (48 + n mod 10)])"

declare digits.simps [simp del]

text \<open>\<open>v[i]\<close> of an object, and the elements before the first one that is null or missing.\<close>

fun element :: "jsval \<Rightarrow> nat \<Rightarrow> jsval" where
  "element (JArr vs) i = (if i < length vs then vs ! i else JUndef)"
| "element (JU8 bs) i = (if i < length bs then JNum (uint (bs ! i)) else JUndef)"
| "element (JObj kvs) i = prop_of (JObj kvs) (js (digits i))"
| "element _ i = JUndef"

fun elements :: "jsval \<Rightarrow> jsval list" where
  "elements (JArr vs) = takeWhile (\<lambda>v. \<not> nullish v) vs"
| "elements (JU8 bs) = map (\<lambda>b. JNum (uint b)) bs"
| "elements (JObj kvs) = takeWhile (\<lambda>v. \<not> nullish v) (map (element (JObj kvs)) [0..<length kvs])"
| "elements _ = []"

text \<open>\<open>self.indata[args.tagname]\<close>, \<open>undefined\<close> for a falsy \<open>indata\<close>.\<close>

definition tagname :: "sproto_field \<Rightarrow> jsstr" where
  "tagname f = (case f_name f of None \<Rightarrow> js ''undefined'' | Some n \<Rightarrow> if n = [] then js ''undefined'' else n)"

definition field_value :: "jsval \<Rightarrow> sproto_field \<Rightarrow> jsval" where
  "field_value indata f = (if truthy indata then prop_of indata (tagname f) else JUndef)"

subsection \<open>The callback on one value\<close>

text \<open>\<open>Math.floor(vn * extra + 0.5)\<close>\<close>

definition fixed_scale :: "jsval \<Rightarrow> int \<Rightarrow> jsval" where
  "fixed_scale v extra =
     (let w = dbl_arith (+) (dbl_arith (*) (dbl_of_num v) (dbl_of (of_int extra))) (dbl_of (1 / 2)) in
      if dbl_finite w then num_of_dbl (dbl_of (of_int \<lfloor>dbl_val w\<rfloor>)) else JDbl w)"

definition encode_number :: "int \<Rightarrow> jsval \<Rightarrow> failure + (jsval \<times> int)" where
  "encode_number extra target =
     (let v = (case target of JBool b \<Rightarrow> JNum (of_bool b) | _ \<Rightarrow> target) in
      if extra > 0 then
        (case v of
           JBig n \<Rightarrow> Inl Threw
         | _ \<Rightarrow>
             (case encode_integer (case v of JNum n \<Rightarrow> fixed_scale v extra | JDbl w \<Rightarrow> fixed_scale v extra | _ \<Rightarrow> v) of
                None \<Rightarrow> Inl Coerced
              | Some r \<Rightarrow> Inr r))
      else (case encode_integer v of None \<Rightarrow> Inl Coerced | Some r \<Rightarrow> Inr r))"

text \<open>An element of a binary field: a byte; \<open>null\<close> and \<open>undefined\<close> end up as 0 on the wire.\<close>

definition byte_elem :: "jsval \<Rightarrow> byte option option" where
  "byte_elem v =
     (case v of
        JNum n \<Rightarrow> if 0 \<le> n \<and> n < 256 then Some (Some (word_of_int n)) else None
      | JUndef \<Rightarrow> Some None
      | JNull \<Rightarrow> Some None
      | _ \<Rightarrow> None)"

definition binary_bytes :: "jsval \<Rightarrow> failure + buf" where
  "binary_bytes target =
     (case target of
        JU8 bs \<Rightarrow> Inr (map Some bs)
      | JArr vs \<Rightarrow>
          if list_all (\<lambda>v. byte_elem v \<noteq> None) vs then Inr (map (\<lambda>v. the (byte_elem v)) vs) else Inl Coerced
      | _ \<Rightarrow> Inl Coerced)"

definition string2bytes :: "jsval \<Rightarrow> failure + buf" where
  "string2bytes v = (case v of JStr s \<Rightarrow> Inr (map (\<lambda>c. Some (ucast c)) s) | _ \<Rightarrow> Inl Threw)"

type_synonym struct_encoder = "sproto_type \<Rightarrow> jsval \<Rightarrow> buf \<Rightarrow> nat \<Rightarrow> failure + (int \<times> buf)"

definition encode_value ::
  "struct_encoder \<Rightarrow> int \<Rightarrow> int \<Rightarrow> sproto_type option \<Rightarrow> jsval \<Rightarrow> buf \<Rightarrow> nat \<Rightarrow> cb_result" where
  "encode_value sub type extra subtype target buffer bufferIdx =
     (if type = SPROTO_TINTEGER then
        (case encode_number extra target of Inl e \<Rightarrow> CbFail e | Inr (v, sz) \<Rightarrow> CbSize sz v buffer)
      else if type = SPROTO_TDOUBLE then CbSize 8 target buffer
      else if type = SPROTO_TBOOLEAN then CbSize 4 (JNum (of_bool (target = JBool True))) buffer
      else if type = SPROTO_TSTRING then
        (case if extra \<noteq> 0 then binary_bytes target else string2bytes target of
           Inl e \<Rightarrow> CbFail e
         | Inr bs \<Rightarrow> CbSize (int (length bs)) JUndef (put_list buffer bufferIdx bs))
      else if type = SPROTO_TSTRUCT then
        (case subtype of
           None \<Rightarrow> CbFail Threw
         | Some st \<Rightarrow>
             (case sub st target buffer bufferIdx of
                Inl e \<Rightarrow> CbFail e
              | Inr (r, b) \<Rightarrow> CbSize r JUndef b))
      else CbFail Failed)"

text \<open>The callback for a field that is no array: \<open>SPROTO_CB_NIL\<close> when the value is missing.\<close>

definition encode_scalar ::
  "nat \<Rightarrow> struct_encoder \<Rightarrow> int \<Rightarrow> int \<Rightarrow> sproto_type option \<Rightarrow> jsval \<Rightarrow> buf \<Rightarrow> nat \<Rightarrow> cb_result" where
  "encode_scalar left sub type extra subtype target buffer bufferIdx =
     (if left = 0 then CbFail Failed
      else if nullish target then CbNil
      else encode_value sub type extra subtype target buffer bufferIdx)"

definition encodeObject ::
  "nat \<Rightarrow> struct_encoder \<Rightarrow> int \<Rightarrow> int \<Rightarrow> sproto_type option \<Rightarrow> jsval \<Rightarrow> buf \<Rightarrow> nat \<Rightarrow> failure + (int \<times> buf)"
where
  "encodeObject left sub type extra subtype target data dataIdx =
     (case encode_scalar left sub type extra subtype target data (dataIdx + 4) of
        CbNil \<Rightarrow> Inr (0, data)
      | CbFail e \<Rightarrow> Inl e
      | CbSize sz v b \<Rightarrow> Inr (fillSize b dataIdx sz))"

subsection \<open>Arrays\<close>

definition uint32ToUint64 :: "bool \<Rightarrow> buf \<Rightarrow> nat \<Rightarrow> buf" where
  "uint32ToUint64 negative buffer bufferIdx =
     put_list buffer (bufferIdx + 4) (replicate 4 (Some (if negative then 0xff else 0)))"

text \<open>
  The elements written so far at 4 bytes, from the last to the first, are spread to 8 bytes: the
  inner loop copies the four bytes of element \<open>i\<close> to their new place.
\<close>

definition move4 :: "nat \<Rightarrow> nat \<Rightarrow> buf \<Rightarrow> buf" where
  "move4 headerIdx i buffer =
     fold (\<lambda>j b. put_opt b (headerIdx + j) (get_at b (headerIdx + j - i * 4))) [1 + i * 8..<1 + i * 8 + 4] buffer"

fun widen :: "nat \<Rightarrow> nat \<Rightarrow> buf \<Rightarrow> buf" where
  "widen headerIdx 0 buffer = buffer"
| "widen headerIdx (Suc i) buffer =
     (let b = move4 headerIdx i buffer;
          negative = bit (byte_at b (headerIdx + 1 + i * 8 + 3)) 7
      in widen headerIdx i (uint32ToUint64 negative b (headerIdx + 1 + i * 8)))"

record int_array =
  ia_buffer :: buf
  ia_bufferIdx :: nat
  ia_intlen :: nat
  ia_index :: nat

definition int_array_step :: "nat \<Rightarrow> int \<Rightarrow> jsval \<Rightarrow> int_array \<Rightarrow> failure + int_array" where
  "int_array_step headerIdx extra target s =
     (case encode_number extra target of
        Inl e \<Rightarrow> Inl e
      | Inr (v, sz) \<Rightarrow>
          let s1 =
            (if sz = 4 then
               let n = int_of v;
                   b = put_list (ia_buffer s) (ia_bufferIdx s) (map (\<lambda>k. Some (low_byte (n div 2 ^ (8 * k)))) [0..<4])
               in s\<lparr>ia_buffer := (if ia_intlen s = 8 then uint32ToUint64 (bit n 31) b (ia_bufferIdx s) else b)\<rparr>
             else
               let s0 = (if ia_intlen s = 4
                     then s\<lparr>ia_bufferIdx := ia_bufferIdx s + (ia_index s - 1) * 4,
                            ia_buffer := widen headerIdx (ia_index s - 1) (ia_buffer s), ia_intlen := 8\<rparr>
                     else s)
               in s0\<lparr>ia_buffer := put_wide v (ia_buffer s0) (ia_bufferIdx s0)\<rparr>)
          in Inr (s1\<lparr>ia_bufferIdx := ia_bufferIdx s1 + ia_intlen s1, ia_index := ia_index s1 + 1\<rparr>))"

fun int_array_loop :: "nat \<Rightarrow> int \<Rightarrow> jsval list \<Rightarrow> int_array \<Rightarrow> failure + int_array" where
  "int_array_loop headerIdx extra [] s = Inr s"
| "int_array_loop headerIdx extra (v # vs) s =
     (case int_array_step headerIdx extra v s of
        Inl e \<Rightarrow> Inl e
      | Inr s' \<Rightarrow> int_array_loop headerIdx extra vs s')"

definition encodeIntegerArray :: "int \<Rightarrow> jsval list \<Rightarrow> buf \<Rightarrow> nat \<Rightarrow> failure + (nat \<times> buf)" where
  "encodeIntegerArray extra vs buffer headerIdx =
     (case int_array_loop headerIdx extra vs
        \<lparr>ia_buffer = buffer, ia_bufferIdx = headerIdx + 1, ia_intlen = 4, ia_index = 1\<rparr> of
        Inl e \<Rightarrow> Inl e
      | Inr s \<Rightarrow>
          if ia_bufferIdx s = headerIdx + 1 then Inr (headerIdx, ia_buffer s)
          else Inr (ia_bufferIdx s, put_at (ia_buffer s) headerIdx (of_nat (ia_intlen s))))"

fun bool_array_loop :: "jsval list \<Rightarrow> buf \<Rightarrow> nat \<Rightarrow> nat \<times> buf" where
  "bool_array_loop [] buffer bufferIdx = (bufferIdx, buffer)"
| "bool_array_loop (v # vs) buffer bufferIdx =
     bool_array_loop vs (put_at buffer bufferIdx (if v = JBool True then 1 else 0)) (bufferIdx + 1)"

fun object_array_loop ::
  "struct_encoder \<Rightarrow> int \<Rightarrow> int \<Rightarrow> sproto_type option \<Rightarrow> jsval list \<Rightarrow> buf \<Rightarrow> nat \<Rightarrow> failure + (nat \<times> buf)"
where
  "object_array_loop sub type extra subtype [] buffer bufferIdx = Inr (bufferIdx, buffer)"
| "object_array_loop sub type extra subtype (v # vs) buffer bufferIdx =
     (case encode_value sub type extra subtype v buffer (bufferIdx + 4) of
        CbSize sz _ b \<Rightarrow>
          object_array_loop sub type extra subtype vs (snd (fillSize b bufferIdx sz)) (bufferIdx + 4 + nat sz)
      | CbNil \<Rightarrow> Inr (bufferIdx, buffer)
      | CbFail e \<Rightarrow> Inl e)"

definition encodeArray ::
  "nat \<Rightarrow> struct_encoder \<Rightarrow> int \<Rightarrow> int \<Rightarrow> sproto_type option \<Rightarrow> jsval \<Rightarrow> buf \<Rightarrow> nat \<Rightarrow> failure + (int \<times> buf)"
where
  "encodeArray left sub type extra subtype target data dataIdx =
     (if left = 0 then Inl Failed
      else
        let vs = elements target; start = dataIdx + 4 in
        case if type = SPROTO_TINTEGER then encodeIntegerArray extra vs data start
             else if type = SPROTO_TBOOLEAN then Inr (bool_array_loop vs data start)
             else object_array_loop sub type extra subtype vs data start of
          Inl e \<Rightarrow> Inl e
        | Inr (bufferIdx, b) \<Rightarrow> Inr (fillSize b dataIdx (int bufferIdx - int start)))"

subsection \<open>Structs\<close>

text \<open>The field being written: its value for the header (0: in the data part) and its size.\<close>

definition encode_plain ::
  "nat \<Rightarrow> struct_encoder \<Rightarrow> int \<Rightarrow> int \<Rightarrow> jsval \<Rightarrow> buf \<Rightarrow> nat \<Rightarrow> nat \<Rightarrow> failure + (int \<times> int \<times> buf) option"
where
  "encode_plain left sub type extra target buffer bufferIdx dataIdx =
     (case encode_scalar left sub type extra None target buffer bufferIdx of
        CbNil \<Rightarrow> Inr None
      | CbFail e \<Rightarrow> Inl e
      | CbSize sz v b \<Rightarrow>
          if sz = 4 then
            if int_of v < 0x7fff then Inr (Some ((int_of v + 1) * 2, 2, b))
            else (case encodeInteger (int_of v) b dataIdx of (r, d) \<Rightarrow> Inr (Some (0, r, d)))
          else if sz = 8 then
            if type = SPROTO_TDOUBLE then
              (case v of
                 JStr _ \<Rightarrow> Inl Coerced
               | JU8 _ \<Rightarrow> Inl Coerced
               | JArr _ \<Rightarrow> Inl Coerced
               | _ \<Rightarrow>
                   (case doubleToBinary (dbl_of_num v) b dataIdx of
                      None \<Rightarrow> Inl Hangs
                    | Some (r, d) \<Rightarrow> Inr (Some (0, r, d))))
            else (case encodeUint64 v b dataIdx of (r, d) \<Rightarrow> Inr (Some (0, r, d)))
          else Inl Failed)"

definition encode_field ::
  "sproto_instance \<Rightarrow> nat \<Rightarrow> struct_encoder \<Rightarrow> jsval \<Rightarrow> sproto_field \<Rightarrow> buf \<Rightarrow> nat \<Rightarrow> nat \<Rightarrow>
     failure + (int \<times> int \<times> buf) option"
where
  "encode_field sp left sub indata f buffer bufferIdx dataIdx =
     (let target = field_value indata f;
          subtype = (case f_st f of None \<Rightarrow> None | Some i \<Rightarrow> type_at sp i)
      in if f_type f AND SPROTO_TARRAY \<noteq> 0 then
           map_sum id (\<lambda>(sz, b). Some (0, sz, b))
             (encodeArray left sub (f_type f AND NOT SPROTO_TARRAY) (f_extra f) subtype target buffer dataIdx)
         else if f_type f \<in> {SPROTO_TDOUBLE, SPROTO_TINTEGER, SPROTO_TBOOLEAN} then
           encode_plain left sub (f_type f) (f_extra f) target buffer bufferIdx dataIdx
         else if f_type f \<in> {SPROTO_TSTRUCT, SPROTO_TSTRING} then
           map_sum id (\<lambda>(sz, b). Some (0, sz, b))
             (encodeObject left sub (f_type f) (f_extra f) subtype target buffer dataIdx)
         else Inl Failed)"

record struct_state =
  st_buffer :: buf
  st_dataIdx :: nat
  st_index :: nat
  st_lasttag :: int

definition put_word :: "buf \<Rightarrow> nat \<Rightarrow> int \<Rightarrow> buf" where
  "put_word b i v = put_at (put_at b i (low_byte v)) (i + 1) (low_byte (v div 2 ^ 8))"

text \<open>The header words of a field: one that skips tags if there is a gap, then the field's own.\<close>

definition record_field :: "nat \<Rightarrow> sproto_field \<Rightarrow> int \<Rightarrow> struct_state \<Rightarrow> failure + struct_state" where
  "record_field headerIdx f value s =
     (let recordIdx = headerIdx + 2 + 2 * st_index s;
          tag = f_tag f - st_lasttag s - 1;
          skip = (tag - 1) * 2 + 1
      in if tag > 0 \<and> skip > 0xffff then Inl Failed
         else
           let s1 = (if tag > 0
                 then s\<lparr>st_buffer := put_word (st_buffer s) recordIdx skip, st_index := st_index s + 1\<rparr> else s);
               recordIdx1 = headerIdx + 2 + 2 * st_index s1
           in Inr (s1\<lparr>st_buffer := put_word (st_buffer s1) recordIdx1 value,
                     st_index := st_index s1 + 1, st_lasttag := f_tag f\<rparr>))"

definition struct_step ::
  "sproto_instance \<Rightarrow> nat \<Rightarrow> struct_encoder \<Rightarrow> jsval \<Rightarrow> nat \<Rightarrow> sproto_field \<Rightarrow> struct_state \<Rightarrow> failure + struct_state"
where
  "struct_step sp left sub indata headerIdx f s =
     (case encode_field sp left sub indata f (st_buffer s) headerIdx (st_dataIdx s) of
        Inl e \<Rightarrow> Inl e
      | Inr None \<Rightarrow> Inr s
      | Inr (Some (value, sz, b)) \<Rightarrow>
          if sz < 0 then Inl Failed
          else
            let s1 = s\<lparr>st_buffer := b\<rparr> in
            if sz > 0 then
              record_field headerIdx f value
                (if value = 0 then s1\<lparr>st_dataIdx := st_dataIdx s1 + nat sz\<rparr> else s1)
            else Inr s1)"

fun struct_loop_enc ::
  "sproto_instance \<Rightarrow> nat \<Rightarrow> struct_encoder \<Rightarrow> jsval \<Rightarrow> nat \<Rightarrow> sproto_field list \<Rightarrow> struct_state \<Rightarrow> failure + struct_state"
where
  "struct_loop_enc sp left sub indata headerIdx [] s = Inr s"
| "struct_loop_enc sp left sub indata headerIdx (f # fs) s =
     (case struct_step sp left sub indata headerIdx f s of
        Inl e \<Rightarrow> Inl e
      | Inr s' \<Rightarrow> struct_loop_enc sp left sub indata headerIdx fs s')"

definition type_fields :: "sproto_type \<Rightarrow> sproto_field list" where
  "type_fields st = take (t_n st) (case t_f st of None \<Rightarrow> [] | Some fs \<Rightarrow> fs)"

text \<open>The count word, and the data moved down behind a header shorter than the room left for it.\<close>

definition struct_close :: "nat \<Rightarrow> nat \<Rightarrow> struct_state \<Rightarrow> int \<times> buf" where
  "struct_close headerIdx maxn s =
     (let b = put_word (st_buffer s) headerIdx (int (st_index s));
          dataIdx = headerIdx + (2 + maxn * 2);
          datasz = st_dataIdx s - dataIdx;
          to = headerIdx + 2 + st_index s * 2;
          b1 = (if st_index s \<noteq> maxn then
                  let v = take datasz (drop dataIdx b) in take (to + length v) (put_list b to v)
                else b)
      in (int (2 + st_index s * 2 + datasz), b1))"

definition encode_struct ::
  "sproto_instance \<Rightarrow> nat \<Rightarrow> struct_encoder \<Rightarrow> sproto_type \<Rightarrow> jsval \<Rightarrow> buf \<Rightarrow> nat \<Rightarrow> failure + (int \<times> buf)" where
  "encode_struct sp left sub st indata buffer headerIdx =
     (case struct_loop_enc sp left sub indata headerIdx (type_fields st)
        \<lparr>st_buffer = buffer, st_dataIdx = headerIdx + (2 + t_maxn st * 2), st_index = 0, st_lasttag = -1\<rparr> of
        Inl e \<Rightarrow> Inl e
      | Inr s \<Rightarrow> Inr (struct_close headerIdx (t_maxn st) s))"

definition ENCODE_DEEPLEVEL :: nat where
  "ENCODE_DEEPLEVEL = 64"

text \<open>\<open>left\<close> is \<open>ENCODE_DEEPLEVEL\<close> less the depth: at 0 every callback answers -1.\<close>

fun sprotoEncode :: "sproto_instance \<Rightarrow> nat \<Rightarrow> struct_encoder" where
  "sprotoEncode sp 0 st indata buffer bufferIdx =
     encode_struct sp 0 (\<lambda>_ _ _ _. Inl Failed) st indata buffer bufferIdx"
| "sprotoEncode sp (Suc left) st indata buffer bufferIdx =
     encode_struct sp (Suc left) (sprotoEncode sp left) st indata buffer bufferIdx"

text \<open>\<open>sp.encode\<close> on a type: \<open>None\<close> is the answer \<open>null\<close>.\<close>

definition api_encode :: "sproto_instance \<Rightarrow> sproto_type \<Rightarrow> jsval \<Rightarrow> failure + buf option" where
  "api_encode sp st indata =
     (case sprotoEncode sp ENCODE_DEEPLEVEL st indata [] 0 of
        Inl Failed \<Rightarrow> Inr None
      | Inl e \<Rightarrow> Inl e
      | Inr (r, b) \<Rightarrow> Inr (Some b))"

end
