(* ===== verification/SprotoFormat.thy ===== *)
theory SprotoFormat
  imports SprotoEncode
begin

section \<open>sproto: the wire format\<close>

text \<open>
  The format of a sproto struct as a compositional serializer: a count word, one word per field
  or gap, then the data of the fields one behind the other, each behind its size. It says what
  \<open>sprotoEncode\<close>, which works in place on one array, has to produce (\<open>SprotoEncode_Correct\<close>), and it
  is what \<open>sprotoDecode\<close> is run on (\<open>SprotoDecode_Correct\<close>). Failures are those of the encoder, in the
  order in which it meets them.
\<close>

subsection \<open>Words\<close>

definition word16 :: "int \<Rightarrow> buf" where
  "word16 n = map (\<lambda>k. Some (low_byte (n div 2 ^ (8 * k)))) [0..<2]"

definition dword :: "int \<Rightarrow> buf" where
  "dword n = map (\<lambda>k. Some (low_byte (n div 2 ^ (8 * k)))) [0..<4]"

definition sized :: "buf \<Rightarrow> buf" where
  "sized b = dword (int (length b)) @ b"

text \<open>Eight bytes: of a number or bigint, and of four bytes extended by their sign.\<close>

definition qword :: "int \<Rightarrow> buf" where
  "qword n = map (\<lambda>k. Some (low_byte (n div 2 ^ (8 * k)))) [0..<8]"

definition wide :: "jsval \<Rightarrow> buf" where
  "wide v = (case v of JDbl w \<Rightarrow> map Some (double_shift_bytes w) | _ \<Rightarrow> qword (int_of v))"

definition extended :: "int \<Rightarrow> buf" where
  "extended n = dword n @ replicate 4 (Some (if bit n 31 then 0xff else 0))"

subsection \<open>Values\<close>

type_synonym struct_format = "sproto_type \<Rightarrow> jsval \<Rightarrow> failure + buf"

text \<open>A value that stands in the header has no data; every other has the header word 0.\<close>

definition number_piece :: "jsval \<times> int \<Rightarrow> int \<times> buf" where
  "number_piece p =
     (case p of (v, sz) \<Rightarrow>
        if sz = 4 then
          if int_of v < 0x7fff then ((int_of v + 1) * 2, []) else (0, sized (dword (int_of v)))
        else (0, sized (wide v)))"

definition double_piece :: "jsval \<Rightarrow> failure + (int \<times> buf)" where
  "double_piece v =
     (case v of
        JStr _ \<Rightarrow> Inl Coerced
      | JU8 _ \<Rightarrow> Inl Coerced
      | JArr _ \<Rightarrow> Inl Coerced
      | _ \<Rightarrow>
          (case double_bytes (dbl_of_num v) of
             None \<Rightarrow> Inl Hangs
           | Some bs \<Rightarrow> Inr (0, sized (map Some bs))))"

definition object_format :: "struct_format \<Rightarrow> int \<Rightarrow> int \<Rightarrow> sproto_type option \<Rightarrow> jsval \<Rightarrow> failure + buf" where
  "object_format sub type extra subtype v =
     (if type = SPROTO_TSTRING then (if extra \<noteq> 0 then binary_bytes v else string2bytes v)
      else case subtype of None \<Rightarrow> Inl Threw | Some st \<Rightarrow> sub st v)"

text \<open>The results of a fallible function on a list, up to the first failure.\<close>

fun collect :: "('a \<Rightarrow> failure + 'b) \<Rightarrow> 'a list \<Rightarrow> failure + 'b list" where
  "collect f [] = Inr []"
| "collect f (x # xs) =
     (case f x of Inl e \<Rightarrow> Inl e | Inr y \<Rightarrow> map_sum id ((#) y) (collect f xs))"

text \<open>An integer array: all elements at 4 bytes, or all at 8.\<close>

definition integers_format :: "(jsval \<times> int) list \<Rightarrow> buf" where
  "integers_format es =
     (if es = [] then []
      else if \<forall>(v, sz) \<in> set es. sz = 4 then Some 4 # concat (map (\<lambda>(v, sz). dword (int_of v)) es)
      else Some 8 # concat (map (\<lambda>(v, sz). if sz = 4 then extended (int_of v) else wide v) es))"

definition array_format :: "struct_format \<Rightarrow> int \<Rightarrow> int \<Rightarrow> sproto_type option \<Rightarrow> jsval \<Rightarrow> failure + buf" where
  "array_format sub type extra subtype target =
     (let vs = elements target in
      if type = SPROTO_TINTEGER then map_sum id integers_format (collect (encode_number extra) vs)
      else if type = SPROTO_TBOOLEAN then Inr (map (\<lambda>v. Some (if v = JBool True then 1 else 0)) vs)
      else map_sum id (\<lambda>bs. concat (map sized bs)) (collect (object_format sub type extra subtype) vs))"

subsection \<open>Structs\<close>

definition field_format ::
  "sproto_instance \<Rightarrow> nat \<Rightarrow> struct_format \<Rightarrow> jsval \<Rightarrow> sproto_field \<Rightarrow> failure + (int \<times> buf) option" where
  "field_format sp left sub indata f =
     (let target = field_value indata f;
          subtype = (case f_st f of None \<Rightarrow> None | Some i \<Rightarrow> type_at sp i)
      in if left = 0 then Inl Failed
         else if f_type f AND SPROTO_TARRAY \<noteq> 0 then
           map_sum id (\<lambda>b. Some (0, sized b))
             (array_format sub (f_type f AND NOT SPROTO_TARRAY) (f_extra f) subtype target)
         else if nullish target then Inr None
         else if f_type f = SPROTO_TINTEGER then
           map_sum id (\<lambda>p. Some (number_piece p)) (encode_number (f_extra f) target)
         else if f_type f = SPROTO_TBOOLEAN then Inr (Some ((of_bool (target = JBool True) + 1) * 2, []))
         else if f_type f = SPROTO_TDOUBLE then map_sum id Some (double_piece target)
         else map_sum id (\<lambda>b. Some (0, sized b)) (object_format sub (f_type f) (f_extra f) subtype target))"

text \<open>The header words and the data of the fields, given the last tag written.\<close>

fun fields_format ::
  "sproto_instance \<Rightarrow> nat \<Rightarrow> struct_format \<Rightarrow> jsval \<Rightarrow> sproto_field list \<Rightarrow> int \<Rightarrow> failure + (int list \<times> buf)"
where
  "fields_format sp left sub indata [] lasttag = Inr ([], [])"
| "fields_format sp left sub indata (f # fs) lasttag =
     (case field_format sp left sub indata f of
        Inl e \<Rightarrow> Inl e
      | Inr None \<Rightarrow> fields_format sp left sub indata fs lasttag
      | Inr (Some (value, d)) \<Rightarrow>
          let gap = f_tag f - lasttag - 1; skip = (gap - 1) * 2 + 1 in
          if gap > 0 \<and> skip > 0xffff then Inl Failed
          else map_sum id (\<lambda>(ws, ds). ((if gap > 0 then [skip] else []) @ value # ws, d @ ds))
                 (fields_format sp left sub indata fs (f_tag f)))"

definition struct_bytes :: "int list \<Rightarrow> buf \<Rightarrow> buf" where
  "struct_bytes ws ds = word16 (int (length ws)) @ concat (map word16 ws) @ ds"

definition struct_format :: "sproto_instance \<Rightarrow> nat \<Rightarrow> struct_format \<Rightarrow> struct_format" where
  "struct_format sp left sub st indata =
     map_sum id (\<lambda>(ws, ds). struct_bytes ws ds) (fields_format sp left sub indata (type_fields st) (-1))"

fun sproto_format :: "sproto_instance \<Rightarrow> nat \<Rightarrow> struct_format" where
  "sproto_format sp 0 st indata = struct_format sp 0 (\<lambda>_ _. Inl Failed) st indata"
| "sproto_format sp (Suc left) st indata = struct_format sp (Suc left) (sproto_format sp left) st indata"

subsection \<open>Lengths\<close>

lemma length_words [simp]:
  "length (word16 n) = 2" "length (dword n) = 4" "length (qword n) = 8" "length (extended n) = 8"
  by (simp_all add: word16_def dword_def qword_def extended_def)

lemma length_wide [simp]: "length (wide v) = 8"
  by (simp add: wide_def double_shift_bytes_def split: jsval.split)

lemma length_sized [simp]: "length (sized b) = 4 + length b"
  by (simp add: sized_def)

lemma length_concat_words [simp]: "length (concat (map word16 ws)) = 2 * length ws"
  by (induction ws) simp_all

end
