(* ===== verification/SprotoSchema_Wf.thy ===== *)
theory SprotoSchema_Wf
  imports SprotoQuery
begin

section \<open>sproto: what a loaded schema guarantees, and lookups in it\<close>

text \<open>
  Whatever bytes a schema is loaded from, its types are well formed (\<open>type_wf\<close>): increasing tags,
  a \<open>base\<close> that is right, a \<open>maxn\<close> that leaves room for the gap words, field types in range. On
  such types the binary search and the direct index of \<open>findTag\<close> find exactly the field with
  the tag. The caches are transparent.
\<close>

subsection \<open>Binary search\<close>

lemma bsearch_Some:
  "bsearch key xs tag b e = Some x \<Longrightarrow> \<exists>i. b \<le> i \<and> i < e \<and> x = xs ! i \<and> key x = tag"
proof (induction key xs tag b e rule: bsearch.induct)
  case (1 key xs tag b e)
  let ?m = "(b + e) div 2"
  have lt: "b < e" using "1.prems" by (subst (asm) bsearch.simps) (auto split: if_splits)
  consider "key (xs ! ?m) = tag" | "key (xs ! ?m) < tag" | "tag < key (xs ! ?m)" by linarith
  then show ?case
  proof cases
    case 1
    then show ?thesis
      using "1.prems" lt by (intro exI [of _ ?m], subst (asm) bsearch.simps) (auto simp: Let_def)
  next
    case 2
    then have "bsearch key xs tag (?m + 1) e = Some x"
      using "1.prems" lt by (subst (asm) bsearch.simps) (simp add: Let_def)
    with "1.IH"(1) [OF lt refl refl] 2 obtain i where "?m + 1 \<le> i" "i < e" "x = xs ! i" "key x = tag" by auto
    then show ?thesis using lt by (intro exI [of _ i]) linarith
  next
    case 3
    then have "bsearch key xs tag b ?m = Some x"
      using "1.prems" lt by (subst (asm) bsearch.simps) (simp add: Let_def)
    with "1.IH"(2) [OF lt refl refl] 3 obtain i where "b \<le> i" "i < ?m" "x = xs ! i" "key x = tag" by auto
    then show ?thesis using lt by (intro exI [of _ i]) linarith
  qed
qed

lemma bsearch_None:
  assumes "sorted_wrt (\<lambda>x y. key x < key y) xs" "e \<le> length xs" "bsearch key xs tag b e = None"
    and "b \<le> i" "i < e"
  shows "key (xs ! i) \<noteq> tag"
  using assms
proof (induction key xs tag b e rule: bsearch.induct)
  case (1 key xs tag b e)
  let ?m = "(b + e) div 2"
  have lt: "b < e" using "1.prems" by linarith
  then have m: "?m < e" "b \<le> ?m" by linarith+
  have less: "key (xs ! j) < key (xs ! k)" if "j < k" "k < e" for j k
    using "1.prems"(1,2) that by (auto simp: sorted_wrt_iff_nth_less)
  show ?case
  proof
    assume tag: "key (xs ! i) = tag"
    consider "i = ?m" | "i < ?m" | "?m < i" by linarith
    then show False
    proof cases
      case 1
      then show False using "1.prems"(3) lt tag by (subst (asm) bsearch.simps) (simp add: Let_def)
    next
      case 2
      then have "tag < key (xs ! ?m)" using less [of i ?m] m tag by simp
      then show False
        using "1.IH"(2) [OF lt refl refl] "1.prems" lt 2 m tag by (subst (asm) (2) bsearch.simps) (auto simp: Let_def)
    next
      case 3
      then have "key (xs ! ?m) < tag" using less [of ?m i] "1.prems" tag by simp
      then show False
        using "1.IH"(1) [OF lt refl refl] "1.prems" lt 3 m tag by (subst (asm) (2) bsearch.simps) (auto simp: Let_def)
    qed
  qed
qed

lemma bsearch_find:
  assumes "sorted_wrt (\<lambda>x y. key x < key y) xs"
  shows "bsearch key xs tag 0 (length xs) = find (\<lambda>x. key x = tag) xs"
proof (cases "find (\<lambda>x. key x = tag) xs")
  case None
  then have no: "\<forall>x \<in> set xs. key x \<noteq> tag" by (auto simp: find_None_iff)
  show ?thesis
  proof (cases "bsearch key xs tag 0 (length xs)")
    case (Some x)
    then obtain i where "i < length xs" "key (xs ! i) = tag" using bsearch_Some [OF Some] by auto
    with no show ?thesis by auto
  qed (simp add: None)
next
  case (Some x)
  then obtain i where i: "i < length xs" "x = xs ! i" "key x = tag" by (auto simp: find_Some_iff)
  then have "bsearch key xs tag 0 (length xs) \<noteq> None"
    using bsearch_None [OF assms, of "length xs" tag 0 i] by auto
  then obtain y where y: "bsearch key xs tag 0 (length xs) = Some y" by blast
  then obtain j where j: "j < length xs" "y = xs ! j" "key y = tag" using bsearch_Some [OF y] by auto
  have "i = j"
  proof (rule ccontr)
    assume "i \<noteq> j"
    then have "i < j \<or> j < i" by linarith
    then have "key (xs ! i) < key (xs ! j) \<or> key (xs ! j) < key (xs ! i)"
      using assms i(1) j(1) by (auto simp: sorted_wrt_iff_nth_less)
    then show False using i j by auto
  qed
  with y i j Some show ?thesis by simp
qed

subsection \<open>Well-formed types\<close>

definition field_wf :: "int \<Rightarrow> sproto_field \<Rightarrow> bool" where
  "field_wf type_n f \<longleftrightarrow> f_name f \<noteq> None \<and> 0 \<le> f_tag f \<and> f_tag f < 32767 \<and> 0 \<le> f_extra f \<and>
     (\<exists>t \<in> {SPROTO_TINTEGER, SPROTO_TBOOLEAN, SPROTO_TSTRING, SPROTO_TDOUBLE, SPROTO_TSTRUCT}.
        (f_type f = t \<or> f_type f = t OR SPROTO_TARRAY) \<and>
        (t = SPROTO_TSTRUCT \<longleftrightarrow> f_st f \<noteq> None)) \<and>
     (\<forall>v. f_st f = Some v \<longrightarrow> 0 \<le> v \<and> v < type_n)"

text \<open>The number of field words that skip tags, given the tag before.\<close>

fun gaps :: "int \<Rightarrow> sproto_field list \<Rightarrow> nat" where
  "gaps last' [] = 0"
| "gaps last' (f # fs) = (if f_tag f > last' + 1 then 1 else 0) + gaps (f_tag f) fs"

definition fields_wf :: "int \<Rightarrow> sproto_field list \<Rightarrow> bool" where
  "fields_wf type_n fs \<longleftrightarrow> (\<forall>f \<in> set fs. field_wf type_n f) \<and> sorted_wrt (\<lambda>f g. f_tag f < f_tag g) fs"

definition type_wf :: "int \<Rightarrow> sproto_type \<Rightarrow> bool" where
  "type_wf type_n t \<longleftrightarrow>
     (case t_f t of
        None \<Rightarrow> t_n t = 0 \<and> t_base t = 0 \<and> t_maxn t = 0
      | Some fs \<Rightarrow>
          fs \<noteq> [] \<and> t_n t = length fs \<and> fields_wf type_n fs \<and> t_maxn t = length fs + gaps (-1) fs \<and>
          (if f_tag (last fs) - f_tag (hd fs) + 1 = int (length fs) then t_base t = f_tag (hd fs) else t_base t = -1))"

text \<open>What the field words have established so far, by the tag reached.\<close>

definition partial_field :: "int \<Rightarrow> sproto_field \<Rightarrow> int \<Rightarrow> bool" where
  "partial_field type_n f tag \<longleftrightarrow> - 1 \<le> tag \<and> -1 \<le> f_type f \<and> f_type f \<le> SPROTO_TSTRUCT \<and>
     f_tag f < 32767 \<and> 0 \<le> f_extra f \<and>
     (tag \<le> 0 \<longrightarrow> f_type f = -1) \<and>
     (f_type f = SPROTO_TSTRUCT \<longleftrightarrow> f_st f \<noteq> None) \<and> (tag < 2 \<longrightarrow> f_st f = None) \<and>
     (\<forall>v. f_st f = Some v \<longrightarrow> 0 \<le> v \<and> v < type_n)"

lemma partial_field_step:
  assumes "partial_field tn f tag" "field_step tn st fn i (f, arr, tag) = Some (f', arr', tag')"
  shows "partial_field tn f' tag'"
proof -
  define w where "w = toWord (drop (2 * i) st)"
  have w: "0 \<le> w" "w < 65536" by (simp_all add: w_def toWord_nonneg toWord_less)
  have even: "w \<noteq> 0 \<Longrightarrow> w mod 2 = 0 \<Longrightarrow> 0 \<le> w div 2 - 1 \<and> w div 2 - 1 < 32767" using w by presburger
  have div2: "0 \<le> w div 2" using w by simp
  note pf = assms(1) [unfolded partial_field_def type_codes]
  note st = assms(2) [unfolded field_step_def Let_def prod.case, folded w_def]
  show ?thesis
  proof (cases "w mod 2 = 0")
    case False
    then have "f' = f" "tag < tag'" using st div2 by auto
    with pf show ?thesis by (auto simp: partial_field_def type_codes)
  next
    case True
    then have tag: "tag' = tag + 1" using st by (auto split: if_splits)
    consider "tag + 1 = 0" | "tag + 1 = 1" | "tag + 1 = 2" | "2 < tag + 1"
      using pf by linarith
    then show ?thesis
    proof cases
      case 1
      with st True have "\<exists>n. f' = f\<lparr>f_name := n\<rparr>" by (auto split: if_splits)
      with pf tag 1 show ?thesis by (auto simp: partial_field_def type_codes)
    next
      case 2
      with st True even have "\<exists>v. f' = f\<lparr>f_type := v\<rparr> \<and> 0 \<le> v \<and> v < 4"
        by (auto simp: type_codes split: if_splits)
      with pf tag 2 show ?thesis by (auto simp: partial_field_def type_codes)
    next
      case 3
      have "w \<noteq> 0" using st True 3 by (auto split: if_splits)
      with even True have v: "0 \<le> w div 2 - 1" by simp
      consider "f' = f\<lparr>f_extra := 10 ^ nat (w div 2 - 1)\<rparr>" | "f' = f\<lparr>f_extra := w div 2 - 1\<rparr>"
        | "f' = f\<lparr>f_type := 4, f_st := Some (w div 2 - 1)\<rparr>" "w div 2 - 1 < tn"
        using st True 3 by (auto simp: type_codes split: if_splits)
      then show ?thesis
        using pf tag 3 v by cases (auto simp: partial_field_def type_codes)
    next
      case 4
      with st True even have "f_type f' = f_type f \<and> f_st f' = f_st f \<and> f_extra f' = f_extra f \<and>
          (f_tag f' = f_tag f \<or> f_tag f' < 32767)" by (auto split: if_splits)
      with pf tag 4 show ?thesis by (auto simp: partial_field_def type_codes)
    qed
  qed
qed

lemma partial_field_loop:
  "field_loop tn st fn i k (f, arr, tag) = Some (f', arr', tag') \<Longrightarrow> partial_field tn f tag \<Longrightarrow>
   partial_field tn f' tag'"
proof (induction k arbitrary: i f arr tag)
  case (Suc k)
  then obtain f1 arr1 tag1 where "field_step tn st fn i (f, arr, tag) = Some (f1, arr1, tag1)"
    by (auto split: option.splits)
  with Suc show ?case using partial_field_step by fastforce
qed simp

lemma importField_wf:
  assumes "importField tn stream = Some (f, rest)"
  shows "field_wf tn f"
proof -
  obtain f0 arr tag where l: "field_loop tn (drop 2 (drop 4 stream)) (structField (drop 4 stream) (toDword stream)) 0
      (nat (structField (drop 4 stream) (toDword stream))) (blank_field, False, -1) = Some (f0, arr, tag)"
    and f: "\<not> f_tag f0 < 0" "\<not> f_type f0 < 0" "f_name f0 \<noteq> None"
      "f = f0\<lparr>f_type := (if arr then f_type f0 OR SPROTO_TARRAY else f_type f0)\<rparr>"
    using assms by (auto simp: importField_def Let_def split: if_splits option.splits)
  have "partial_field tn f0 tag"
    by (rule partial_field_loop [OF l]) (simp add: partial_field_def blank_field_def type_codes)
  then have p: "f_type f0 \<le> SPROTO_TSTRUCT" "f_type f0 = SPROTO_TSTRUCT \<longleftrightarrow> f_st f0 \<noteq> None"
      "\<forall>v. f_st f0 = Some v \<longrightarrow> 0 \<le> v \<and> v < tn" "f_tag f0 < 32767" "0 \<le> f_extra f0"
    by (simp_all add: partial_field_def)
  have "f_type f0 \<in> {SPROTO_TINTEGER, SPROTO_TBOOLEAN, SPROTO_TSTRING, SPROTO_TDOUBLE, SPROTO_TSTRUCT}"
    using p(1) f(2) by (auto simp: type_codes)
  with p(2-5) f show ?thesis
    unfolding field_wf_def by (intro conjI bexI [of _ "f_type f0"]) auto
qed

lemma fields_loop_wf:
  "fields_loop tn k stream m last' = Some (fs, m') \<Longrightarrow>
   length fs = k \<and> (\<forall>f \<in> set fs. field_wf tn f \<and> last' < f_tag f) \<and>
   sorted_wrt (\<lambda>f g. f_tag f < f_tag g) fs \<and> m' = m + gaps last' fs"
proof (induction k arbitrary: stream m last' fs m')
  case (Suc k)
  then obtain f stream' fs' where f: "importField tn stream = Some (f, stream')" "\<not> f_tag f \<le> last'"
    and l: "fields_loop tn k stream' (if f_tag f > last' + 1 then m + 1 else m) (f_tag f) = Some (fs', m')"
    and fs: "fs = f # fs'"
    by (auto split: option.splits if_splits)
  from Suc.IH [OF l] importField_wf [OF f(1)] f(2) fs show ?case by fastforce
qed simp

lemma importType_wf:
  assumes "importType tn stream = Loaded (t, rest)"
  shows "type_wf tn t"
proof -
  define fn where "fn = structField (drop 4 stream) (toDword stream)"
  define stream1 where "stream1 = drop (nat (2 + fn * 2)) (drop 4 stream)"
  define stream2 where "stream2 = drop (nat (toDword stream1 + 4)) stream1"
  note imp = assms [unfolded importType_def Let_def, folded fn_def, folded stream1_def, folded stream2_def]
  show ?thesis
  proof (cases "fn = 1")
    case True
    then show ?thesis using imp by (auto simp: type_wf_def split: if_splits)
  next
    case False
    obtain fs m where l: "fields_loop tn (nat (countArray stream2)) (drop 4 stream2) (nat (countArray stream2)) (-1) = Some (fs, m)"
      and ne: "fs \<noteq> []" and n: "\<not> countArray stream2 < 0"
      and t: "t = \<lparr>t_name = Some (importString stream1), t_n = nat (countArray stream2),
        t_base = (if f_tag (last fs) - f_tag (hd fs) + 1 \<noteq> countArray stream2 then -1 else f_tag (hd fs)),
        t_maxn = m, t_f = Some fs\<rparr>"
      using imp False by (auto split: if_splits option.splits)
    from fields_loop_wf [OF l] ne n show ?thesis
      by (auto simp: t type_wf_def fields_wf_def)
  qed
qed

lemma types_loop_wf:
  "types_loop tn k td = Loaded ts \<Longrightarrow> length ts = k \<and> (\<forall>t \<in> set ts. type_wf tn t)"
proof (induction k arbitrary: td ts)
  case (Suc k)
  then obtain t td' ts' where "importType tn td = Loaded (t, td')" "types_loop tn k td' = Loaded ts'" "ts = t # ts'"
    by (cases "importType tn td"; auto elim!: bind_import.elims)
  with Suc.IH importType_wf show ?case by auto
qed simp

subsection \<open>Loaded schemas\<close>

definition schema_wf :: "sproto_instance \<Rightarrow> bool" where
  "schema_wf s \<longleftrightarrow>
     (case s_type s of
        None \<Rightarrow> s_type_n s = 0
      | Some ts \<Rightarrow> s_type_n s = int (length ts) \<and> (\<forall>t \<in> set ts. type_wf (s_type_n s) t)) \<and>
     (case s_proto s of
        None \<Rightarrow> s_protocol_n s = 0
      | Some ps \<Rightarrow> s_protocol_n s = int (length ps) \<and>
          (\<forall>p \<in> set ps. p_name p \<noteq> None \<and> 0 \<le> p_tag p \<and>
             (\<forall>t. p_request p = Some t \<or> p_response p = Some t \<longrightarrow>
                (\<exists>ts. s_type s = Some ts \<and> t \<in> set ts))))"

definition proto_parts :: "sproto_instance \<Rightarrow> sproto_protocol \<Rightarrow> bool" where
  "proto_parts s p \<longleftrightarrow> (\<forall>t. p_request p = Some t \<or> p_response p = Some t \<longrightarrow>
     (\<exists>ts. s_type s = Some ts \<and> t \<in> set ts))"

lemma type_at_mem: "type_at s i = Some t \<Longrightarrow> \<exists>ts. s_type s = Some ts \<and> t \<in> set ts"
  by (auto simp: type_at_def split: option.splits if_splits)

lemma protocol_step_parts:
  "protocol_step s st fn i p = Some p' \<Longrightarrow> proto_parts s p \<Longrightarrow> proto_parts s p'"
  by (auto simp: protocol_step_def Let_def proto_parts_def dest: type_at_mem split: if_splits)

lemma protocol_loop_parts:
  "protocol_loop s st fn i k p = Some p' \<Longrightarrow> proto_parts s p \<Longrightarrow> proto_parts s p'"
  by (induction k arbitrary: i p) (auto split: option.splits dest: protocol_step_parts)

lemma importProtocol_wf:
  "importProtocol s stream = Some (p, rest) \<Longrightarrow> p_name p \<noteq> None \<and> 0 \<le> p_tag p \<and> proto_parts s p"
  by (auto simp: importProtocol_def Let_def split: option.splits if_splits
      dest!: protocol_loop_parts simp: proto_parts_def blank_protocol_def)

lemma protocols_loop_wf:
  "protocols_loop s k pd = Some ps \<Longrightarrow>
   length ps = k \<and> (\<forall>p \<in> set ps. p_name p \<noteq> None \<and> 0 \<le> p_tag p \<and> proto_parts s p)"
proof (induction k arbitrary: pd ps)
  case (Suc k)
  then obtain p pd' ps' where "importProtocol s pd = Some (p, pd')" "protocols_loop s k pd' = Some ps'" "ps = p # ps'"
    by (auto split: option.splits)
  with Suc.IH [of pd' ps'] importProtocol_wf [of s pd p pd'] show ?case by simp
qed simp

lemma sections_loop_nonneg:
  "sections_loop st i k content acc = Some secs \<Longrightarrow> \<forall>(n, d) \<in> set acc. 0 \<le> n \<Longrightarrow> \<forall>(n, d) \<in> set secs. 0 \<le> n"
proof (induction k arbitrary: i content acc)
  case (Suc k)
  from Suc.prems(1) have n: "0 \<le> countArray content"
    by (auto simp: Let_def split: if_splits)
  from Suc.prems(1) have "sections_loop st (Suc i) k (drop (nat (toDword content + 4)) content)
      (acc @ [(countArray content, drop 4 content)]) = Some secs"
    by (auto simp: Let_def split: if_splits)
  from Suc.IH [OF this] Suc.prems(2) n show ?case by auto
qed simp

lemma load_sections_wf:
  assumes "load_sections secs = Loaded s" "\<forall>(n, d) \<in> set secs. 0 \<le> n"
  shows "schema_wf s"
proof (cases secs)
  case Nil
  then show ?thesis using assms(1) by (auto simp: load_sections_def schema_wf_def)
next
  case (Cons sec rest)
  obtain tn td where sec: "sec = (tn, td)" by (cases sec)
  with Cons assms obtain ts where ts: "types_loop tn (nat tn) td = Loaded ts" "0 \<le> tn"
    by (cases "types_loop tn (nat tn) td") (auto simp: load_sections_def)
  note wf = types_loop_wf [OF ts(1)]
  show ?thesis
  proof (cases rest)
    case Nil
    then show ?thesis
      using assms(1) Cons sec ts wf by (auto simp: load_sections_def schema_wf_def)
  next
    case (Cons sec2 rest2)
    obtain pn pd where sec2: "sec2 = (pn, pd)" by (cases sec2)
    define s0 where "s0 = \<lparr>s_type_n = tn, s_protocol_n = 0, s_type = Some ts, s_proto = None\<rparr>"
    have "bind_import (import_opt (protocols_loop s0 (nat pn) pd))
        (\<lambda>ps. Loaded (s0\<lparr>s_protocol_n := pn, s_proto := Some ps\<rparr>)) = Loaded s" "0 \<le> pn"
      using assms \<open>secs = sec # rest\<close> Cons sec sec2 ts by (auto simp: load_sections_def s0_def Let_def)
    then obtain ps where "protocols_loop s0 (nat pn) pd = Some ps" "s = s0\<lparr>s_protocol_n := pn, s_proto := Some ps\<rparr>"
      by (cases "protocols_loop s0 (nat pn) pd") (auto simp: import_opt_def)
    with protocols_loop_wf [OF this(1)] wf ts \<open>0 \<le> pn\<close> show ?thesis
      by (auto simp: schema_wf_def s0_def proto_parts_def)
  qed
qed

lemma createNew_wf:
  assumes "createNew spb = Loaded s"
  shows "schema_wf s"
proof -
  obtain secs where "load_sections secs = Loaded s"
      "sections_loop (drop 2 spb) 0 (nat (structField spb (int (length spb))))
        (drop (nat (structField spb (int (length spb)) * 2)) (drop 2 spb)) [] = Some secs"
    using assms by (auto simp: createNew_def createFromBundle_def Let_def import_opt_def split: if_splits option.splits)
  with sections_loop_nonneg [OF this(2)] show ?thesis by (intro load_sections_wf) auto
qed

subsection \<open>Fields by tag\<close>

lemma contiguous_tags:
  assumes "sorted_wrt (\<lambda>f g. f_tag f < f_tag g) fs" "fs \<noteq> []" "f_tag (last fs) - f_tag (hd fs) + 1 = int (length fs)"
    and "i < length fs"
  shows "f_tag (fs ! i) = f_tag (hd fs) + int i"
proof -
  have inc: "f_tag (fs ! j) + int (k - j) \<le> f_tag (fs ! k)" if "j \<le> k" "k < length fs" for j k
    using that
  proof (induction k)
    case (Suc k)
    show ?case
    proof (cases "j = Suc k")
      case False
      then have "j \<le> k" using Suc.prems(1) by simp
      moreover have "f_tag (fs ! k) < f_tag (fs ! Suc k)"
        using assms(1) Suc.prems(2) by (simp add: sorted_wrt_iff_nth_less)
      ultimately show ?thesis using Suc by (simp add: Suc_diff_le)
    qed simp
  qed simp
  have "hd fs = fs ! 0" "last fs = fs ! (length fs - 1)"
    using assms(2) by (simp_all add: hd_conv_nth last_conv_nth)
  moreover have "i \<le> length fs - 1" "length fs - 1 < length fs" "int (length fs - 1 - i) = int (length fs) - 1 - int i"
    using assms(4) by simp_all
  ultimately show ?thesis
    using inc [of 0 i] inc [of i "length fs - 1"] assms(3,4) by simp
qed

lemma find_by_tag:
  assumes "sorted_wrt (\<lambda>f g. f_tag f < f_tag g) fs" "i < length fs"
  shows "find (\<lambda>f. f_tag f = f_tag (fs ! i)) fs = Some (fs ! i)"
proof -
  have "\<forall>j < i. f_tag (fs ! j) \<noteq> f_tag (fs ! i)"
    using assms by (auto simp: sorted_wrt_iff_nth_less dest: less_imp_neq)
  with assms(2) show ?thesis unfolding find_Some_iff by blast
qed

text \<open>The contract of \<open>findTag\<close>: the field with the tag; else no field, except just behind a gapless type.\<close>

definition field_of :: "sproto_type \<Rightarrow> int \<Rightarrow> sproto_field option" where
  "field_of t tag = find (\<lambda>f. f_tag f = tag) (case t_f t of None \<Rightarrow> [] | Some fs \<Rightarrow> fs)"

lemma findTag_spec:
  assumes "type_wf tn t"
  shows "findTag t tag =
    (case field_of t tag of
       Some f \<Rightarrow> Field f
     | None \<Rightarrow> if t_base t \<ge> 0 \<and> tag = t_base t + int (t_n t)
               then (if t_f t = None then FieldThrows else FieldUndefined) else NoField)"
proof (cases "t_f t")
  case None
  then show ?thesis using assms by (auto simp: type_wf_def findTag_def field_of_def)
next
  case (Some fs)
  have wf: "fs \<noteq> []" "t_n t = length fs" "sorted_wrt (\<lambda>f g. f_tag f < f_tag g) fs" "\<forall>f \<in> set fs. 0 \<le> f_tag f"
    using assms Some by (auto simp: type_wf_def fields_wf_def field_wf_def)
  have base: "if f_tag (last fs) - f_tag (hd fs) + 1 = int (length fs) then t_base t = f_tag (hd fs) else t_base t = -1"
    using assms Some by (simp add: type_wf_def)
  show ?thesis
  proof (cases "f_tag (last fs) - f_tag (hd fs) + 1 = int (length fs)")
    case True
    with base wf have b: "t_base t = f_tag (hd fs)" "0 \<le> f_tag (hd fs)" by simp_all
    note tags = contiguous_tags [OF wf(3,1) True]
    show ?thesis
    proof (cases "t_base t \<le> tag \<and> tag < t_base t + int (length fs)")
      case in_range: True
      then obtain i where i: "i < length fs" "tag = t_base t + int i"
        by (metis zle_iff_zadd add_less_cancel_left of_nat_less_iff)
      have "f_tag (fs ! i) = tag" using tags [OF i(1)] i(2) b by simp
      then have "field_of t tag = Some (fs ! i)"
        using find_by_tag [OF wf(3) i(1)] Some by (simp add: field_of_def)
      moreover have "findTag t tag = Field (fs ! i)"
        using i b Some wf(2) by (simp add: findTag_def Let_def)
      ultimately show ?thesis by simp
    next
      case False
      have "find (\<lambda>f. f_tag f = tag) fs = None"
        using tags b False by (auto simp: find_None_iff in_set_conv_nth)
      with False b Some wf(2) show ?thesis
        by (auto simp: findTag_def field_of_def Let_def)
    qed
  next
    case False
    with base have "t_base t = -1" by simp
    with Some wf bsearch_find [OF wf(3), of tag] show ?thesis
      by (auto simp: findTag_def field_of_def split: option.splits)
  qed
qed

subsection \<open>The caches are transparent\<close>

text \<open>
  Protocol lookups agree by name and by tag when names and tags identify protocols and the
  protocols are sorted by tag, which the loader does not check.
\<close>

definition protocols_ordered :: "sproto_instance \<Rightarrow> bool" where
  "protocols_ordered s \<longleftrightarrow>
     (case s_proto s of
        None \<Rightarrow> True
      | Some ps \<Rightarrow> s_protocol_n s = int (length ps) \<and> sorted_wrt (\<lambda>p q. p_tag p < p_tag q) ps \<and>
          distinct (map p_name ps) \<and> (\<forall>p \<in> set ps. p_name p \<noteq> None \<and> p_name p \<noteq> Some [] \<and> 0 \<le> p_tag p))"

definition info_of :: "sproto_protocol \<Rightarrow> proto_info" where
  "info_of p = \<lparr>i_tag = p_tag p, i_name = the (p_name p), i_request = p_request p, i_response = p_response p\<rparr>"

lemma find_key_mem:
  assumes "distinct (map key xs)" "x \<in> set xs"
  shows "find (\<lambda>y. key y = key x) xs = Some x"
  using assms by (induction xs) (auto simp: image_iff)

lemma sorted_tags_distinct: "sorted_wrt (\<lambda>x y. key x < (key y :: int)) xs \<Longrightarrow> distinct (map key xs)"
  by (induction xs) auto

lemma queryProto_find:
  assumes "protocols_ordered s" "s_proto s = Some ps"
  shows "queryProto s tag = find (\<lambda>p. p_tag p = tag) ps"
  using assms bsearch_find [of p_tag ps tag] by (simp add: queryProto_def protocols_ordered_def)

lemma protocol_mem:
  assumes "protocols_ordered s" "s_proto s = Some ps" "p \<in> set ps"
  shows "protocol s (ByTag (p_tag p)) = Some (info_of p)"
    and "protocol s (ByName (the (p_name p))) = Some (info_of p)"
proof -
  have ps: "distinct (map p_name ps)" "distinct (map p_tag ps)" "p_name p \<noteq> None" "p_name p \<noteq> Some []" "0 \<le> p_tag p"
      "nat (s_protocol_n s) = length ps"
    using assms sorted_tags_distinct [of p_tag ps] by (auto simp: protocols_ordered_def)
  have q: "queryProto s (p_tag p) = Some p"
    using queryProto_find [OF assms(1,2)] find_key_mem [OF ps(2) assms(3)] by simp
  from q ps show "protocol s (ByTag (p_tag p)) = Some (info_of p)"
    by (auto simp: protocol_def Let_def sprotoProtoName_def sprotoProtoQuery_def info_of_def)
  have "find (\<lambda>q. p_name q = Some (the (p_name p))) ps = Some p"
    using find_key_mem [OF ps(1) assms(3)] ps(3) by simp
  then have "sprotoProtoTag s (the (p_name p)) = p_tag p"
    using assms(2) ps(6) by (simp add: sprotoProtoTag_def)
  with q ps show "protocol s (ByName (the (p_name p))) = Some (info_of p)"
    by (auto simp: protocol_def Let_def sprotoProtoQuery_def info_of_def)
qed

lemma protocol_Some:
  assumes "protocols_ordered s" "protocol s k = Some i"
  shows "\<exists>ps p. s_proto s = Some ps \<and> p \<in> set ps \<and> i = info_of p"
proof -
  obtain ps where ps: "s_proto s = Some ps"
    using assms(2) by (auto simp: protocol_def Let_def sprotoProtoName_def queryProto_def sprotoProtoTag_def
        split: proto_key.splits option.splits if_splits)
  have "\<exists>p \<in> set ps. k = ByTag (p_tag p) \<or> k = ByName (the (p_name p))"
  proof (cases k)
    case (ByTag tag)
    then obtain p where "queryProto s tag = Some p"
      using assms(2) by (auto simp: protocol_def Let_def sprotoProtoName_def split: option.splits)
    with queryProto_find [OF assms(1) ps] ByTag show ?thesis by (auto simp: find_Some_iff)
  next
    case (ByName name)
    then have "sprotoProtoTag s name \<noteq> -1"
      using assms(2) by (auto simp: protocol_def Let_def split: if_splits)
    then obtain p where "find (\<lambda>p. p_name p = Some name) (take (nat (s_protocol_n s)) ps) = Some p"
      using ps by (auto simp: sprotoProtoTag_def split: option.splits)
    then have "p \<in> set ps" "p_name p = Some name"
      by (auto simp: find_Some_iff intro: in_set_takeD nth_mem)
    with ByName show ?thesis by force
  qed
  with protocol_mem [OF assms(1) ps] assms(2) ps show ?thesis by fastforce
qed

interpretation type_cache: memo "\<lambda>_. True" sprotoType queryType "\<lambda>k v. {k}"
  by unfold_locales (auto simp: queryType_def)

interpretation proto_cache: memo protocols_ordered protocol queryProtoFunc
  "\<lambda>k i. {ByName (i_name i), ByTag (i_tag i)}"
proof
  fix s k i k'
  assume ok: "protocols_ordered s" "protocol s k = Some i" and k': "k' \<in> {ByName (i_name i), ByTag (i_tag i)}"
  from protocol_Some [OF ok] obtain ps p where p: "s_proto s = Some ps" "p \<in> set ps" "i = info_of p" by blast
  with protocol_mem [OF ok(1) p(1,2)] k' show "protocol s k' = Some i"
    by (auto simp: info_of_def)
qed (auto simp: queryProtoFunc_def)

end
