(* ===== verification/SprotoEncode_Correct.thy ===== *)
theory SprotoEncode_Correct
  imports SprotoFormat SprotoSchema_Wf
begin

section \<open>sproto: the encoder writes the format\<close>

text \<open>
  The in-place encoder against \<open>SprotoFormat\<close>: started behind any prefix, \<open>sprotoEncode\<close> appends
  exactly the format of the value, or fails as the format does. The lemmas go up the code: writes
  into an array, the widening of integer arrays, arrays, fields, structs.
\<close>

subsection \<open>Writes behind the end\<close>

definition pad :: "buf \<Rightarrow> nat \<Rightarrow> buf" where
  "pad b n = b @ replicate (n - length b) None"

lemma length_pad [simp]: "length (pad b n) = max (length b) n"
  by (simp add: pad_def)

lemma get_at_pad [simp]: "get_at (pad b n) j = get_at b j"
  by (auto simp: pad_def get_at_def nth_append)

lemma pad_id [simp]: "n \<le> length b \<Longrightarrow> pad b n = b"
  by (simp add: pad_def)

lemma pad_pad [simp]: "m \<le> n \<Longrightarrow> pad (pad b m) n = pad b n"
  by (rule buf_eqI) auto

lemma get_at_append: "get_at (a @ b) j = (if j < length a then get_at a j else get_at b (j - length a))"
  by (auto simp: get_at_def nth_append)

lemma pad_eqI:
  assumes "length a \<le> n" "length b \<le> n" "\<And>j. j < n \<Longrightarrow> get_at a j = get_at b j"
  shows "pad a n = pad b n"
  by (rule buf_eqI) (use assms in auto)

lemma put_list_behind: "length b \<le> i \<Longrightarrow> vs \<noteq> [] \<Longrightarrow> put_list b i vs = pad b i @ vs"
  by (rule buf_eqI) (auto simp: length_put_list get_at_put_list get_at_append, auto simp: get_at_def)

lemma fillSize_put: "fillSize d i sz = (sz + 4, put_list d i (dword sz))"
  by (simp add: fillSize_def dword_def upt_rec numeral_eq_Suc)

lemma put_list_twice:
  "put_list (put_list d j bs) i as = put_list d i (as @ bs)" if "j = i + length as"
proof (rule buf_eqI)
  show "length (put_list (put_list d j bs) i as) = length (put_list d i (as @ bs))"
    using that by (auto simp: length_put_list)
  show "get_at (put_list (put_list d j bs) i as) k = get_at (put_list d i (as @ bs)) k" for k
    using that by (auto simp: get_at_put_list nth_append)
qed

text \<open>A value of any length written behind its size.\<close>

lemma sized_put: "put_list (put_list d (i + 4) bs) i (dword (int (length bs))) = put_list d i (sized bs)"
  by (simp add: put_list_twice sized_def)

lemma sized_written: "length d \<le> i \<Longrightarrow> put_list d i (sized bs) = pad d i @ sized bs"
  by (rule put_list_behind) (auto simp: sized_def dword_def upt_rec)

lemma encodeInteger_put: "encodeInteger v d i = (8, put_list d i (sized (dword v)))"
proof -
  have "encodeInteger v d i = (8, put_list (put_list d (i + 4) (dword v)) i (dword (int (length (dword v)))))"
    unfolding encodeInteger_def fillSize_put
    by (simp add: dword_def upt_rec numeral_eq_Suc)
  then show ?thesis by (simp only: sized_put)
qed

lemma put_bigint_put:
  "put_bigint n u d i = put_list d i (map (\<lambda>k. Some (low_byte (u div 2 ^ (8 * k)))) [0..<n])"
proof (induction n u d i rule: put_bigint.induct)
  case (2 n u d i)
  have "map (\<lambda>k. Some (low_byte (u div 2 ^ (8 * k)))) [0..<Suc n] =
      Some (low_byte u) # map (\<lambda>k. Some (low_byte (u div 2 ^ 8 div 2 ^ (8 * k)))) [0..<n]"
    by (simp add: upt_conv_Cons zdiv_zmult2_eq [symmetric] power_add del: upt_Suc flip: map_Suc_upt)
  with 2 show ?case by (simp only: put_bigint.simps put_list.simps low_byte_and)
qed simp

lemma put_wide_put: "is_integer v \<or> (\<exists>w. v = JDbl w) \<Longrightarrow> put_wide v d i = put_list d i (wide v)"
proof (cases v)
  case (JNum n)
  then show ?thesis by (simp add: wide_def qword_def put_number64_def uint64Rshift_def)
next
  case (JBig n)
  have "map (\<lambda>k. Some (low_byte ((if n < 0 then n + 0x10000000000000000 else n) div 2 ^ (8 * k)))) [0..<8] = qword n"
    unfolding qword_def by (rule map_cong [OF refl]) (simp add: low_byte_complement)
  with JBig show ?thesis
    by (simp add: wide_def put_bigint64_def put_bigint_put del: upt_rec_numeral)
qed (auto simp: wide_def put_double64_def)

lemma encodeUint64_put:
  assumes "is_integer v \<or> (\<exists>w. v = JDbl w)"
  shows "encodeUint64 v d i = (12, put_list d i (sized (wide v)))"
proof -
  have "encodeUint64 v d i = (12, put_list (put_list d (i + 4) (wide v)) i (dword (int (length (wide v)))))"
    using assms by (simp add: encodeUint64_def fillSize_put put_wide_put)
  then show ?thesis by (simp only: sized_put)
qed

lemma doubleToBinary_put:
  "double_bytes w = Some bs \<Longrightarrow> length bs = 8 \<Longrightarrow>
   doubleToBinary w d i = Some (12, put_list d i (sized (map Some bs)))"
  using sized_put [of d i "map Some bs"] by (simp add: doubleToBinary_def fillSize_put)

lemma bytes_ne [simp]: "word16 n \<noteq> []" "dword n \<noteq> []" "wide v \<noteq> []" "sized b \<noteq> []"
  by (simp_all flip: length_greater_0_conv)

subsection \<open>Integer arrays\<close>

text \<open>What \<open>encode_number\<close> gives: a 32-bit word at 4 bytes, or a number at 8.\<close>

definition number_ok :: "jsval \<times> int \<Rightarrow> bool" where
  "number_ok p \<longleftrightarrow> (case p of (v, sz) \<Rightarrow>
     (sz = 4 \<and> (\<exists>n. v = JNum n \<and> 0 \<le> n \<and> n < 2 ^ 32)) \<or> (sz = 8 \<and> (is_integer v \<or> (\<exists>w. v = JDbl w))))"

lemma encode_integer_ok: "encode_integer t = Some p \<Longrightarrow> number_ok p"
proof -
  have "uint (w :: 32 word) < 4294967296" for w using uint_lt2p [of w] by simp
  then show "encode_integer t = Some p \<Longrightarrow> number_ok p"
    by (cases t; auto simp: encode_integer_def number_ok_def Let_def split: if_splits option.splits)
qed

lemma encode_number_ok: "encode_number extra t = Inr p \<Longrightarrow> number_ok p"
  by (auto simp: encode_number_def Let_def split: if_splits option.splits jsval.splits dest: encode_integer_ok)

definition slot :: "jsval \<times> int \<Rightarrow> buf" where
  "slot p = (case p of (v, sz) \<Rightarrow> if sz = 4 then extended (int_of v) else wide v)"

lemma length_slot [simp]: "length (slot p) = 8"
  by (simp add: slot_def split: prod.split)

lemma move4_cells:
  "get_at (move4 h i b) p =
     (if h + 1 + 8 * i \<le> p \<and> p < h + 1 + 8 * i + 4 then get_at b (p - 4 * i) else get_at b p)"
  "length (move4 h i b) = max (length b) (h + 1 + 8 * i + 4)"
proof -
  have l: "[1 + i * 8..<1 + i * 8 + 4] = [8 * i + 1, 8 * i + 2, 8 * i + 3, 8 * i + 4]"
    by (simp add: upt_rec)
  show "length (move4 h i b) = max (length b) (h + 1 + 8 * i + 4)"
    unfolding move4_def l by (simp add: algebra_simps)
  show "get_at (move4 h i b) p =
     (if h + 1 + 8 * i \<le> p \<and> p < h + 1 + 8 * i + 4 then get_at b (p - 4 * i) else get_at b p)"
  proof (cases "i = 0")
    case True
    then show ?thesis unfolding move4_def l by (auto simp: get_at_put_opt)
  next
    case False
    then show ?thesis unfolding move4_def l by (auto simp: get_at_put_opt algebra_simps)
  qed
qed

lemma uint32ToUint64_cells:
  "get_at (uint32ToUint64 neg b i) p = (if i + 4 \<le> p \<and> p < i + 8 then Some (if neg then 0xff else 0) else get_at b p)"
  "length (uint32ToUint64 neg b i) = max (length b) (i + 8)"
  by (auto simp: uint32ToUint64_def get_at_put_list length_put_list)

text \<open>Widening spreads the four bytes of each element and fills in its sign.\<close>

lemma length_widen: "length (widen h n b) = (if n = 0 then length b else max (length b) (h + 1 + 8 * n))"
  by (induction n arbitrary: b) (auto simp: Let_def uint32ToUint64_cells move4_cells)

lemma widen_other: "p < h + 1 \<or> h + 1 + 8 * n \<le> p \<Longrightarrow> get_at (widen h n b) p = get_at b p"
proof (induction n arbitrary: b)
  case (Suc n)
  then show ?case by (auto simp: Let_def uint32ToUint64_cells move4_cells algebra_simps)
qed simp

lemma widen_cell:
  "i < n \<Longrightarrow> k < 8 \<Longrightarrow> get_at (widen h n b) (h + 1 + 8 * i + k) =
     (if k < 4 then get_at b (h + 1 + 4 * i + k)
      else Some (if bit (byte_at b (h + 1 + 4 * i + 3)) 7 then 0xff else 0))"
proof (induction n arbitrary: b)
  case (Suc n)
  define b1 where "b1 = move4 h n b"
  define b2 where "b2 = uint32ToUint64 (bit (byte_at b1 (h + 1 + n * 8 + 3)) 7) b1 (h + 1 + n * 8)"
  have w: "widen h (Suc n) b = widen h n b2" by (simp add: b1_def b2_def Let_def)
  have top: "byte_at b1 (h + 1 + n * 8 + 3) = byte_at b (h + 1 + 4 * n + 3)"
    by (simp add: b1_def byte_at_def move4_cells algebra_simps)
  have b2: "b2 = uint32ToUint64 (bit (byte_at b (h + 1 + 4 * n + 3)) 7) b1 (h + 1 + n * 8)"
    by (simp only: b2_def top)
  have new: "get_at b2 (h + 1 + 8 * n + k) =
      (if k < 4 then get_at b (h + 1 + 4 * n + k) else Some (if bit (byte_at b (h + 1 + 4 * n + 3)) 7 then 0xff else 0))"
    using \<open>k < 8\<close> unfolding b2 uint32ToUint64_cells unfolding b1_def move4_cells by (auto simp: algebra_simps)
  have low: "get_at b2 q = get_at b q" if "q < h + 1 + 8 * n" for q
    using that unfolding b2 uint32ToUint64_cells unfolding b1_def move4_cells by auto
  show ?case
  proof (cases "i = n")
    case True
    then show ?thesis unfolding w using widen_other [of "h + 1 + 8 * n + k" h n b2] new by simp
  next
    case False
    then have "i < n" using Suc.prems by simp
    moreover have "get_at b2 (h + 1 + 4 * i + m) = get_at b (h + 1 + 4 * i + m)" if "m < 4" for m
      using that \<open>i < n\<close> by (intro low) simp
    from this [of k] this [of 3] show ?thesis
      unfolding w Suc.IH [OF \<open>i < n\<close> \<open>k < 8\<close>] by (simp add: byte_at_def)
  qed
qed simp

lemma concat_cell:
  assumes "\<And>e. e \<in> set es \<Longrightarrow> length (c e) = w" "i < length es" "k < w"
  shows "get_at (concat (map c es)) (w * i + k) = get_at (c (es ! i)) k"
  using assms
proof (induction es arbitrary: i)
  case (Cons e es)
  then show ?case by (cases i) (simp_all add: get_at_append)
qed simp

lemma get_at_dword: "k < 4 \<Longrightarrow> get_at (dword n) k = Some (low_byte (n div 2 ^ (8 * k)))"
  by (simp add: get_at_def dword_def del: upt_rec_numeral)

lemma get_at_extended:
  "k < 8 \<Longrightarrow> get_at (extended n) k =
     (if k < 4 then get_at (dword n) k else Some (if bit n 31 then 0xff else 0))"
  by (auto simp: extended_def get_at_append, auto simp: get_at_def)

lemma length_concat_cells: "(\<And>e. e \<in> set es \<Longrightarrow> length (c e) = w) \<Longrightarrow> length (concat (map c es)) = w * length es"
  by (induction es) auto

lemma get_at_behind: "length pre = n \<Longrightarrow> get_at (pre @ xs) (n + j) = get_at xs j"
  by (simp add: get_at_append)

lemma widen_image:
  fixes g :: "'a \<Rightarrow> int"
  assumes pre: "length pre = h + 1"
  shows "widen h (length es) (pre @ concat (map (\<lambda>e. dword (g e)) es)) = pre @ concat (map (\<lambda>e. extended (g e)) es)"
    (is "widen h ?n ?b = ?r")
proof (rule buf_eqI)
  have len: "length (concat (map (\<lambda>e. dword (g e)) es)) = 4 * ?n" "length (concat (map (\<lambda>e. extended (g e)) es)) = 8 * ?n"
    by (simp_all add: length_concat_cells)
  show "length (widen h ?n ?b) = length ?r"
    using pre len by (auto simp: length_widen)
  fix p
  consider "p < h + 1 \<or> h + 1 + 8 * ?n \<le> p" | i k where "i < ?n" "k < 8" "p = h + 1 + 8 * i + k"
  proof (cases "p < h + 1 \<or> h + 1 + 8 * ?n \<le> p")
    case False
    define q where "q = p - (h + 1)"
    have "q < ?n * 8" "p = h + 1 + q" using False by (auto simp: q_def)
    moreover have "q = 8 * (q div 8) + q mod 8" by simp
    ultimately have "q div 8 < ?n" "q mod 8 < 8" "p = h + 1 + 8 * (q div 8) + q mod 8"
      using less_mult_imp_div_less [of q ?n 8] by auto
    then show ?thesis by (rule that(2))
  qed (use that in blast)
  then show "get_at (widen h ?n ?b) p = get_at ?r p"
  proof cases
    case 1
    then show ?thesis using pre len by (auto simp: widen_other get_at_append, auto simp: get_at_def)
  next
    case (2 i k)
    have cell: "get_at ?b (h + 1 + 4 * i + m) = get_at (dword (g (es ! i))) m" if "m < 4" for m
      using that 2(1) get_at_behind [OF pre, of _ "4 * i + m"] concat_cell [of es "\<lambda>e. dword (g e)" 4 i m]
      by (simp add: add.assoc)
    have r: "get_at ?r p = get_at (extended (g (es ! i))) k"
      using 2 get_at_behind [OF pre, of _ "8 * i + k"] concat_cell [of es "\<lambda>e. extended (g e)" 8 i k]
      by (simp add: add.assoc)
    have top: "bit (byte_at ?b (h + 1 + 4 * i + 3)) 7 = bit (g (es ! i)) 31"
    proof -
      have "byte_at ?b (h + 1 + 4 * i + 3) = low_byte (g (es ! i) div 2 ^ 24)"
        using cell [of 3] by (simp add: byte_at_def get_at_dword)
      then show ?thesis by (simp add: bit_low_byte del: power_numeral)
    qed
    have "get_at (widen h ?n ?b) p =
        (if k < 4 then get_at ?b (h + 1 + 4 * i + k)
         else Some (if bit (byte_at ?b (h + 1 + 4 * i + 3)) 7 then 0xff else 0))"
      unfolding 2(3) by (rule widen_cell [OF 2(1,2)])
    also have "\<dots> = get_at (extended (g (es ! i))) k"
      unfolding top get_at_extended [OF 2(2)] using cell [of k] by presburger
    finally show ?thesis using r by simp
  qed
qed

text \<open>The state after the elements \<open>es\<close>: all at 4 bytes, or all at 8.\<close>

definition narrow :: "(jsval \<times> int) list \<Rightarrow> bool" where
  "narrow es \<longleftrightarrow> (\<forall>e \<in> set es. snd e = 4)"

definition cells :: "(jsval \<times> int) list \<Rightarrow> buf" where
  "cells es = (if narrow es then concat (map (\<lambda>e. dword (int_of (fst e))) es) else concat (map slot es))"

definition ints_at :: "buf \<Rightarrow> nat \<Rightarrow> (jsval \<times> int) list \<Rightarrow> int_array" where
  "ints_at data h es =
     \<lparr>ia_buffer = (if es = [] then data else pad data (h + 1) @ cells es),
      ia_bufferIdx = h + 1 + length (cells es),
      ia_intlen = (if narrow es then 4 else 8),
      ia_index = Suc (length es)\<rparr>"

lemma length_cells: "length (cells es) = (if narrow es then 4 else 8) * length es"
  by (simp add: cells_def length_concat_cells)

lemma slot_narrow: "narrow es \<Longrightarrow> concat (map slot es) = concat (map (\<lambda>e. extended (int_of (fst e))) es)"
  unfolding narrow_def by (rule arg_cong [of _ _ concat]) (auto simp: slot_def)

lemma widen_cells:
  assumes "narrow es" "length data \<le> h"
  shows "widen h (length es) (if es = [] then data else pad data (h + 1) @ cells es) =
    (if es = [] then data else pad data (h + 1) @ concat (map slot es))"
  using assms widen_image [of "pad data (h + 1)" h es "\<lambda>e. int_of (fst e)"]
  by (simp add: cells_def slot_narrow)

lemma put_cell:
  assumes "length data \<le> h" "cs = [] \<longleftrightarrow> es = []" "vs \<noteq> []"
  shows "put_list (if es = [] then data else pad data (h + 1) @ cs) (h + 1 + length cs) vs = pad data (h + 1) @ cs @ vs"
  using assms put_list_behind [of data "h + 1" vs] put_list_append [of "h + 1 + length cs" "pad data (h + 1) @ cs" vs]
  by (cases "es = []") simp_all

lemma int_array_step_at:
  assumes "length data \<le> h" "encode_number extra v = Inr e"
  shows "int_array_step h extra v (ints_at data h es) = Inr (ints_at data h (es @ [e]))"
proof -
  obtain x sz where e: "e = (x, sz)" by (cases e)
  have ok: "number_ok (x, sz)" using encode_number_ok [OF assms(2)] e by simp
  have ne: "cells es = [] \<longleftrightarrow> es = []" "concat (map slot es) = [] \<longleftrightarrow> es = []"
    using length_cells [of es] length_concat_cells [of es slot 8] by (auto simp: length_0_conv [symmetric] simp del: length_0_conv)
  show ?thesis
  proof (cases "sz = 4")
    case True
    then obtain n where n: "x = JNum n" using ok by (auto simp: number_ok_def)
    have bytes: "map (\<lambda>k. Some (low_byte (n div 2 ^ (8 * k)))) [0..<4] = dword n" by (simp add: dword_def)
    have nar: "narrow (es @ [e]) = narrow es" using True e by (simp add: narrow_def)
    have w: "put_list (ia_buffer (ints_at data h es)) (ia_bufferIdx (ints_at data h es)) (dword n) =
        pad data (h + 1) @ cells es @ dword n"
      using put_cell [OF assms(1) ne(1), of "dword n"] by (simp add: ints_at_def)
    have u: "uint32ToUint64 (bit n 31) (pad data (h + 1) @ cells es @ dword n) (h + 1 + length (cells es)) =
        pad data (h + 1) @ cells es @ extended n"
      unfolding uint32ToUint64_def extended_def
      using put_list_append [of "h + 1 + length (cells es) + 4" "pad data (h + 1) @ cells es @ dword n"] assms(1) by simp
    show ?thesis
    proof (cases "narrow es")
      case narr: True
      then have "cells (es @ [e]) = cells es @ dword n"
        using nar e n True by (simp add: cells_def)
      then show ?thesis
        using assms(2) e n True narr nar w bytes by (simp add: int_array_step_def Let_def ints_at_def del: upt_rec_numeral)
    next
      case wide: False
      then have "cells (es @ [e]) = cells es @ extended n"
        using nar e n True by (simp add: cells_def slot_def)
      then show ?thesis
        using assms(2) e n True wide nar w u bytes by (simp add: int_array_step_def Let_def ints_at_def del: upt_rec_numeral)
    qed
  next
    case False
    then have x: "sz = 8" "is_integer x \<or> (\<exists>w. x = JDbl w)" using ok by (auto simp: number_ok_def)
    have nar: "\<not> narrow (es @ [e])" and cs: "cells (es @ [e]) = concat (map slot es) @ wide x"
      using False e by (simp_all add: narrow_def cells_def slot_def)
    have idx: "h + 1 + length (concat (map slot es)) = h + 1 + 8 * length es"
      by (simp add: length_concat_cells)
    have w: "put_list (if es = [] then data else pad data (h + 1) @ concat (map slot es)) (h + 1 + 8 * length es) (wide x) =
        pad data (h + 1) @ concat (map slot es) @ wide x"
      using put_cell [OF assms(1) ne(2), of "wide x"] idx by simp
    show ?thesis
    proof (cases "narrow es")
      case True
      then show ?thesis
        using assms e x nar cs w widen_cells [OF True assms(1)] length_cells [of es] idx
        by (cases "es = []") (simp_all add: int_array_step_def Let_def ints_at_def put_wide_put algebra_simps)
    next
      case wide: False
      then have "cells es = concat (map slot es)" by (simp add: cells_def)
      then show ?thesis
        using assms e x nar cs w wide length_cells [of es] idx
        by (cases "es = []") (simp_all add: int_array_step_def Let_def ints_at_def put_wide_put algebra_simps)
    qed
  qed
qed

lemma int_array_loop_at:
  assumes "length data \<le> h"
  shows "int_array_loop h extra vs (ints_at data h es) =
    map_sum id (\<lambda>es'. ints_at data h (es @ es')) (collect (encode_number extra) vs)"
proof (induction vs arbitrary: es)
  case (Cons v vs)
  show ?case
  proof (cases "encode_number extra v")
    case (Inl f)
    then show ?thesis by (simp add: int_array_step_def)
  next
    case (Inr e)
    then show ?thesis
      using int_array_step_at [OF assms Inr] Cons.IH [of "es @ [e]"]
      by (cases "collect (encode_number extra) vs") simp_all
  qed
qed simp

lemma integers_format_cells:
  "integers_format es = (if es = [] then [] else Some (if narrow es then 4 else 8) # cells es)"
proof -
  have "(\<forall>(v, sz) \<in> set es. sz = 4) = narrow es" by (auto simp: narrow_def)
  moreover have "(\<lambda>(v, sz). dword (int_of v)) = (\<lambda>e :: jsval \<times> int. dword (int_of (fst e)))"
    "(\<lambda>(v, sz). if sz = 4 then extended (int_of v) else wide v) = slot"
    by (auto simp: slot_def)
  ultimately show ?thesis by (simp add: integers_format_def cells_def)
qed

lemma encodeIntegerArray_format:
  assumes "length data \<le> h"
  shows "encodeIntegerArray extra vs data h =
    map_sum id (\<lambda>es. (h + length (integers_format es), put_list data h (integers_format es)))
      (collect (encode_number extra) vs)"
proof -
  have start: "\<lparr>ia_buffer = data, ia_bufferIdx = h + 1, ia_intlen = 4, ia_index = 1\<rparr> = ints_at data h []"
    by (simp add: ints_at_def cells_def narrow_def)
  have close: "(if ia_bufferIdx s = h + 1 then Inr (h, ia_buffer s)
      else Inr (ia_bufferIdx s, put_at (ia_buffer s) h (of_nat (ia_intlen s)))) =
      Inr (h + length (integers_format es), put_list data h (integers_format es))"
    if "s = ints_at data h es" for s es
  proof (cases "es = []")
    case True
    then show ?thesis by (simp add: that ints_at_def integers_format_cells cells_def narrow_def)
  next
    case False
    have pd: "pad data (h + 1) = pad data h @ [None]"
      using assms by (simp add: pad_def Suc_diff_le replicate_append_same)
    have "put_at (pad data (h + 1) @ cells es) h w = pad data h @ Some w # cells es" for w
      using assms unfolding pd by (intro buf_eqI) (auto simp: get_at_put_opt get_at_append, auto simp: get_at_def)
    moreover have "put_list data h (Some w # cells es) = pad data h @ Some w # cells es" for w
      using assms by (intro put_list_behind) simp_all
    ultimately show ?thesis
      using False length_cells [of es] by (simp add: that ints_at_def integers_format_cells del: put_list.simps)
  qed
  show ?thesis
    unfolding encodeIntegerArray_def start int_array_loop_at [OF assms]
    by (cases "collect (encode_number extra) vs") (simp_all only: map_sum.simps sum.case id_apply append_Nil close [OF refl])
qed

subsection \<open>Arrays and objects\<close>

text \<open>
  The schemas the encoder is meant for: well-formed as loaded, without arrays of doubles, for
  which the code writes only holes.
\<close>

definition encodable :: "sproto_instance \<Rightarrow> sproto_type \<Rightarrow> bool" where
  "encodable sp st \<longleftrightarrow> type_wf (s_type_n sp) st \<and> (\<forall>f \<in> set (type_fields st). f_type f \<noteq> SPROTO_TDOUBLE OR SPROTO_TARRAY)"

definition schema_encodable :: "sproto_instance \<Rightarrow> bool" where
  "schema_encodable sp \<longleftrightarrow> (\<forall>ts. s_type sp = Some ts \<longrightarrow> (\<forall>t \<in> set ts. encodable sp t))"

definition writes :: "sproto_instance \<Rightarrow> struct_encoder \<Rightarrow> struct_format \<Rightarrow> bool" where
  "writes sp sub fmt \<longleftrightarrow> (\<forall>st v b i. encodable sp st \<longrightarrow> length b \<le> i \<longrightarrow>
     sub st v b i = map_sum id (\<lambda>bs. (int (length bs), put_list b i bs)) (fmt st v))"

definition subtype_ok :: "sproto_instance \<Rightarrow> int \<Rightarrow> sproto_type option \<Rightarrow> bool" where
  "subtype_ok sp type subtype \<longleftrightarrow>
     type = SPROTO_TSTRING \<or> (type = SPROTO_TSTRUCT \<and> (\<forall>st. subtype = Some st \<longrightarrow> encodable sp st))"

lemma encode_object_format:
  assumes "writes sp sub fmt" "subtype_ok sp type subtype" "length b \<le> i"
  shows "encode_value sub type extra subtype v b i =
    (case object_format fmt type extra subtype v of
       Inl e \<Rightarrow> CbFail e
     | Inr bs \<Rightarrow> CbSize (int (length bs)) JUndef (put_list b i bs))"
proof (cases "type = SPROTO_TSTRING")
  case True
  then show ?thesis by (simp add: encode_value_def object_format_def type_codes)
next
  case False
  then have t: "type = SPROTO_TSTRUCT" "\<forall>st. subtype = Some st \<longrightarrow> encodable sp st"
    using assms(2) by (auto simp: subtype_ok_def)
  show ?thesis
  proof (cases subtype)
    case None
    then show ?thesis using t by (simp add: encode_value_def object_format_def type_codes)
  next
    case (Some st)
    then have "sub st v b i = map_sum id (\<lambda>bs. (int (length bs), put_list b i bs)) (fmt st v)"
      using assms(1,3) t by (simp add: writes_def)
    with Some t show ?thesis
      by (cases "fmt st v") (simp_all add: encode_value_def object_format_def type_codes)
  qed
qed

lemma put_list_chain: "put_list (put_list b i xs) (i + length xs) ys = put_list b i (xs @ ys)"
  by (induction b i xs rule: put_list.induct) simp_all

lemma length_put_list_behind: "length b \<le> i \<Longrightarrow> vs \<noteq> [] \<Longrightarrow> length (put_list b i vs) = i + length vs"
  by (simp add: length_put_list)

lemma sized_step: "snd (fillSize (put_list b (i + 4) bs) i (int (length bs))) = put_list b i (sized bs)"
  using sized_put [of b i bs] by (simp add: fillSize_put)

lemma object_array_loop_format:
  assumes "writes sp sub fmt" "subtype_ok sp type subtype"
  shows "length b \<le> i \<Longrightarrow> object_array_loop sub type extra subtype vs b i =
    map_sum id (\<lambda>bss. (i + length (concat (map sized bss)), put_list b i (concat (map sized bss))))
      (collect (object_format fmt type extra subtype) vs)"
proof (induction vs arbitrary: b i)
  case (Cons v vs)
  have le: "length b \<le> i + 4" using Cons.prems by simp
  show ?case
  proof (cases "object_format fmt type extra subtype v")
    case (Inl e)
    then show ?thesis by (simp add: encode_object_format [OF assms le])
  next
    case (Inr bs)
    have len: "length (put_list b i (sized bs)) \<le> i + 4 + length bs"
      using Cons.prems by (simp add: length_put_list_behind)
    show ?thesis
      using Inr Cons.IH [OF len] put_list_chain [of b i "sized bs"]
      by (cases "collect (object_format fmt type extra subtype) vs")
        (simp_all add: encode_object_format [OF assms le] sized_step add.assoc)
  qed
qed simp

lemma bool_array_loop_format:
  "bool_array_loop vs b i =
     (i + length vs, put_list b i (map (\<lambda>v. Some (if v = JBool True then 1 else 0)) vs))"
  by (induction vs arbitrary: b i) auto

text \<open>The array types of a field: integers, booleans, strings, structs.\<close>

definition array_ok :: "sproto_instance \<Rightarrow> int \<Rightarrow> sproto_type option \<Rightarrow> bool" where
  "array_ok sp type subtype \<longleftrightarrow> type = SPROTO_TINTEGER \<or> type = SPROTO_TBOOLEAN \<or> subtype_ok sp type subtype"

lemma encodeArray_format:
  assumes "writes sp sub fmt" "array_ok sp type subtype" "length b \<le> i"
  shows "encodeArray left sub type extra subtype target b i =
    (if left = 0 then Inl Failed
     else map_sum id (\<lambda>bs. (int (length (sized bs)), put_list b i (sized bs))) (array_format fmt type extra subtype target))"
proof -
  let ?vs = "elements target"
  let ?run = "if type = SPROTO_TINTEGER then encodeIntegerArray extra ?vs b (i + 4)
     else if type = SPROTO_TBOOLEAN then Inr (bool_array_loop ?vs b (i + 4))
     else object_array_loop sub type extra subtype ?vs b (i + 4)"
  have le: "length b \<le> i + 4" using assms(3) by simp
  have run: "?run = map_sum id (\<lambda>bs. (i + 4 + length bs, put_list b (i + 4) bs)) (array_format fmt type extra subtype target)"
  proof -
    consider "type = SPROTO_TINTEGER" | "type = SPROTO_TBOOLEAN" "type \<noteq> SPROTO_TINTEGER"
      | "subtype_ok sp type subtype" "type \<noteq> SPROTO_TINTEGER" "type \<noteq> SPROTO_TBOOLEAN"
      using assms(2) by (auto simp: array_ok_def)
    then show ?thesis
    proof cases
      case 1
      then show ?thesis
        by (cases "collect (encode_number extra) ?vs") (simp_all add: array_format_def encodeIntegerArray_format [OF le])
    next
      case 2
      then show ?thesis by (simp add: array_format_def bool_array_loop_format)
    next
      case 3
      then show ?thesis
        by (cases "collect (object_format fmt type extra subtype) ?vs")
          (simp_all add: array_format_def object_array_loop_format [OF assms(1) 3(1) le])
    qed
  qed
  show ?thesis
    unfolding encodeArray_def Let_def run
    using sized_put [of b i] by (cases "array_format fmt type extra subtype target") (simp_all add: fillSize_put)
qed

subsection \<open>Fields\<close>

lemma length_double_bytes: "double_bytes w = Some bs \<Longrightarrow> length bs = 8"
  by (auto simp: double_bytes_def bits_to_bytes_def split: option.splits)

definition field_ok :: "sproto_instance \<Rightarrow> sproto_field \<Rightarrow> bool" where
  "field_ok sp f \<longleftrightarrow> field_wf (s_type_n sp) f \<and> f_type f \<noteq> SPROTO_TDOUBLE OR SPROTO_TARRAY"

abbreviation field_subtype :: "sproto_instance \<Rightarrow> sproto_field \<Rightarrow> sproto_type option" where
  "field_subtype sp f \<equiv> (case f_st f of None \<Rightarrow> None | Some i \<Rightarrow> type_at sp i)"

lemma field_subtype_ok: "schema_encodable sp \<Longrightarrow> field_subtype sp f = Some st \<Longrightarrow> encodable sp st"
  using type_at_mem [of sp _ st] by (auto simp: schema_encodable_def split: option.splits)

lemma field_kinds:
  assumes "field_ok sp f"
  obtains "f_type f \<in> {SPROTO_TINTEGER, SPROTO_TBOOLEAN, SPROTO_TSTRING, SPROTO_TDOUBLE, SPROTO_TSTRUCT}"
      "f_type f AND SPROTO_TARRAY = 0"
  | t where "f_type f = t OR SPROTO_TARRAY" "t \<in> {SPROTO_TINTEGER, SPROTO_TBOOLEAN, SPROTO_TSTRING, SPROTO_TSTRUCT}"
      "f_type f AND SPROTO_TARRAY \<noteq> 0" "f_type f AND NOT SPROTO_TARRAY = t"
proof -
  obtain t where t: "t \<in> {SPROTO_TINTEGER, SPROTO_TBOOLEAN, SPROTO_TSTRING, SPROTO_TDOUBLE, SPROTO_TSTRUCT}"
      "f_type f = t \<or> f_type f = t OR SPROTO_TARRAY"
    using assms unfolding field_ok_def field_wf_def by blast
  show thesis
  proof (cases "f_type f = t")
    case True
    then show thesis using t(1) by (intro that(1)) (auto simp: type_codes)
  next
    case False
    then have "f_type f = t OR SPROTO_TARRAY" using t(2) by simp
    moreover from this have "t \<noteq> SPROTO_TDOUBLE" using assms by (auto simp: field_ok_def)
    ultimately show thesis using t(1) by (intro that(2) [of t]) (auto simp: type_codes)
  qed
qed

lemma number_piece_cases:
  assumes "number_ok p"
  obtains h where "number_piece p = (h, [])" "0 < h" "snd p = 4" "int_of (fst p) < 0x7fff" "h = (int_of (fst p) + 1) * 2"
  | "number_piece p = (0, sized (dword (int_of (fst p))))" "snd p = 4" "\<not> int_of (fst p) < 0x7fff"
  | "number_piece p = (0, sized (wide (fst p)))" "snd p = 8" "is_integer (fst p) \<or> (\<exists>w. fst p = JDbl w)"
proof (cases p)
  case (Pair v sz)
  show thesis
  proof (cases "sz = 4")
    case True
    with assms Pair obtain n where "v = JNum n" "0 \<le> n" by (auto simp: number_ok_def)
    with True Pair show thesis
      by (cases "n < 0x7fff") (auto simp: number_piece_def intro: that(1) that(2))
  next
    case False
    with assms Pair show thesis by (auto simp: number_ok_def number_piece_def intro: that(3))
  qed
qed

text \<open>One field: the state after it, in terms of its piece.\<close>

lemma struct_step_format:
  assumes sub: "writes sp sub fmt" and sp: "schema_encodable sp" and f: "field_ok sp f"
    and le: "length (st_buffer s) \<le> st_dataIdx s"
  shows "struct_step sp left sub indata h f s =
    (case field_format sp left fmt indata f of
       Inl e \<Rightarrow> Inl e
     | Inr None \<Rightarrow> Inr s
     | Inr (Some (value, d)) \<Rightarrow>
         record_field h f value
           (s\<lparr>st_buffer := put_list (st_buffer s) (st_dataIdx s) d, st_dataIdx := st_dataIdx s + length d\<rparr>))"
proof -
  let ?v = "field_value indata f" and ?b = "st_buffer s" and ?i = "st_dataIdx s"
  have written: "(case Inr (Some (0, int (length (sized bs)), put_list ?b ?i (sized bs))) of Inl e \<Rightarrow> Inl e
      | Inr None \<Rightarrow> Inr s
      | Inr (Some (value, sz, b)) \<Rightarrow>
          if sz < 0 then Inl Failed
          else let s1 = s\<lparr>st_buffer := b\<rparr> in
            if sz > 0 then record_field h f value (if value = 0 then s1\<lparr>st_dataIdx := st_dataIdx s1 + nat sz\<rparr> else s1)
            else Inr s1) =
      record_field h f 0 (s\<lparr>st_buffer := put_list ?b ?i (sized bs), st_dataIdx := ?i + length (sized bs)\<rparr>)" for bs
    by (simp add: nat_add_distrib)
  show ?thesis
    using f
  proof (cases rule: field_kinds)
    case (2 t)
    have ok: "array_ok sp t (field_subtype sp f)"
      using 2(2) field_subtype_ok [OF sp] by (auto simp: array_ok_def subtype_ok_def)
    show ?thesis
      using 2 written encodeArray_format [OF sub ok le]
      by (cases "array_format fmt t (f_extra f) (field_subtype sp f) ?v")
        (simp_all add: struct_step_def encode_field_def field_format_def Let_def)
  next
    case 1
    then consider "f_type f = SPROTO_TINTEGER" | "f_type f = SPROTO_TBOOLEAN" | "f_type f = SPROTO_TDOUBLE"
      | "f_type f \<in> {SPROTO_TSTRING, SPROTO_TSTRUCT}" by auto
    then show ?thesis
    proof cases
      case int: 1
      show ?thesis
      proof (cases "left = 0 \<or> nullish ?v \<or> (\<exists>e. encode_number (f_extra f) ?v = Inl e)")
        case True
        then show ?thesis using int
          by (auto simp: struct_step_def encode_field_def field_format_def Let_def type_codes encode_plain_def
              encode_scalar_def encode_value_def)
      next
        case False
        then obtain p where p: "encode_number (f_extra f) ?v = Inr p" by (cases "encode_number (f_extra f) ?v") auto
        show ?thesis
          using encode_number_ok [OF p]
        proof (cases rule: number_piece_cases)
          case (1 hv)
          then show ?thesis using int False p
            by (cases p) (simp add: struct_step_def encode_field_def field_format_def Let_def type_codes encode_plain_def
                encode_scalar_def encode_value_def)
        next
          case 2
          then show ?thesis using int False p
            by (cases p) (simp add: struct_step_def encode_field_def field_format_def Let_def type_codes encode_plain_def
                encode_scalar_def encode_value_def encodeInteger_put)
        next
          case 3
          then show ?thesis using int False p
            by (cases p) (simp add: struct_step_def encode_field_def field_format_def Let_def type_codes encode_plain_def
                encode_scalar_def encode_value_def encodeUint64_put)
        qed
      qed
    next
      case 2
      then show ?thesis
        by (simp add: struct_step_def encode_field_def field_format_def Let_def type_codes encode_plain_def
            encode_scalar_def encode_value_def)
    next
      case dbl: 3
      show ?thesis
      proof (cases "left = 0 \<or> nullish ?v")
        case True
        then show ?thesis using dbl
          by (auto simp: struct_step_def encode_field_def field_format_def Let_def type_codes encode_plain_def encode_scalar_def)
      next
        case False
        have fmt: "field_format sp left fmt indata f = map_sum id Some (double_piece ?v)"
          using dbl False by (simp add: field_format_def Let_def type_codes)
        have enc: "encode_field sp left sub indata f ?b h ?i =
            (case ?v of
               JStr _ \<Rightarrow> Inl Coerced | JU8 _ \<Rightarrow> Inl Coerced | JArr _ \<Rightarrow> Inl Coerced
             | _ \<Rightarrow> (case doubleToBinary (dbl_of_num ?v) ?b ?i of
                   None \<Rightarrow> Inl Hangs | Some (r, d) \<Rightarrow> Inr (Some (0, r, d))))"
          using dbl False by (simp add: encode_field_def Let_def type_codes encode_plain_def encode_scalar_def
              encode_value_def)
        show ?thesis
        proof (cases "double_bytes (dbl_of_num ?v)")
          case None
          then have "doubleToBinary (dbl_of_num ?v) ?b ?i = None" by (simp add: doubleToBinary_def)
          with None show ?thesis
            by (cases ?v) (simp_all add: struct_step_def enc fmt double_piece_def)
        next
          case (Some bs)
          from doubleToBinary_put [OF Some length_double_bytes [OF Some]] Some written [of "map Some bs"]
            length_double_bytes [OF Some]
          show ?thesis
            by (cases ?v) (simp_all add: struct_step_def enc fmt double_piece_def)
        qed
      qed
    next
      case obj: 4
      have ok: "subtype_ok sp (f_type f) (field_subtype sp f)"
        using obj field_subtype_ok [OF sp] by (auto simp: subtype_ok_def)
      have le4: "length ?b \<le> ?i + 4" using le by simp
      have fmt: "field_format sp left fmt indata f =
          (if left = 0 then Inl Failed else if nullish ?v then Inr None
           else map_sum id (\<lambda>b. Some (0, sized b)) (object_format fmt (f_type f) (f_extra f) (field_subtype sp f) ?v))"
        using obj by (auto simp: field_format_def Let_def type_codes)
      have enc: "encode_field sp left sub indata f ?b h ?i =
          (if left = 0 then Inl Failed else if nullish ?v then Inr (Some (0, 0, ?b))
           else map_sum id (\<lambda>bs. Some (0, int (length (sized bs)), put_list ?b ?i (sized bs)))
             (object_format fmt (f_type f) (f_extra f) (field_subtype sp f) ?v))"
        using obj encode_object_format [OF sub ok le4, of "f_extra f" ?v] sized_put [of ?b ?i]
        by (cases "object_format fmt (f_type f) (f_extra f) (field_subtype sp f) ?v")
          (auto simp: encode_field_def Let_def type_codes encodeObject_def encode_scalar_def fillSize_put)
      show ?thesis
        using written by (cases "object_format fmt (f_type f) (f_extra f) (field_subtype sp f) ?v")
          (simp_all add: struct_step_def enc fmt)
    qed
  qed
qed

subsection \<open>Structs\<close>

text \<open>
  The array while a struct is written: the prefix, two bytes left for the count, the words so
  far, room up to the largest header, the data so far.
\<close>

definition layout :: "buf \<Rightarrow> nat \<Rightarrow> nat \<Rightarrow> int list \<Rightarrow> buf \<Rightarrow> nat \<Rightarrow> byte option" where
  "layout pre h maxn ws ds j =
     (if j < h then get_at pre j
      else if j < h + 2 then None
      else if j < h + 2 + 2 * length ws then get_at (concat (map word16 ws)) (j - (h + 2))
      else if j < h + 2 + 2 * maxn then None
      else get_at ds (j - (h + 2 + 2 * maxn)))"

definition struct_at :: "buf \<Rightarrow> nat \<Rightarrow> nat \<Rightarrow> int list \<Rightarrow> buf \<Rightarrow> struct_state \<Rightarrow> bool" where
  "struct_at pre h maxn ws ds s \<longleftrightarrow>
     st_index s = length ws \<and> length ws \<le> maxn \<and>
     st_dataIdx s = h + 2 + 2 * maxn + length ds \<and> length (st_buffer s) \<le> st_dataIdx s \<and>
     (ds \<noteq> [] \<longrightarrow> length (st_buffer s) = st_dataIdx s) \<and>
     (ws \<noteq> [] \<longrightarrow> h + 2 + 2 * length ws \<le> length (st_buffer s)) \<and>
     (\<forall>j. get_at (st_buffer s) j = layout pre h maxn ws ds j)"

lemma put_word_put: "put_word b i v = put_list b i (word16 v)"
  by (simp add: put_word_def word16_def upt_rec)

lemma get_at_word16: "get_at (word16 v) k = (if k < 2 then word16 v ! k else None)"
  by (simp add: get_at_def)

lemma struct_at_data:
  assumes "struct_at pre h maxn ws ds s"
  shows "struct_at pre h maxn ws (ds @ d)
    (s\<lparr>st_buffer := put_list (st_buffer s) (st_dataIdx s) d, st_dataIdx := st_dataIdx s + length d\<rparr>)"
proof (cases "d = []")
  case True
  with assms show ?thesis by (simp add: struct_at_def)
next
  case False
  have "get_at (put_list (st_buffer s) (st_dataIdx s) d) j = layout pre h maxn ws (ds @ d) j" for j
    using assms by (auto simp: struct_at_def get_at_put_list layout_def get_at_append, auto simp: get_at_def)
  with assms False show ?thesis
    by (auto simp: struct_at_def length_put_list)
qed

lemma struct_at_word:
  assumes "struct_at pre h maxn ws ds s" "length ws < maxn"
  shows "struct_at pre h maxn (ws @ [w]) ds
    (s\<lparr>st_buffer := put_word (st_buffer s) (h + 2 + 2 * st_index s) w, st_index := st_index s + 1\<rparr>)"
proof -
  have "get_at (put_list (st_buffer s) (h + 2 + 2 * st_index s) (word16 w)) j = layout pre h maxn (ws @ [w]) ds j" for j
    using assms by (auto simp: struct_at_def get_at_put_list layout_def get_at_append get_at_word16)
  with assms show ?thesis
    by (auto simp: struct_at_def put_word_put length_put_list)
qed

lemma struct_at_lasttag: "struct_at pre h maxn ws ds (s\<lparr>st_lasttag := t\<rparr>) = struct_at pre h maxn ws ds s"
  by (simp add: struct_at_def)

definition field_words :: "sproto_field \<Rightarrow> int \<Rightarrow> int \<Rightarrow> int list" where
  "field_words f lasttag value =
     (let gap = f_tag f - lasttag - 1 in (if gap > 0 then [(gap - 1) * 2 + 1] else []) @ [value])"

lemma record_field_at:
  assumes "struct_at pre h maxn ws ds s" "length ws + length (field_words f (st_lasttag s) value) \<le> maxn"
  shows "let gap = f_tag f - st_lasttag s - 1 in
    if gap > 0 \<and> (gap - 1) * 2 + 1 > 0xffff then record_field h f value s = Inl Failed
    else \<exists>s'. record_field h f value s = Inr s' \<and> st_lasttag s' = f_tag f \<and>
           struct_at pre h maxn (ws @ field_words f (st_lasttag s) value) ds s'"
proof -
  define gap where "gap = f_tag f - st_lasttag s - 1"
  show ?thesis
  proof (cases "gap > 0")
    case False
    then have "struct_at pre h maxn (ws @ [value]) ds
        (s\<lparr>st_buffer := put_word (st_buffer s) (h + 2 + 2 * st_index s) value, st_index := st_index s + 1\<rparr>)"
      using assms by (intro struct_at_word) (auto simp: field_words_def gap_def)
    with False show ?thesis
      by (auto simp: record_field_def Let_def field_words_def struct_at_lasttag simp flip: gap_def)
  next
    case True
    let ?s1 = "s\<lparr>st_buffer := put_word (st_buffer s) (h + 2 + 2 * st_index s) ((gap - 1) * 2 + 1), st_index := st_index s + 1\<rparr>"
    have words: "field_words f (st_lasttag s) value = [(gap - 1) * 2 + 1, value]"
      using True by (simp add: field_words_def Let_def flip: gap_def)
    have s1: "struct_at pre h maxn (ws @ [(gap - 1) * 2 + 1]) ds ?s1"
      using assms words by (intro struct_at_word) auto
    have "struct_at pre h maxn ((ws @ [(gap - 1) * 2 + 1]) @ [value]) ds
        (?s1\<lparr>st_buffer := put_word (st_buffer ?s1) (h + 2 + 2 * st_index ?s1) value, st_index := st_index ?s1 + 1\<rparr>)"
      using assms words by (intro struct_at_word [OF s1]) auto
    with True show ?thesis
      unfolding words by (auto simp: record_field_def Let_def struct_at_lasttag simp flip: gap_def)
  qed
qed

text \<open>The room for the header suffices: skipping a field never needs more words later.\<close>

lemma gaps_skip: "gaps last' fs \<le> Suc (gaps t fs)"
  by (cases fs) auto

lemma struct_loop_format:
  assumes sub: "writes sp sub fmt" and sp: "schema_encodable sp"
  shows "struct_at pre h maxn ws ds s \<Longrightarrow> \<forall>f \<in> set fs. field_ok sp f \<Longrightarrow>
    length ws + length fs + gaps (st_lasttag s) fs \<le> maxn \<Longrightarrow>
    (case fields_format sp left fmt indata fs (st_lasttag s) of
       Inl e \<Rightarrow> struct_loop_enc sp left sub indata h fs s = Inl e
     | Inr (ws', ds') \<Rightarrow> \<exists>s'. struct_loop_enc sp left sub indata h fs s = Inr s' \<and>
         struct_at pre h maxn (ws @ ws') (ds @ ds') s')"
proof (induction fs arbitrary: ws ds s)
  case (Cons f fs)
  have le: "length (st_buffer s) \<le> st_dataIdx s" and f: "field_ok sp f"
    using Cons.prems by (auto simp: struct_at_def)
  note step = struct_step_format [OF sub sp f le, of left indata h]
  show ?case
  proof (cases "field_format sp left fmt indata f")
    case (Inl e)
    then show ?thesis using step by simp
  next
    case fmt: (Inr r)
    show ?thesis
    proof (cases r)
      case None
      have "length ws + length fs + gaps (st_lasttag s) fs \<le> maxn"
        using Cons.prems(3) gaps_skip [of "st_lasttag s" fs "f_tag f"] by (auto split: if_splits)
      moreover have "struct_loop_enc sp left sub indata h (f # fs) s = struct_loop_enc sp left sub indata h fs s"
        using step by (simp add: fmt None)
      ultimately show ?thesis
        using Cons.IH [OF Cons.prems(1)] Cons.prems(2)
        by (cases "fields_format sp left fmt indata fs (st_lasttag s)") (auto simp: fmt None)
    next
      case (Some piece)
      obtain val d where piece: "piece = (val, d)" by (cases piece)
      let ?s1 = "s\<lparr>st_buffer := put_list (st_buffer s) (st_dataIdx s) d, st_dataIdx := st_dataIdx s + length d\<rparr>"
      define gap where "gap = f_tag f - st_lasttag s - 1"
      have words: "field_words f (st_lasttag s) val = (if gap > 0 then [(gap - 1) * 2 + 1] else []) @ [val]"
        by (simp add: field_words_def gap_def)
      have room: "length ws + length (field_words f (st_lasttag s) val) + length fs + gaps (f_tag f) fs \<le> maxn"
        using Cons.prems(3) by (auto simp: words gap_def split: if_splits)
      have rec: "if gap > 0 \<and> (gap - 1) * 2 + 1 > 0xffff then record_field h f val ?s1 = Inl Failed
        else \<exists>s'. record_field h f val ?s1 = Inr s' \<and> st_lasttag s' = f_tag f \<and>
           struct_at pre h maxn (ws @ field_words f (st_lasttag s) val) (ds @ d) s'"
      proof -
        have lt: "st_lasttag ?s1 = st_lasttag s" by simp
        have "length ws + length (field_words f (st_lasttag ?s1) val) \<le> maxn" using room by simp
        from record_field_at [OF struct_at_data [OF Cons.prems(1)] this]
        show ?thesis unfolding lt Let_def gap_def .
      qed
      have run: "struct_loop_enc sp left sub indata h (f # fs) s =
          (case record_field h f val ?s1 of Inl e \<Rightarrow> Inl e | Inr s' \<Rightarrow> struct_loop_enc sp left sub indata h fs s')"
        using step by (simp add: fmt Some piece)
      have fields: "fields_format sp left fmt indata (f # fs) (st_lasttag s) =
          (if gap > 0 \<and> (gap - 1) * 2 + 1 > 0xffff then Inl Failed
           else map_sum id (\<lambda>(ws', ds'). (field_words f (st_lasttag s) val @ ws', d @ ds'))
              (fields_format sp left fmt indata fs (f_tag f)))"
        by (simp add: fmt Some piece Let_def gap_def words)
      show ?thesis
      proof (cases "gap > 0 \<and> (gap - 1) * 2 + 1 > 0xffff")
        case True
        then show ?thesis using rec run unfolding fields by simp
      next
        case False
        then obtain s' where s': "record_field h f val ?s1 = Inr s'" "st_lasttag s' = f_tag f"
            "struct_at pre h maxn (ws @ field_words f (st_lasttag s) val) (ds @ d) s'"
          using rec by auto
        have "case fields_format sp left fmt indata fs (st_lasttag s') of
            Inl e \<Rightarrow> struct_loop_enc sp left sub indata h fs s' = Inl e
          | Inr (ws', ds') \<Rightarrow> \<exists>s''. struct_loop_enc sp left sub indata h fs s' = Inr s'' \<and>
              struct_at pre h maxn ((ws @ field_words f (st_lasttag s) val) @ ws') ((ds @ d) @ ds') s''"
          using Cons.prems(2) room s' by (intro Cons.IH) simp_all
        then show ?thesis
          using False run s' unfolding fields
          by (cases "fields_format sp left fmt indata fs (f_tag f)") (auto simp del: struct_loop_enc.simps)
      qed
    qed
  qed
qed simp

lemma struct_close_format:
  assumes at: "struct_at pre h maxn ws ds s" and pre: "length pre \<le> h"
  shows "struct_close h maxn s = (int (length (struct_bytes ws ds)), put_list pre h (struct_bytes ws ds))"
proof -
  let ?b = "put_word (st_buffer s) h (int (length ws))" and ?to = "h + 2 + 2 * length ws"
  have idx: "st_index s = length ws" "length ws \<le> maxn" "st_dataIdx s = h + 2 + 2 * maxn + length ds"
    using at by (simp_all add: struct_at_def)
  have len: "?to \<le> length ?b" "ds \<noteq> [] \<Longrightarrow> length ?b = h + 2 + 2 * maxn + length ds" "length ?b \<le> h + 2 + 2 * maxn + length ds"
    using at by (auto simp: struct_at_def put_word_put length_put_list)
  have cells: "get_at ?b j = (if h \<le> j \<and> j < h + 2 then get_at (word16 (int (length ws))) (j - h) else layout pre h maxn ws ds j)" for j
    using at by (auto simp: struct_at_def put_word_put get_at_put_list get_at_word16)
  have bytes: "put_list pre h (struct_bytes ws ds) = pad pre h @ struct_bytes ws ds"
    using pre by (intro put_list_behind) (simp_all add: struct_bytes_def)
  show ?thesis
  proof (cases "length ws = maxn")
    case True
    have "?b = pad pre h @ struct_bytes ws ds"
    proof (rule buf_eqI)
      show "length ?b = length (pad pre h @ struct_bytes ws ds)"
        using len pre True by (cases "ds = []") (simp_all add: struct_bytes_def)
      show "get_at ?b j = get_at (pad pre h @ struct_bytes ws ds) j" for j
        unfolding cells using pre True by (auto simp: layout_def struct_bytes_def get_at_append)
    qed
    with True idx bytes show ?thesis by (simp add: struct_close_def Let_def struct_bytes_def)
  next
    case False
    have v: "take (length ds) (drop (h + 2 + 2 * maxn) ?b) = ds"
    proof (cases "ds = []")
      case False
      have "get_at (take (length ds) (drop (h + 2 + 2 * maxn) ?b)) j = get_at ds j" if "j < length ds" for j
      proof -
        have "get_at (take (length ds) (drop (h + 2 + 2 * maxn) ?b)) j = get_at ?b (h + 2 + 2 * maxn + j)"
          using that len(2) [OF False] by (simp add: get_at_def)
        also have "\<dots> = get_at ds j" unfolding cells using idx by (simp add: layout_def)
        finally show ?thesis .
      qed
      with len(2) [OF False] show ?thesis by (intro buf_eqI) auto
    qed simp
    have "take (?to + length ds) (put_list ?b ?to ds) = pad pre h @ struct_bytes ws ds"
    proof (rule buf_eqI)
      show "length (take (?to + length ds) (put_list ?b ?to ds)) = length (pad pre h @ struct_bytes ws ds)"
        using len(1) pre by (auto simp: length_put_list struct_bytes_def)
      fix j assume "j < length (take (?to + length ds) (put_list ?b ?to ds))"
      then have j: "j < ?to + length ds" by simp
      then have "get_at (take (?to + length ds) (put_list ?b ?to ds)) j = get_at (put_list ?b ?to ds) j"
        by (simp add: get_at_def)
      also have "\<dots> = get_at (pad pre h @ struct_bytes ws ds) j"
        unfolding get_at_put_list cells using pre j
        by (auto simp: layout_def struct_bytes_def get_at_append, auto simp: get_at_def)
      finally show "get_at (take (?to + length ds) (put_list ?b ?to ds)) j = get_at (pad pre h @ struct_bytes ws ds) j" .
    qed
    moreover have d: "h + (2 + maxn * 2) = h + 2 + 2 * maxn" "h + 2 + length ws * 2 = ?to"
      "st_dataIdx s - (h + 2 + 2 * maxn) = length ds" using idx by simp_all
    ultimately show ?thesis
      using False bytes unfolding struct_close_def Let_def idx(1) unfolding d unfolding v
      by (simp add: struct_bytes_def)
  qed
qed

lemma encodable_fields:
  assumes "encodable sp st"
  shows "\<forall>f \<in> set (type_fields st). field_ok sp f"
    and "length (type_fields st) + gaps (-1) (type_fields st) = t_maxn st"
  using assms by (auto simp: encodable_def type_wf_def type_fields_def field_ok_def fields_wf_def split: option.splits)

lemma encode_struct_format:
  assumes sub: "writes sp sub fmt" and sp: "schema_encodable sp" and st: "encodable sp st" and b: "length b \<le> i"
  shows "encode_struct sp left sub st indata b i =
    map_sum id (\<lambda>bs. (int (length bs), put_list b i bs)) (struct_format sp left fmt st indata)"
proof -
  let ?s = "\<lparr>st_buffer = b, st_dataIdx = i + (2 + t_maxn st * 2), st_index = 0, st_lasttag = -1\<rparr>"
  have "struct_at b i (t_maxn st) [] [] ?s"
    using b by (auto simp: struct_at_def layout_def, auto simp: get_at_def)
  from struct_loop_format [OF sub sp this encodable_fields(1) [OF st], of left indata] encodable_fields(2) [OF st]
  show ?thesis
    by (cases "fields_format sp left fmt indata (type_fields st) (-1)")
      (auto simp: encode_struct_def struct_format_def struct_close_format [OF _ b])
qed

theorem sprotoEncode_writes:
  assumes "schema_encodable sp"
  shows "writes sp (sprotoEncode sp left) (sproto_format sp left)"
proof (induction left)
  case 0
  have "writes sp (\<lambda>_ _ _ _. Inl Failed) (\<lambda>_ _. Inl Failed)" by (simp add: writes_def)
  from encode_struct_format [OF this assms] show ?case by (simp add: writes_def)
next
  case (Suc left)
  from encode_struct_format [OF Suc assms] show ?case by (simp add: writes_def)
qed

end
