(* ===== verification/SprotoDecode.thy ===== *)
theory SprotoDecode
  imports SprotoQuery SprotoDouble
begin

section \<open>sproto: decoding\<close>

text \<open>
  \<open>decodeArrayObject\<close>, \<open>decodeArray\<close>, \<open>sprotoDecode\<close> and the callback \<open>decode\<close> of \<open>sproto.ts\<close>. The
  callback stores into the result object of the struct being read, \<open>ud.result\<close>, and keeps in
  \<open>array_tag\<close> which array it is filling. A nested struct is strictly shorter than the struct
  around it, so fuel equal to the size is enough (\<open>sprotoDecode_fuel\<close>). \<open>alert\<close> is taken as an
  effect that returns.
\<close>

record user_data =
  ud_result :: jsobj
  ud_array_tag :: "jsstr option"

definition new_ud :: user_data where
  "new_ud = \<lparr>ud_result = [], ud_array_tag = None\<rparr>"

text \<open>A decoder fails with a negative result, throws, or is done.\<close>

datatype 'a dec = DOk 'a | DFail | DThrow

fun bind_dec :: "'a dec \<Rightarrow> ('a \<Rightarrow> 'b dec) \<Rightarrow> 'b dec" where
  "bind_dec (DOk x) f = f x"
| "bind_dec DFail f = DFail"
| "bind_dec DThrow f = DThrow"

text \<open>What the reader hands to the callback: \<open>args.value\<close> as a value or as a stretch of the data.\<close>

datatype cb_arg = ArgValue jsval | ArgBytes buf int

record cb_args =
  a_tagname :: jsstr
  a_type :: int
  a_subtype :: "sproto_type option"
  a_index :: int
  a_mainindex :: int
  a_extra :: int

type_synonym struct_decoder = "sproto_type option \<Rightarrow> buf \<Rightarrow> int \<Rightarrow> (int \<times> jsobj) dec"

subsection \<open>The callback\<close>

definition bytes2string :: "buf \<Rightarrow> jsstr" where
  "bytes2string arr = map (\<lambda>b. case b of None \<Rightarrow> 0 | Some x \<Rightarrow> ucast x) (takeWhile (\<lambda>b. b \<noteq> None) arr)"

definition js_byte :: "byte option \<Rightarrow> jsval" where
  "js_byte b = (case b of None \<Rightarrow> JUndef | Some x \<Rightarrow> JNum (uint x))"

text \<open>\<open>Number(v) / args.extra\<close>\<close>

definition fixed_unscale :: "jsval \<Rightarrow> int \<Rightarrow> jsval" where
  "fixed_unscale v extra = num_of_dbl (dbl_arith (/) (dbl_of_num v) (dbl_of (of_int extra)))"

definition set_index :: "jsval list \<Rightarrow> nat \<Rightarrow> jsval \<Rightarrow> jsval list" where
  "set_index xs i v = (xs @ replicate (Suc i - length xs) JUndef)[i := v]"

text \<open>The value of the callback's \<open>switch\<close>. A struct must be read to its last byte.\<close>

definition decode_value :: "struct_decoder \<Rightarrow> cb_args \<Rightarrow> cb_arg \<Rightarrow> jsval dec" where
  "decode_value sub args arg =
     (if a_type args = SPROTO_TINTEGER then
        (case arg of
           ArgValue v \<Rightarrow> DOk (if a_extra args \<noteq> 0 then fixed_unscale v (a_extra args) else v)
         | ArgBytes _ _ \<Rightarrow> DFail)
      else if a_type args = SPROTO_TDOUBLE then
        (case arg of ArgValue v \<Rightarrow> DOk v | ArgBytes _ _ \<Rightarrow> DFail)
      else if a_type args = SPROTO_TBOOLEAN then
        DOk (if arg = ArgValue (JNum 1) then JBool True
             else if arg = ArgValue (JNum 0) then JBool False else JNull)
      else if a_type args = SPROTO_TSTRING then
        (case arg of
           ArgBytes b len \<Rightarrow>
             let arr = map (get_at b) [0..<nat len] in
             DOk (if a_extra args \<noteq> 0 then JArr (map js_byte arr) else JStr (bytes2string arr))
         | ArgValue v \<Rightarrow> DFail)
      else if a_type args = SPROTO_TSTRUCT then
        (case arg of
           ArgBytes b len \<Rightarrow>
             bind_dec (sub (a_subtype args) b len) (\<lambda>(r, res). if r = len then DOk (JObj res) else DFail)
         | ArgValue v \<Rightarrow> DFail)
      else DOk JUndef)"

text \<open>The first element of an array makes the array; index -1 is the empty array.\<close>

definition decode_cb :: "struct_decoder \<Rightarrow> cb_args \<Rightarrow> cb_arg \<Rightarrow> user_data \<Rightarrow> user_data dec" where
  "decode_cb sub args arg ud0 =
     (let fresh = a_index args \<noteq> 0 \<and> Some (a_tagname args) \<noteq> ud_array_tag ud0;
          ud = (if fresh
                then ud0\<lparr>ud_array_tag := Some (a_tagname args),
                         ud_result := obj_put (ud_result ud0) (a_tagname args) (JArr [])\<rparr>
                else ud0)
      in if fresh \<and> a_index args < 0 then DOk ud
         else
           bind_dec (decode_value sub args arg) (\<lambda>value.
             if a_index args > 0 then
               case prop_of (JObj (ud_result ud)) (a_tagname args) of
                 JArr xs \<Rightarrow>
                   DOk (ud\<lparr>ud_result := obj_put (ud_result ud) (a_tagname args)
                              (JArr (set_index xs (nat (a_index args - 1)) value))\<rparr>)
               | _ \<Rightarrow> DThrow
             else DOk (ud\<lparr>ud_result := obj_put (ud_result ud) (a_tagname args) value\<rparr>)))"

subsection \<open>Arrays\<close>

function decodeArrayObject ::
  "struct_decoder \<Rightarrow> cb_args \<Rightarrow> buf \<Rightarrow> int \<Rightarrow> int \<Rightarrow> user_data \<Rightarrow> user_data dec" where
  "decodeArrayObject sub args stream sz index ud =
     (if sz > 0 then
        if sz < 4 then DFail
        else
          let hsz = toDword stream; stream1 = drop 4 stream; sz1 = sz - 4 in
          if hsz > sz1 then DFail
          else
            bind_dec (decode_cb sub (args\<lparr>a_index := index\<rparr>) (ArgBytes stream1 hsz) ud) (\<lambda>ud'.
              decodeArrayObject sub args (drop (nat hsz) stream1) (sz1 - hsz) (index + 1) ud')
      else DOk ud)"
  by pat_completeness auto
termination
proof (relation "measure (\<lambda>(sub, args, stream, sz, index, ud). nat sz)", goal_cases)
  case (2 sub args stream sz index ud hsz stream1 sz1 x)
  moreover have "- toDword stream < 4" using toDword_nonneg [of stream] by linarith
  ultimately show ?case by simp
qed simp

declare decodeArrayObject.simps [simp del]

text \<open>The callbacks of an array of plain values, with the indices 1, 2, \<dots>\<close>

fun feed :: "struct_decoder \<Rightarrow> cb_args \<Rightarrow> int \<Rightarrow> jsval list \<Rightarrow> user_data \<Rightarrow> user_data dec" where
  "feed sub args index [] ud = DOk ud"
| "feed sub args index (v # vs) ud =
     bind_dec (decode_cb sub (args\<lparr>a_index := index\<rparr>) (ArgValue v) ud) (\<lambda>ud'.
       feed sub args (index + 1) vs ud')"

definition decodeArray :: "struct_decoder \<Rightarrow> cb_args \<Rightarrow> buf \<Rightarrow> user_data \<Rightarrow> user_data dec" where
  "decodeArray sub args stream0 ud =
     (let sz = toDword stream0; stream = drop 4 stream0 in
      if sz = 0 then
        (case decode_cb sub (args\<lparr>a_index := -1\<rparr>)
            (if a_type args = SPROTO_TSTRING \<or> a_type args = SPROTO_TSTRUCT then ArgBytes [] 0 else ArgValue JNull) ud of
           DOk ud' \<Rightarrow> DOk ud' | DFail \<Rightarrow> DOk ud | DThrow \<Rightarrow> DThrow)
      else if a_type args = SPROTO_TINTEGER then
        let len = get_at stream 0; stream1 = drop 1 stream; remainingSz = sz - 1 in
        if len = Some 4 then
          if remainingSz mod 4 \<noteq> 0 then DFail
          else feed sub args 1 (map (\<lambda>i. JNum (expand64 (toDword (drop (i * 4) stream1))))
                 [0..<nat (remainingSz div 4)]) ud
        else if len = Some 8 then
          if remainingSz mod 8 \<noteq> 0 then DFail
          else feed sub args 1 (map (\<lambda>i. int64 (toDword (drop (i * 8) stream1)) (toDword (drop (i * 8 + 4) stream1)))
                 [0..<nat (remainingSz div 8)]) ud
        else DFail
      else if a_type args = SPROTO_TBOOLEAN then
        feed sub args 1 (map (\<lambda>i. js_byte (get_at stream i)) [0..<nat sz]) ud
      else if a_type args = SPROTO_TSTRING \<or> a_type args = SPROTO_TSTRUCT then
        decodeArrayObject sub args stream sz 1 ud
      else DFail)"

subsection \<open>Structs\<close>

text \<open>A field whose value stands in the data part, and one whose value stands in the header.\<close>

definition decode_data :: "struct_decoder \<Rightarrow> sproto_field \<Rightarrow> cb_args \<Rightarrow> buf \<Rightarrow> user_data \<Rightarrow> user_data dec" where
  "decode_data sub f args currentdata ud =
     (let sz = toDword currentdata in
      if f_type f AND SPROTO_TARRAY \<noteq> 0 then decodeArray sub args currentdata ud
      else if f_type f = SPROTO_TDOUBLE then
        if sz = 8 then decode_cb sub args (ArgValue (binaryToDouble (take 8 (drop 4 currentdata)))) ud else DFail
      else if f_type f = SPROTO_TINTEGER then
        if sz = 4 then
          decode_cb sub args (ArgValue (JNum (expand64 (toDword (drop 4 currentdata))))) ud
        else if sz = 8 then
          decode_cb sub args
            (ArgValue (int64 (toDword (drop 4 currentdata)) (toDword (drop 8 currentdata)))) ud
        else DFail
      else if f_type f = SPROTO_TSTRING \<or> f_type f = SPROTO_TSTRUCT then
        decode_cb sub args (ArgBytes (drop 4 currentdata) sz) ud
      else DFail)"

definition decode_header :: "struct_decoder \<Rightarrow> sproto_field \<Rightarrow> cb_args \<Rightarrow> int \<Rightarrow> user_data \<Rightarrow> user_data dec" where
  "decode_header sub f args value ud =
     (if f_type f \<noteq> SPROTO_TINTEGER \<and> f_type f \<noteq> SPROTO_TBOOLEAN then DFail
      else decode_cb sub args (ArgValue (JNum value)) ud)"

definition args_of :: "sproto_instance \<Rightarrow> sproto_field \<Rightarrow> cb_args" where
  "args_of sp f =
     \<lparr>a_tagname = (case f_name f of None \<Rightarrow> js ''null'' | Some n \<Rightarrow> n),
      a_type = f_type f AND NOT SPROTO_TARRAY,
      a_subtype = (case f_st f of None \<Rightarrow> None | Some i \<Rightarrow> type_at sp i),
      a_index = 0, a_mainindex = f_key f, a_extra = f_extra f\<rparr>"

text \<open>The field with the tag; reading a field of no type, or of \<open>undefined\<close>, throws.\<close>

definition find_field :: "sproto_type option \<Rightarrow> int \<Rightarrow> find_result" where
  "find_field st tag = (case st of None \<Rightarrow> FieldThrows | Some t \<Rightarrow> findTag t tag)"

fun fields_loop_dec ::
  "sproto_instance \<Rightarrow> struct_decoder \<Rightarrow> sproto_type option \<Rightarrow> buf \<Rightarrow> nat \<Rightarrow> nat \<Rightarrow> int \<Rightarrow> buf \<Rightarrow> int \<Rightarrow> user_data \<Rightarrow>
     (int \<times> user_data) dec" where
  "fields_loop_dec sp sub st stream i 0 tag datastream left ud = DOk (left, ud)"
| "fields_loop_dec sp sub st stream i (Suc k) tag0 datastream left ud =
     (let word = toWord (drop (i * 2) stream); tag = tag0 + 1 in
      if word mod 2 \<noteq> 0 then
        fields_loop_dec sp sub st stream (Suc i) k (tag + word div 2) datastream left ud
      else
        let value = word div 2 - 1; sz = toDword datastream in
        if value < 0 \<and> (left < 4 \<or> left < sz + 4) then DFail
        else
          let datastream1 = (if value < 0 then drop (nat (sz + 4)) datastream else datastream);
              size1 = (if value < 0 then left - (sz + 4) else left)
          in case find_field st tag of
               NoField \<Rightarrow> fields_loop_dec sp sub st stream (Suc i) k tag datastream1 size1 ud
             | Field f \<Rightarrow>
                 bind_dec
                   (if value < 0 then decode_data sub f (args_of sp f) datastream ud
                    else decode_header sub f (args_of sp f) value ud)
                   (\<lambda>ud'. fields_loop_dec sp sub st stream (Suc i) k tag datastream1 size1 ud')
             | _ \<Rightarrow> DThrow)"

definition decode_struct :: "sproto_instance \<Rightarrow> struct_decoder \<Rightarrow> struct_decoder" where
  "decode_struct sp sub st data left =
     (if left < 2 then DFail
      else
        let fn = toWord data; stream = drop 2 data; size1 = left - 2 in
        if size1 < fn * 2 then DFail
        else
          bind_dec
            (fields_loop_dec sp sub st stream 0 (nat fn) (-1) (drop (nat (fn * 2)) stream) (size1 - fn * 2) new_ud)
            (\<lambda>(rest, ud). DOk (left - rest, ud_result ud)))"

fun sprotoDecode :: "sproto_instance \<Rightarrow> nat \<Rightarrow> struct_decoder" where
  "sprotoDecode sp 0 st data left = decode_struct sp (\<lambda>_ _ _. DFail) st data left"
| "sprotoDecode sp (Suc fuel) st data left = decode_struct sp (sprotoDecode sp fuel) st data left"

text \<open>\<open>sp.decode\<close> (\<open>None\<close>: \<open>null\<close>) and \<open>sp.objlen\<close>.\<close>

definition decode_all :: "sproto_instance \<Rightarrow> sproto_type option \<Rightarrow> buf \<Rightarrow> (int \<times> jsobj) dec" where
  "decode_all sp st inbuf = sprotoDecode sp (length inbuf) st inbuf (int (length inbuf))"

definition api_decode :: "sproto_instance \<Rightarrow> sproto_type option \<Rightarrow> buf \<Rightarrow> jsobj option dec" where
  "api_decode sp st inbuf =
     (case decode_all sp st inbuf of DOk (r, res) \<Rightarrow> DOk (Some res) | DFail \<Rightarrow> DOk None | DThrow \<Rightarrow> DThrow)"

definition api_objlen :: "sproto_instance \<Rightarrow> sproto_type option \<Rightarrow> buf \<Rightarrow> int dec" where
  "api_objlen sp st inbuf =
     (case decode_all sp st inbuf of DOk (r, res) \<Rightarrow> DOk r | DFail \<Rightarrow> DOk (-1) | DThrow \<Rightarrow> DThrow)"

subsection \<open>The fuel is enough\<close>

definition agree_below :: "int \<Rightarrow> struct_decoder \<Rightarrow> struct_decoder \<Rightarrow> bool" where
  "agree_below n sub sub' \<longleftrightarrow> (\<forall>st b len. len < n \<longrightarrow> sub st b len = sub' st b len)"

lemma decode_value_cong:
  assumes "agree_below n sub sub'" "\<And>b len. arg = ArgBytes b len \<Longrightarrow> len < n"
  shows "decode_value sub args arg = decode_value sub' args arg"
  using assms by (auto simp: decode_value_def agree_below_def split: cb_arg.split)

lemma decode_cb_cong:
  assumes "agree_below n sub sub'" "\<And>b len. arg = ArgBytes b len \<Longrightarrow> len < n"
  shows "decode_cb sub args arg ud = decode_cb sub' args arg ud"
proof -
  have "decode_value sub args arg = decode_value sub' args arg" by (rule decode_value_cong [OF assms])
  then show ?thesis by (simp add: decode_cb_def Let_def)
qed

lemma decode_cb_value_cong:
  "agree_below n sub sub' \<Longrightarrow> decode_cb sub args (ArgValue v) ud = decode_cb sub' args (ArgValue v) ud"
  by (rule decode_cb_cong) auto

lemma bind_dec_cong: "m = m' \<Longrightarrow> (\<And>x. m' = DOk x \<Longrightarrow> f x = g x) \<Longrightarrow> bind_dec m f = bind_dec m' g"
  by (cases m') auto

lemma decodeArrayObject_cong:
  assumes "agree_below n sub sub'" and "sz \<le> n"
  shows "decodeArrayObject sub args stream sz index ud = decodeArrayObject sub' args stream sz index ud"
  using assms(2)
proof (induction "nat sz" arbitrary: stream sz index ud rule: less_induct)
  case less
  show ?case
  proof (cases "0 < sz \<and> \<not> sz < 4 \<and> \<not> toDword stream > sz - 4")
    case True
    have "decode_cb sub (args\<lparr>a_index := index\<rparr>) (ArgBytes (drop 4 stream) (toDword stream)) ud =
        decode_cb sub' (args\<lparr>a_index := index\<rparr>) (ArgBytes (drop 4 stream) (toDword stream)) ud"
      using True less.prems by (intro decode_cb_cong [OF assms(1)]) auto
    moreover have "nat (sz - 4 - toDword stream) < nat sz" "sz - 4 - toDword stream \<le> n"
      using True toDword_nonneg [of stream] less.prems by auto
    note less.hyps [OF this]
    ultimately show ?thesis
      using True by (subst (1 2) decodeArrayObject.simps) (auto simp: Let_def intro!: bind_dec_cong)
  next
    case False
    then show ?thesis by (subst (1 2) decodeArrayObject.simps) (auto simp: Let_def)
  qed
qed

lemma feed_cong: "agree_below n sub sub' \<Longrightarrow> feed sub args index vs ud = feed sub' args index vs ud"
  by (induction vs arbitrary: index ud) (auto intro!: bind_dec_cong decode_cb_cong)

lemma decodeArray_cong:
  assumes "agree_below n sub sub'" "toDword stream \<le> n" "0 < n"
  shows "decodeArray sub args stream ud = decodeArray sub' args stream ud"
proof -
  have "decode_cb sub a (if P then ArgBytes [] 0 else ArgValue JNull) ud =
      decode_cb sub' a (if P then ArgBytes [] 0 else ArgValue JNull) ud" for a P
    using assms(1,3) by (intro decode_cb_cong) (auto split: if_splits)
  with assms(1,2) show ?thesis
    by (simp add: decodeArray_def Let_def decodeArrayObject_cong [OF assms(1,2)] feed_cong [OF assms(1)])
qed

lemma decode_data_cong:
  assumes "agree_below n sub sub'" "toDword b < n"
  shows "decode_data sub f args b ud = decode_data sub' f args b ud"
proof -
  have "decode_cb sub args (ArgBytes (drop 4 b) (toDword b)) ud = decode_cb sub' args (ArgBytes (drop 4 b) (toDword b)) ud"
    using assms(2) by (intro decode_cb_cong [OF assms(1)]) auto
  moreover have "decodeArray sub args b ud = decodeArray sub' args b ud"
    using assms(2) toDword_nonneg [of b] by (intro decodeArray_cong [OF assms(1)]) linarith+
  ultimately show ?thesis
    by (simp add: decode_data_def Let_def decode_cb_value_cong [OF assms(1)])
qed

lemma fields_loop_dec_cong:
  assumes "agree_below n sub sub'"
  shows "left \<le> n \<Longrightarrow> fields_loop_dec sp sub st stream i k tag ds left ud =
    fields_loop_dec sp sub' st stream i k tag ds left ud"
proof (induction k arbitrary: i tag ds left ud)
  case (Suc k)
  have data: "decode_data sub f a ds ud' = decode_data sub' f a ds ud'"
    if "\<not> (left < 4 \<or> left < toDword ds + 4)" for f a ud'
    using that Suc.prems by (intro decode_data_cong [OF assms]) linarith
  have hdr: "decode_header sub f a v ud' = decode_header sub' f a v ud'" for f a v ud'
    by (simp add: decode_header_def decode_cb_value_cong [OF assms])
  have "left - (toDword ds + 4) \<le> n" using Suc.prems toDword_nonneg [of ds] by linarith
  then show ?case
    using Suc data hdr by (auto simp: Let_def split: find_result.split intro!: bind_dec_cong)
qed simp

lemma decode_struct_cong:
  assumes "agree_below len sub sub'"
  shows "decode_struct sp sub st data len = decode_struct sp sub' st data len"
proof -
  have "len - 2 - toWord data * 2 \<le> len" using toWord_nonneg [of data] by linarith
  from fields_loop_dec_cong [OF assms this] show ?thesis by (simp add: decode_struct_def Let_def)
qed

text \<open>More fuel than the size changes nothing.\<close>

lemma sprotoDecode_fuel:
  "len \<le> int fuel \<Longrightarrow> len \<le> int fuel' \<Longrightarrow> sprotoDecode sp fuel st data len = sprotoDecode sp fuel' st data len"
proof (induction fuel arbitrary: fuel' st data len)
  case 0
  then have "len < 2" by simp
  then show ?case by (cases fuel') (simp_all add: decode_struct_def)
next
  case (Suc fuel)
  show ?case
  proof (cases fuel')
    case 0
    then have "len < 2" using Suc.prems by simp
    then show ?thesis using 0 by (simp add: decode_struct_def)
  next
    case (Suc m)
    have "agree_below len (sprotoDecode sp fuel) (sprotoDecode sp m)"
      unfolding agree_below_def using Suc.IH Suc.prems \<open>fuel' = Suc m\<close> by auto
    then show ?thesis using decode_struct_cong Suc by simp
  qed
qed

end
