(* ===== verification/SprotoDecode_Correct.thy ===== *)
theory SprotoDecode_Correct
  imports SprotoEncode_Correct SprotoDecode
begin

section \<open>sproto: the decoder reads the format back\<close>

text \<open>
  Which values fit a type (\<open>object_ok\<close>), what is read back of them (\<open>read_back\<close>), and that decoding
  the format of a fitting value gives just that. The lemmas follow the decoder: words, single
  values, arrays, fields, structs.
\<close>

subsection \<open>Values that fit, and what is read back\<close>

text \<open>
  A scalar integer comes back as a \<open>number\<close> if it fits 32 bits or is not negative and safe. In an
  array with an element beyond 32 bits all elements take 8 bytes, and then every negative one
  comes back as a \<open>bigint\<close>.
\<close>

definition int32 :: "int \<Rightarrow> bool" where
  "int32 n \<longleftrightarrow> - (2 ^ 31) \<le> n \<and> n < 2 ^ 31"

definition read_wide :: "int \<Rightarrow> jsval" where
  "read_wide n = (if 0 \<le> n \<and> n \<le> 9007199254740991 then JNum n else JBig n)"

definition read_int :: "int \<Rightarrow> jsval" where
  "read_int n = (if int32 n then JNum n else read_wide n)"

definition integer_ok :: "jsval \<Rightarrow> bool" where
  "integer_ok v \<longleftrightarrow> is_integer v \<and> - (2 ^ 63) \<le> int_of v \<and> int_of v < 2 ^ 63"

definition double_ok :: "jsval \<Rightarrow> bool" where
  "double_ok v \<longleftrightarrow>
     (case v of JNum _ \<Rightarrow> True | JDbl _ \<Rightarrow> True | _ \<Rightarrow> False) \<and>
     (let w = dbl_of_num v in dbl_finite w \<and> w \<noteq> 0x8000000000000000 \<and> num_of_dbl w = v)"

text \<open>Binary fields take byte arrays; they come back as arrays of numbers.\<close>

definition binary_ok :: "jsval \<Rightarrow> bool" where
  "binary_ok v = (case v of JU8 bs \<Rightarrow> True | JArr vs \<Rightarrow> list_all (\<lambda>e. case e of JNum n \<Rightarrow> 0 \<le> n \<and> n < 256 | _ \<Rightarrow> False) vs | _ \<Rightarrow> False)"

definition read_binary :: "jsval \<Rightarrow> jsval" where
  "read_binary v = (case v of JU8 bs \<Rightarrow> JArr (map (\<lambda>b. JNum (uint b)) bs) | _ \<Rightarrow> v)"

definition text_ok :: "jsval \<Rightarrow> bool" where
  "text_ok v = (case v of JStr s \<Rightarrow> list_all (\<lambda>c. c < 256) s | _ \<Rightarrow> False)"

definition value_ok :: "(sproto_type \<Rightarrow> jsval \<Rightarrow> bool) \<Rightarrow> int \<Rightarrow> int \<Rightarrow> sproto_type option \<Rightarrow> jsval \<Rightarrow> bool" where
  "value_ok sub type extra subtype v =
     (if type = SPROTO_TINTEGER then extra = 0 \<and> integer_ok v
      else if type = SPROTO_TBOOLEAN then v = JBool True \<or> v = JBool False
      else if type = SPROTO_TDOUBLE then double_ok v
      else if type = SPROTO_TSTRING then (if extra \<noteq> 0 then binary_ok v else text_ok v)
      else case subtype of None \<Rightarrow> False | Some st \<Rightarrow> sub st v)"

definition read_value :: "(sproto_type \<Rightarrow> jsval \<Rightarrow> jsval) \<Rightarrow> int \<Rightarrow> int \<Rightarrow> sproto_type option \<Rightarrow> jsval \<Rightarrow> jsval" where
  "read_value sub type extra subtype v =
     (if type = SPROTO_TINTEGER then read_int (int_of v)
      else if type = SPROTO_TSTRING then (if extra \<noteq> 0 then read_binary v else v)
      else if type = SPROTO_TSTRUCT then (case subtype of None \<Rightarrow> JUndef | Some st \<Rightarrow> sub st v)
      else v)"

definition read_array :: "(sproto_type \<Rightarrow> jsval \<Rightarrow> jsval) \<Rightarrow> int \<Rightarrow> int \<Rightarrow> sproto_type option \<Rightarrow> jsval list \<Rightarrow> jsval list" where
  "read_array sub type extra subtype vs =
     (if type = SPROTO_TINTEGER \<and> \<not> list_all (\<lambda>v. int32 (int_of v)) vs then map (\<lambda>v. read_wide (int_of v)) vs
      else map (read_value sub type extra subtype) vs)"

text \<open>Fields: a missing array comes back as an empty one, any other missing value stays missing.\<close>

abbreviation is_array :: "sproto_field \<Rightarrow> bool" where
  "is_array f \<equiv> f_type f AND SPROTO_TARRAY \<noteq> 0"

abbreviation base_type :: "sproto_field \<Rightarrow> int" where
  "base_type f \<equiv> f_type f AND NOT SPROTO_TARRAY"

definition field_value_ok :: "sproto_instance \<Rightarrow> (sproto_type \<Rightarrow> jsval \<Rightarrow> bool) \<Rightarrow> jsval \<Rightarrow> sproto_field \<Rightarrow> bool" where
  "field_value_ok sp sub indata f =
     (let v = field_value indata f in
      nullish v \<or>
      (if is_array f then
         (case v of JArr vs \<Rightarrow> list_all (value_ok sub (base_type f) (f_extra f) (field_subtype sp f)) vs | _ \<Rightarrow> False)
       else value_ok sub (base_type f) (f_extra f) (field_subtype sp f) v))"

definition read_field :: "sproto_instance \<Rightarrow> (sproto_type \<Rightarrow> jsval \<Rightarrow> jsval) \<Rightarrow> jsval \<Rightarrow> sproto_field \<Rightarrow> jsobj" where
  "read_field sp sub indata f =
     (let v = field_value indata f in
      if is_array f then
        [(tagname f, JArr (read_array sub (base_type f) (f_extra f) (field_subtype sp f) (elements v)))]
      else if nullish v then []
      else [(tagname f, read_value sub (base_type f) (f_extra f) (field_subtype sp f) v)])"

definition names_ok :: "sproto_type \<Rightarrow> bool" where
  "names_ok st \<longleftrightarrow> distinct (map f_name (type_fields st)) \<and> (\<forall>f \<in> set (type_fields st). f_name f \<noteq> Some [])"

fun object_ok :: "sproto_instance \<Rightarrow> nat \<Rightarrow> sproto_type \<Rightarrow> jsval \<Rightarrow> bool" where
  "object_ok sp 0 st v = False"
| "object_ok sp (Suc left) st v =
     ((case v of JObj _ \<Rightarrow> True | _ \<Rightarrow> False) \<and> names_ok st \<and>
      list_all (field_value_ok sp (object_ok sp left) v) (type_fields st))"

fun read_back :: "sproto_instance \<Rightarrow> nat \<Rightarrow> sproto_type \<Rightarrow> jsval \<Rightarrow> jsval" where
  "read_back sp 0 st v = JUndef"
| "read_back sp (Suc left) st v = JObj (concat (map (read_field sp (read_back sp left) v) (type_fields st)))"

subsection \<open>Words\<close>

lemma byte_at_append: "byte_at (a @ b) j = (if j < length a then byte_at a j else byte_at b (j - length a))"
  by (simp add: byte_at_def get_at_append)

lemma byte_at_words:
  "k < 4 \<Longrightarrow> byte_at (dword n) k = low_byte (n div 2 ^ (8 * k))"
  "k < 8 \<Longrightarrow> byte_at (qword n) k = low_byte (n div 2 ^ (8 * k))"
  by (simp_all add: byte_at_def get_at_def dword_def qword_def del: upt_rec_numeral)

lemma toDword_dword: "toDword (dword n @ x) = take_bit 32 n"
  by (rule toDword_bytes) (simp add: byte_at_append byte_at_words)

lemma toDword_qword: "toDword (qword n @ x) = take_bit 32 n" "toDword (drop 4 (qword n @ x)) = take_bit 32 (n div 2 ^ 32)"
proof -
  show "toDword (qword n @ x) = take_bit 32 n"
    by (rule toDword_bytes) (simp add: byte_at_append byte_at_words)
  show "toDword (drop 4 (qword n @ x)) = take_bit 32 (n div 2 ^ 32)"
  proof (rule toDword_bytes)
    fix k :: nat assume "k < 4"
    then have "byte_at (drop 4 (qword n @ x)) k = low_byte (n div 2 ^ (8 * (4 + k)))"
      unfolding byte_at_drop byte_at_append by (simp add: byte_at_words)
    also have "n div 2 ^ (8 * (4 + k)) = n div 2 ^ 32 div 2 ^ (8 * k)"
      unfolding distrib_left power_add by (simp add: zdiv_zmult2_eq)
    finally show "byte_at (drop 4 (qword n @ x)) k = low_byte (n div 2 ^ 32 div 2 ^ (8 * k))" .
  qed
qed

lemma uint_low_byte: "uint (low_byte n) = n mod 256"
  by (simp add: low_byte_def unsigned_of_int take_bit_eq_mod)

lemma toWord_word16: "0 \<le> n \<Longrightarrow> n < 65536 \<Longrightarrow> toWord (word16 n @ x) = n"
proof -
  assume n: "0 \<le> n" "n < 65536"
  have "toWord (word16 n @ x) = n mod 256 + 256 * (n div 256 mod 256)"
    by (simp add: toWord_code byte_at_append byte_at_def get_at_def word16_def uint_low_byte upt_rec)
  moreover have "n div 256 mod 256 = n div 256" using n by simp
  ultimately show ?thesis using mult_div_mod_eq [of 256 n] by linarith
qed

lemma toDword_sized: "int (length b) < 2 ^ 32 \<Longrightarrow> toDword (sized b @ x) = int (length b)"
  unfolding sized_def append_assoc toDword_dword by (rule take_bit_int_eq_self) simp_all

lemma drop_sized [simp]: "drop 4 (sized b) = b"
  by (simp add: sized_def)

subsection \<open>Integers\<close>

lemma uint_word32: "uint (word_of_int n :: 32 word) = take_bit 32 n"
  by (simp add: unsigned_of_int)

lemma int32_shift: "uint64Rshift n 31 = 0 \<or> uint64Rshift n 31 = -1 \<longleftrightarrow> int32 n"
  using div_sign [of "2 ^ 31" n] by (auto simp: uint64Rshift_def int32_def)

lemma encode_number_integer:
  assumes "integer_ok v"
  shows "encode_number 0 v =
    Inr (if int32 (int_of v) then (JNum (take_bit 32 (int_of v)), 4) else (v, 8))"
  using assms int32_shift [of "int_of v"]
  by (cases v) (auto simp: encode_number_def encode_integer_def integer_ok_def uint_word32 Let_def int32_def)

lemma take_bit32_small:
  assumes "int32 n" "take_bit 32 n < 0x7fff"
  shows "take_bit 32 n = n"
proof -
  have "\<not> n < 0"
  proof
    assume "n < 0"
    then have "n mod 2 ^ 32 = n + 2 ^ 32" using assms(1) by (intro mod_negative) (simp_all add: int32_def)
    with assms show False by (simp add: take_bit_eq_mod int32_def)
  qed
  with assms(1) show ?thesis by (intro take_bit_int_eq_self) (simp_all add: int32_def)
qed

lemma wide_integer: "integer_ok v \<Longrightarrow> wide v = qword (int_of v)"
  by (cases v) (simp_all add: wide_def integer_ok_def)

lemma read_qword:
  assumes "- (2 ^ 63) \<le> n" "n < 2 ^ 63"
  shows "int64 (toDword (qword n @ x)) (toDword (drop 4 (qword n @ x))) = read_wide n"
  unfolding toDword_qword using int64_halves [OF assms] by (auto simp: read_wide_def)

lemma read_dword: "int32 n \<Longrightarrow> expand64 (toDword (dword (take_bit 32 n) @ x)) = n"
  unfolding toDword_dword using expand64_take_bit [of n] by (simp add: int32_def)

lemma extended_qword:
  assumes "int32 n"
  shows "extended (take_bit 32 n) = qword n"
proof (rule buf_eqI)
  fix k assume "k < length (extended (take_bit 32 n))"
  then have k: "k < 8" by simp
  have low: "get_at (qword n) k = Some (low_byte (n div 2 ^ (8 * k)))"
    using k by (simp add: get_at_def qword_def del: upt_rec_numeral)
  show "get_at (extended (take_bit 32 n)) k = get_at (qword n) k"
  proof (cases "k < 4")
    case True
    have "low_byte (take_bit 32 n div 2 ^ (8 * k)) = low_byte (n div 2 ^ (8 * k))"
      using True by (intro bit_word_eqI) (auto simp: bit_low_byte bit_simps)
    with True k show ?thesis by (simp add: low get_at_extended get_at_dword)
  next
    case False
    have high: "bit n j = (n < 0)" if "31 \<le> j" for j
    proof -
      have "drop_bit 31 n = (if n < 0 then -1 else 0)"
        using assms div_sign [of "2 ^ 31" n] by (auto simp: drop_bit_eq_div int32_def)
      moreover have "bit n j = bit (drop_bit 31 n) (j - 31)"
        using that by (simp add: bit_drop_bit_eq)
      ultimately show ?thesis by simp
    qed
    have "low_byte (n div 2 ^ (8 * k)) = (if bit (take_bit 32 n) 31 then 0xff else 0)"
    proof (rule bit_word_eqI)
      fix m assume "m < LENGTH(8)"
      then have m: "m < 8" by simp
      have "bit (low_byte (n div 2 ^ (8 * k))) m = (n < 0)"
        using m False by (simp add: bit_low_byte high)
      moreover have "bit (take_bit 32 n) 31 = (n < 0)" by (simp add: bit_take_bit_iff high)
      moreover have "bit (0xff :: byte) m"
      proof -
        have "(0xff :: byte) = -1" by simp
        with m show ?thesis by (simp only: bit_minus_1_iff) simp
      qed
      ultimately show "bit (low_byte (n div 2 ^ (8 * k))) m = bit (if bit (take_bit 32 n) 31 then 0xff else 0 :: byte) m"
        by simp
    qed
    with False k show ?thesis by (simp add: low get_at_extended)
  qed
qed simp

subsection \<open>Single values\<close>

definition reads ::
  "sproto_instance \<Rightarrow> struct_decoder \<Rightarrow> struct_format \<Rightarrow> (sproto_type \<Rightarrow> jsval \<Rightarrow> bool) \<Rightarrow> (sproto_type \<Rightarrow> jsval \<Rightarrow> jsval) \<Rightarrow> bool"
where
  "reads sp D fmt ok rb \<longleftrightarrow> (\<forall>st v. encodable sp st \<longrightarrow> ok st v \<longrightarrow>
     (\<exists>bs kvs. fmt st v = Inr bs \<and> rb st v = JObj kvs \<and>
        (int (length bs) < 2 ^ 32 \<longrightarrow>
          (\<forall>rest extra. 0 \<le> extra \<longrightarrow> D (Some st) (bs @ rest) (int (length bs) + extra) = DOk (int (length bs), kvs)))))"

lemma ucast_latin1: "(c :: 16 word) < 256 \<Longrightarrow> ucast (ucast c :: byte) = c"
proof -
  assume "c < 256"
  then have "uint c < 256" by (simp add: word_less_def)
  then have "take_bit 8 (uint c) = uint c" by (intro take_bit_int_eq_self) simp_all
  then have "bit (uint c) n \<Longrightarrow> n < 8" for n by (metis bit_take_bit_iff)
  then have "bit c n \<Longrightarrow> n < 8" for n by (simp add: bit_unsigned_iff)
  then show ?thesis by (intro bit_word_eqI) (auto simp: bit_simps)
qed

lemma slice_get: "map (get_at (bs @ rest)) [0..<length bs] = bs"
  by (rule nth_equalityI) (simp_all add: get_at_def nth_append)

lemma read_text:
  assumes "text_ok v"
  shows "\<exists>bs. string2bytes v = Inr bs \<and> JStr (bytes2string bs) = v"
proof -
  obtain str where str: "v = JStr str" "\<forall>c \<in> set str. c < 256"
    using assms by (auto simp: text_ok_def list_all_iff split: jsval.splits)
  have "takeWhile (\<lambda>b. b \<noteq> None) (map (\<lambda>c. Some (ucast c)) str) = map (\<lambda>c. Some (ucast c :: byte)) str"
    by (simp only: takeWhile_eq_all_conv) auto
  then have "bytes2string (map (\<lambda>c. Some (ucast c)) str) = map (\<lambda>c. ucast (ucast c :: byte)) str"
    unfolding bytes2string_def by (simp only: map_map comp_def option.case)
  also have "\<dots> = str" using str(2) by (intro map_idI) (auto intro: ucast_latin1)
  finally show ?thesis using str(1) by (simp add: string2bytes_def)
qed

lemma read_binary_bytes:
  assumes "binary_ok v"
  shows "\<exists>bs. binary_bytes v = Inr bs \<and> JArr (map js_byte bs) = read_binary v"
proof (cases v)
  case (JU8 bs)
  then show ?thesis by (simp add: binary_bytes_def read_binary_def js_byte_def)
next
  case (JArr vs)
  have el: "\<exists>n. e = JNum n \<and> 0 \<le> n \<and> n < 256" if "e \<in> set vs" for e
  proof -
    have "case e of JNum n \<Rightarrow> 0 \<le> n \<and> n < 256 | _ \<Rightarrow> False"
      using assms that JArr by (simp add: binary_ok_def list_all_iff)
    then show ?thesis by (cases e) auto
  qed
  have "byte_elem e = Some (Some (word_of_int (int_of e))) \<and> js_byte (Some (word_of_int (int_of e))) = e" if "e \<in> set vs" for e
    using el [OF that] by (auto simp: byte_elem_def js_byte_def unsigned_of_int take_bit_eq_mod)
  then have "list_all (\<lambda>v. byte_elem v \<noteq> None) vs" "map (\<lambda>e. js_byte (the (byte_elem e))) vs = vs"
    by (auto simp: list_all_iff intro!: map_idI)
  then show ?thesis using JArr by (simp add: binary_bytes_def read_binary_def comp_def)
qed (use assms in \<open>simp_all add: binary_ok_def\<close>)

text \<open>Strings and structs, as elements of an array or on their own.\<close>

lemma read_object:
  assumes D: "reads sp D fmt ok rb" and ty: "subtype_ok sp type subtype" and ok: "value_ok ok type extra subtype v"
  shows "\<exists>bs. object_format fmt type extra subtype v = Inr bs \<and>
    (int (length bs) < 2 ^ 32 \<longrightarrow> (\<forall>rest args. a_type args = type \<longrightarrow> a_extra args = extra \<longrightarrow> a_subtype args = subtype \<longrightarrow>
       decode_value D args (ArgBytes (bs @ rest) (int (length bs))) = DOk (read_value rb type extra subtype v)))"
proof (cases "type = SPROTO_TSTRING")
  case True
  show ?thesis
  proof (cases "extra = 0")
    case plain: True
    then have "text_ok v" using ok True by (simp add: value_ok_def type_codes)
    from read_text [OF this] plain True show ?thesis
      by (auto simp: object_format_def decode_value_def read_value_def type_codes slice_get Let_def)
  next
    case False
    then have "binary_ok v" using ok True by (simp add: value_ok_def type_codes)
    from read_binary_bytes [OF this] False True show ?thesis
      by (auto simp: object_format_def decode_value_def read_value_def type_codes slice_get Let_def simp del: map_map)
  qed
next
  case False
  then have t: "type = SPROTO_TSTRUCT" using ty by (simp add: subtype_ok_def)
  then obtain st where st: "subtype = Some st" "ok st v" "encodable sp st"
    using ok ty by (auto simp: value_ok_def subtype_ok_def type_codes split: option.splits)
  then obtain bs kvs where bs: "fmt st v = Inr bs" "rb st v = JObj kvs"
      and all: "int (length bs) < 2 ^ 32 \<longrightarrow>
        (\<forall>rest extra. 0 \<le> extra \<longrightarrow> D (Some st) (bs @ rest) (int (length bs) + extra) = DOk (int (length bs), kvs))"
    using D unfolding reads_def by blast
  have "D (Some st) (bs @ rest) (int (length bs)) = DOk (int (length bs), kvs)" if "int (length bs) < 2 ^ 32" for rest
    using all that spec [of "\<lambda>e. 0 \<le> e \<longrightarrow> D (Some st) (bs @ rest) (int (length bs) + e) = DOk (int (length bs), kvs)" 0] by simp
  with t st(1) bs show ?thesis
    by (auto simp: object_format_def decode_value_def read_value_def type_codes)
qed

subsection \<open>The callback\<close>

lemma obj_put_new: "k \<notin> fst ` set kvs \<Longrightarrow> obj_put kvs k v = kvs @ [(k, v)]"
  by (induction kvs) auto

lemma obj_put_last: "k \<notin> fst ` set kvs \<Longrightarrow> obj_put (kvs @ [(k, w)]) k v = kvs @ [(k, v)]"
  by (induction kvs) auto

lemma prop_of_last: "k \<notin> fst ` set kvs \<Longrightarrow> prop_of (JObj (kvs @ [(k, v)])) k = v"
  by (induction kvs) auto

text \<open>A field not yet seen: no such property, and no array of that name under way.\<close>

definition fresh :: "user_data \<Rightarrow> jsstr \<Rightarrow> bool" where
  "fresh ud k \<longleftrightarrow> k \<notin> fst ` set (ud_result ud) \<and> Some k \<noteq> ud_array_tag ud"

lemma decode_cb_scalar:
  assumes "a_index args = 0" "decode_value sub args arg = DOk v" "fresh ud (a_tagname args)"
  shows "decode_cb sub args arg ud = DOk (ud\<lparr>ud_result := ud_result ud @ [(a_tagname args, v)]\<rparr>)"
  using assms by (simp add: decode_cb_def fresh_def obj_put_new)

definition array_ud :: "user_data \<Rightarrow> jsstr \<Rightarrow> jsval list \<Rightarrow> user_data" where
  "array_ud ud k xs = ud\<lparr>ud_array_tag := Some k, ud_result := ud_result ud @ [(k, JArr xs)]\<rparr>"

lemma set_index_end: "set_index xs (length xs) v = xs @ [v]"
  by (simp add: set_index_def list_update_append)

lemma decode_cb_empty:
  "a_index args = -1 \<Longrightarrow> fresh ud (a_tagname args) \<Longrightarrow> decode_cb sub args arg ud = DOk (array_ud ud (a_tagname args) [])"
  by (simp add: decode_cb_def fresh_def array_ud_def obj_put_new Let_def)

lemma decode_cb_first:
  assumes "a_index args = 1" "decode_value sub args arg = DOk v" "fresh ud (a_tagname args)"
  shows "decode_cb sub args arg ud = DOk (array_ud ud (a_tagname args) [v])"
  using assms
  by (simp add: decode_cb_def fresh_def array_ud_def obj_put_new obj_put_last prop_of_last set_index_def Let_def
      del: prop_of.simps)

lemma decode_cb_next:
  assumes "a_index args = int (length xs) + 1" "decode_value sub args arg = DOk v" "fresh ud (a_tagname args)"
  shows "decode_cb sub args arg (array_ud ud (a_tagname args) xs) = DOk (array_ud ud (a_tagname args) (xs @ [v]))"
  using assms
  by (simp add: decode_cb_def fresh_def array_ud_def obj_put_last prop_of_last set_index_end Let_def
      del: prop_of.simps)

subsection \<open>Arrays\<close>

text \<open>The state after the elements \<open>xs\<close> of the array \<open>k\<close>.\<close>

definition filling :: "user_data \<Rightarrow> jsstr \<Rightarrow> jsval list \<Rightarrow> user_data" where
  "filling ud k xs = (if xs = [] then ud else array_ud ud k xs)"

lemma decode_cb_element:
  assumes "decode_value sub (args\<lparr>a_index := int (length xs) + 1\<rparr>) arg = DOk v" "fresh ud (a_tagname args)"
  shows "decode_cb sub (args\<lparr>a_index := int (length xs) + 1\<rparr>) arg (filling ud (a_tagname args) xs) =
    DOk (filling ud (a_tagname args) (xs @ [v]))"
proof (cases "xs = []")
  case True
  then show ?thesis using decode_cb_first [of "args\<lparr>a_index := 1\<rparr>" sub arg v ud] assms by (simp add: filling_def)
next
  case False
  then show ?thesis
    using decode_cb_next [of "args\<lparr>a_index := int (length xs) + 1\<rparr>" xs sub arg v ud] assms by (simp add: filling_def)
qed

lemma feed_elements:
  assumes "fresh ud (a_tagname args)" and "\<And>v i. v \<in> set vs \<Longrightarrow> decode_value sub (args\<lparr>a_index := i\<rparr>) (ArgValue v) = DOk (g v)"
  shows "feed sub args (int (length xs) + 1) vs (filling ud (a_tagname args) xs) =
    DOk (filling ud (a_tagname args) (xs @ map g vs))"
  using assms(2)
proof (induction vs arbitrary: xs)
  case (Cons v vs)
  have "decode_cb sub (args\<lparr>a_index := int (length xs) + 1\<rparr>) (ArgValue v) (filling ud (a_tagname args) xs) =
      DOk (filling ud (a_tagname args) (xs @ [g v]))"
    using Cons.prems assms(1) by (intro decode_cb_element) simp_all
  moreover have "feed sub args (int (length (xs @ [g v])) + 1) vs (filling ud (a_tagname args) (xs @ [g v])) =
      DOk (filling ud (a_tagname args) ((xs @ [g v]) @ map g vs))"
    using Cons.prems by (intro Cons.IH) simp
  ultimately show ?case by (simp add: add.commute)
qed simp

lemma feed_start:
  assumes "fresh ud (a_tagname args)" "vs \<noteq> []"
    and "\<And>v i. v \<in> set vs \<Longrightarrow> decode_value sub (args\<lparr>a_index := i\<rparr>) (ArgValue v) = DOk (g v)"
  shows "feed sub args 1 vs ud = DOk (array_ud ud (a_tagname args) (map g vs))"
  using feed_elements [where xs = "[]", OF assms(1,3)] assms(2) by (simp add: filling_def)

lemma objects_collected:
  assumes "reads sp D fmt ok rb" "subtype_ok sp type subtype"
  shows "\<forall>v \<in> set vs. value_ok ok type extra subtype v \<Longrightarrow>
    \<exists>bss. collect (object_format fmt type extra subtype) vs = Inr bss \<and> length bss = length vs"
proof (induction vs)
  case (Cons v vs)
  then show ?case using read_object [OF assms] by fastforce
qed simp

lemma objects_elements:
  assumes D: "reads sp D fmt ok rb" and ty: "subtype_ok sp type subtype" and f: "fresh ud (a_tagname args)"
    and args: "a_type args = type" "a_extra args = extra" "a_subtype args = subtype"
  shows "\<forall>v \<in> set vs. value_ok ok type extra subtype v \<Longrightarrow>
    \<exists>bss. collect (object_format fmt type extra subtype) vs = Inr bss \<and> length bss = length vs \<and>
      (int (length (concat (map sized bss))) < 2 ^ 32 \<longrightarrow> (\<forall>rest xs.
         decodeArrayObject D args (concat (map sized bss) @ rest) (int (length (concat (map sized bss)))) (int (length xs) + 1)
           (filling ud (a_tagname args) xs) =
         DOk (filling ud (a_tagname args) (xs @ map (read_value rb type extra subtype) vs))))"
proof (induction vs)
  case Nil
  then show ?case by (simp add: decodeArrayObject.simps)
next
  case (Cons v vs)
  obtain bs where bs: "object_format fmt type extra subtype v = Inr bs"
    and rd: "int (length bs) < 2 ^ 32 \<longrightarrow> (\<forall>rest args. a_type args = type \<longrightarrow> a_extra args = extra \<longrightarrow> a_subtype args = subtype \<longrightarrow>
       decode_value D args (ArgBytes (bs @ rest) (int (length bs))) = DOk (read_value rb type extra subtype v))"
    using read_object [OF D ty] Cons.prems by fastforce
  obtain bss where bss: "collect (object_format fmt type extra subtype) vs = Inr bss" "length bss = length vs"
    and IH: "int (length (concat (map sized bss))) < 2 ^ 32 \<longrightarrow> (\<forall>rest xs.
         decodeArrayObject D args (concat (map sized bss) @ rest) (int (length (concat (map sized bss)))) (int (length xs) + 1)
           (filling ud (a_tagname args) xs) =
         DOk (filling ud (a_tagname args) (xs @ map (read_value rb type extra subtype) vs)))"
    using Cons by fastforce
  have "decodeArrayObject D args (concat (map sized (bs # bss)) @ rest) (int (length (concat (map sized (bs # bss))))) (int (length xs) + 1)
           (filling ud (a_tagname args) xs) =
         DOk (filling ud (a_tagname args) (xs @ map (read_value rb type extra subtype) (v # vs)))"
    if small: "int (length (concat (map sized (bs # bss)))) < 2 ^ 32" for rest xs
  proof -
    let ?more = "concat (map sized bss) @ rest" and ?n = "int (length (concat (map sized bss)))"
    have len: "int (length bs) < 2 ^ 32" "?n < 2 ^ 32" "0 \<le> ?n" using small by simp_all
    have total: "int (length (concat (map sized (bs # bss)))) = 4 + int (length bs) + ?n" by simp
    have cb: "decode_cb D (args\<lparr>a_index := int (length xs) + 1\<rparr>) (ArgBytes (bs @ ?more) (int (length bs))) (filling ud (a_tagname args) xs) =
        DOk (filling ud (a_tagname args) (xs @ [read_value rb type extra subtype v]))"
      using rd len args f by (intro decode_cb_element) simp_all
    have "decodeArrayObject D args ?more ?n (int (length (xs @ [read_value rb type extra subtype v])) + 1)
        (filling ud (a_tagname args) (xs @ [read_value rb type extra subtype v])) =
        DOk (filling ud (a_tagname args) ((xs @ [read_value rb type extra subtype v]) @ map (read_value rb type extra subtype) vs))"
      using IH len(2) by blast
    then show ?thesis
      unfolding total using len cb
      by (subst decodeArrayObject.simps) (simp add: toDword_sized Let_def add.commute)
  qed
  then show ?case using bs bss by (intro exI [of _ "bs # bss"]) simp
qed

lemma drop_cells:
  assumes "\<And>e. e \<in> set es \<Longrightarrow> length (c e) = w" "i \<le> length es"
  shows "drop (w * i) (concat (map c es) @ x) = concat (map c (drop i es)) @ x"
proof -
  have "length (concat (map c (take i es))) = w * i"
    using assms length_concat_cells [of "take i es" c w] by (auto dest: in_set_takeD)
  moreover have "concat (map c es) = concat (map c (take i es)) @ concat (map c (drop i es))"
    by (metis append_take_drop_id concat_append map_append)
  ultimately show ?thesis by simp
qed

lemma read_cells:
  assumes "\<And>e. e \<in> set es \<Longrightarrow> length (c e) = w" "\<And>e y. e \<in> set es \<Longrightarrow> g (c e @ y) = h e"
  shows "map (\<lambda>i. g (drop (w * i) (concat (map c es) @ x))) [0..<length es] = map h es"
proof (rule nth_equalityI)
  fix i assume "i < length (map (\<lambda>i. g (drop (w * i) (concat (map c es) @ x))) [0..<length es])"
  then have i: "i < length es" by simp
  have "drop (w * i) (concat (map c es) @ x) = concat (map c (drop i es)) @ x"
    using i assms(1) by (intro drop_cells) simp_all
  also have "\<dots> = c (es ! i) @ concat (map c (drop (Suc i) es)) @ x"
    using i by (simp add: Cons_nth_drop_Suc [symmetric])
  finally have "drop (w * i) (concat (map c es) @ x) = c (es ! i) @ concat (map c (drop (Suc i) es)) @ x" .
  with i assms(2) show "map (\<lambda>i. g (drop (w * i) (concat (map c es) @ x))) [0..<length es] ! i = map h es ! i"
    by simp
qed simp

lemma collect_map: "(\<And>v. v \<in> set vs \<Longrightarrow> f v = Inr (g v)) \<Longrightarrow> collect f vs = Inr (map g vs)"
  by (induction vs) simp_all

lemma decode_value_plain:
  "a_type args = SPROTO_TINTEGER \<Longrightarrow> a_extra args = 0 \<Longrightarrow> decode_value sub args (ArgValue v) = DOk v"
  "a_type args = SPROTO_TBOOLEAN \<Longrightarrow> decode_value sub args (ArgValue v) =
     DOk (if v = JNum 1 then JBool True else if v = JNum 0 then JBool False else JNull)"
  by (simp_all add: decode_value_def type_codes)

lemma byte_8_4: "(8 :: byte) \<noteq> 4"
  by code_simp

text \<open>An array of integers is written at the width of its widest element.\<close>

lemma integers_written:
  assumes "\<forall>v \<in> set vs. integer_ok v"
  shows "map_sum id integers_format (collect (encode_number 0) vs) =
    Inr (if vs = [] then []
         else if list_all (\<lambda>v. int32 (int_of v)) vs then Some 4 # concat (map (\<lambda>v. dword (take_bit 32 (int_of v))) vs)
         else Some 8 # concat (map (\<lambda>v. qword (int_of v)) vs))"
proof -
  let ?e = "\<lambda>v. (if int32 (int_of v) then (JNum (take_bit 32 (int_of v)), 4) else (v, 8)) :: jsval \<times> int"
  have c: "collect (encode_number 0) vs = Inr (map ?e vs)"
    using assms by (intro collect_map) (simp add: encode_number_integer)
  have "narrow (map ?e vs) = list_all (\<lambda>v. int32 (int_of v)) vs"
    unfolding narrow_def list_all_iff set_map ball_simps by (rule ball_cong) simp_all
  moreover have "concat (map (\<lambda>e. dword (int_of (fst e))) (map ?e vs)) = concat (map (\<lambda>v. dword (take_bit 32 (int_of v))) vs)"
    if "list_all (\<lambda>v. int32 (int_of v)) vs"
    using that by (intro arg_cong [of _ _ concat]) (auto simp: list_all_iff)
  moreover have "concat (map slot (map ?e vs)) = concat (map (\<lambda>v. qword (int_of v)) vs)"
    using assms by (intro arg_cong [of _ _ concat]) (auto simp: slot_def extended_qword wide_integer)
  ultimately show ?thesis by (simp add: c integers_format_cells cells_def)
qed

lemma read_array_field:
  assumes D: "reads sp D fmt ok rb" and ty: "array_ok sp type subtype" and ok: "\<forall>v \<in> set vs. value_ok ok type extra subtype v"
    and vs: "elements target = vs"
  shows "\<exists>b. array_format fmt type extra subtype target = Inr b \<and>
    (int (length b) < 2 ^ 32 \<longrightarrow> (\<forall>more args ud. a_type args = type \<longrightarrow> a_extra args = extra \<longrightarrow> a_subtype args = subtype \<longrightarrow>
       fresh ud (a_tagname args) \<longrightarrow>
       decodeArray D args (sized b @ more) ud = DOk (array_ud ud (a_tagname args) (read_array rb type extra subtype vs))))"
proof (cases "vs = []")
  case True
  have "array_format fmt type extra subtype target = Inr []"
    using True vs by (simp add: array_format_def integers_format_def)
  moreover have "read_array rb type extra subtype vs = []" using True by (simp add: read_array_def)
  ultimately show ?thesis
    using toDword_sized [of "[]"] by (auto simp: decodeArray_def decode_cb_empty)
next
  case ne: False
  consider (int) "type = SPROTO_TINTEGER" | (bool) "type = SPROTO_TBOOLEAN" | (obj) "subtype_ok sp type subtype"
    "type \<noteq> SPROTO_TINTEGER" "type \<noteq> SPROTO_TBOOLEAN"
    using ty by (auto simp: array_ok_def)
  then show ?thesis
  proof cases
    case obj
    from obj(1) have t: "type = SPROTO_TSTRING \<or> type = SPROTO_TSTRUCT" by (auto simp: subtype_ok_def)
    obtain bss where bss: "collect (object_format fmt type extra subtype) vs = Inr bss" "length bss = length vs"
      using objects_collected [OF D obj(1) ok] by blast
    define b where "b = concat (map sized bss)"
    have "decodeArray D args (sized b @ more) ud = DOk (array_ud ud (a_tagname args) (read_array rb type extra subtype vs))"
      if small: "int (length b) < 2 ^ 32" and args: "a_type args = type" "a_extra args = extra" "a_subtype args = subtype"
        and f: "fresh ud (a_tagname args)" for more args ud
    proof -
      have "decodeArrayObject D args (b @ more) (int (length b)) 1 ud =
          DOk (array_ud ud (a_tagname args) (map (read_value rb type extra subtype) vs))"
      proof -
        have "\<forall>rest xs. decodeArrayObject D args (b @ rest) (int (length b)) (int (length xs) + 1) (filling ud (a_tagname args) xs) =
            DOk (filling ud (a_tagname args) (xs @ map (read_value rb type extra subtype) vs))"
          using objects_elements [OF D obj(1) f args ok] bss small by (simp add: b_def)
        from spec [OF spec [OF this, of more], of "[]"] ne show ?thesis by (simp add: filling_def)
      qed
      moreover have "length b \<noteq> 0" using bss(2) ne by (cases bss) (simp_all add: b_def)
      ultimately show ?thesis
        using small t args toDword_sized [of b more]
        by (auto simp: decodeArray_def Let_def read_array_def type_codes)
    qed
    moreover have "array_format fmt type extra subtype target = Inr b"
      using obj bss vs by (simp add: array_format_def b_def)
    ultimately show ?thesis by blast
  next
    case int
    then have io: "\<forall>v \<in> set vs. integer_ok v" and ex: "extra = 0"
      using ok ne by (auto simp: value_ok_def) (metis list.set_intros(1) neq_Nil_conv)
    define w where "w = (if list_all (\<lambda>v. int32 (int_of v)) vs then 4 else 8 :: nat)"
    define cell where "cell v = (if w = 4 then dword (take_bit 32 (int_of v)) else qword (int_of v))" for v
    define rd where "rd v = (if w = 4 then JNum (int_of v) else read_wide (int_of v))" for v
    define b where "b = Some (of_nat w) # concat (map cell vs)"
    have cells: "cell = (if list_all (\<lambda>v. int32 (int_of v)) vs then (\<lambda>v. dword (take_bit 32 (int_of v))) else (\<lambda>v. qword (int_of v)))"
      by (auto simp: cell_def w_def)
    have fmt: "array_format fmt type extra subtype target = Inr b"
      using int ex vs ne integers_written [OF io] by (simp add: array_format_def b_def w_def cells)
    have len: "length (cell v) = w" for v by (simp add: cell_def w_def)
    have total: "length (concat (map cell vs)) = w * length vs" by (rule length_concat_cells) (rule len)
    have ra: "read_array rb type extra subtype vs = map rd vs"
      using int by (auto simp: read_array_def rd_def w_def read_value_def read_int_def list_all_iff)
    have "decodeArray D args (sized b @ more) ud = DOk (array_ud ud (a_tagname args) (map rd vs))"
      if small: "int (length b) < 2 ^ 32" and args: "a_type args = type" "a_extra args = extra"
        and f: "fresh ud (a_tagname args)" for more args ud
    proof -
      have feed: "feed D args 1 (map rd vs) ud = DOk (array_ud ud (a_tagname args) (map rd vs))"
        using feed_start [OF f, of "map rd vs" D "\<lambda>v. v"] ne args int ex by (simp add: decode_value_plain)
      have sz: "toDword (sized b @ more) = int (w * length vs) + 1"
        using toDword_sized [OF small] total by (simp add: b_def)
      have st: "drop 4 (sized b @ more) = Some (of_nat w) # concat (map cell vs) @ more" by (simp add: b_def)
      show ?thesis
      proof (cases "w = 4")
        case True
        have "map (\<lambda>i. JNum (expand64 (toDword (drop (4 * i) (concat (map cell vs) @ more))))) [0..<length vs] = map rd vs"
          using io len True by (intro read_cells) (auto simp: cell_def rd_def w_def list_all_iff read_dword split: if_splits)
        then show ?thesis
          using feed args int True unfolding decodeArray_def Let_def sz st
          by (simp add: get_at_def mult.commute del: drop_append)
      next
        case False
        then have w8: "w = 8" by (simp add: w_def split: if_splits)
        have "map (\<lambda>i. (\<lambda>s. int64 (toDword s) (toDword (drop 4 s))) (drop (8 * i) (concat (map cell vs) @ more))) [0..<length vs] = map rd vs"
          using io len w8 False by (intro read_cells) (auto simp: cell_def rd_def read_qword integer_ok_def simp del: drop_append)
        then show ?thesis
          using feed args int w8 byte_8_4 unfolding decodeArray_def Let_def sz st
          by (simp add: get_at_def mult.commute add.commute del: drop_append)
      qed
    qed
    with fmt ra show ?thesis by auto
  next
    case bool
    define b where "b = map (\<lambda>v. Some (if v = JBool True then 1 else 0 :: byte)) vs"
    have vb: "\<forall>v \<in> set vs. v = JBool True \<or> v = JBool False"
      using ok bool by (auto simp: value_ok_def type_codes)
    have fmt: "array_format fmt type extra subtype target = Inr b"
      using bool vs by (simp add: array_format_def b_def type_codes)
    have ra: "read_array rb type extra subtype vs = vs"
      using bool by (auto simp: read_array_def read_value_def type_codes intro: map_idI)
    let ?g = "\<lambda>v. if v = JNum 1 then JBool True else if v = JNum 0 then JBool False else JNull"
    have "decodeArray D args (sized b @ more) ud = DOk (array_ud ud (a_tagname args) vs)"
      if small: "int (length b) < 2 ^ 32" and args: "a_type args = type"
        and f: "fresh ud (a_tagname args)" for more args ud
    proof -
      have cells: "map (\<lambda>i. js_byte (get_at (b @ more) i)) [0..<length vs] = map js_byte b"
        by (rule nth_equalityI) (simp_all add: get_at_def nth_append b_def)
      have "feed D args 1 (map js_byte b) ud = DOk (array_ud ud (a_tagname args) (map ?g (map js_byte b)))"
        using ne args bool by (intro feed_start [OF f]) (simp_all add: b_def decode_value_plain)
      also have "map ?g (map js_byte b) = vs"
        using vb by (auto simp: b_def js_byte_def intro!: map_idI)
      finally show ?thesis
        using cells toDword_sized [OF small, of more] args bool ne small
        by (simp add: decodeArray_def Let_def type_codes b_def)
    qed
    with fmt ra show ?thesis by auto
  qed
qed

subsection \<open>Fields\<close>

lemma args_of_simps:
  assumes "f_name f = Some k"
  shows "a_tagname (args_of sp f) = k" "a_type (args_of sp f) = base_type f" "a_index (args_of sp f) = 0"
    "a_extra (args_of sp f) = f_extra f" "a_subtype (args_of sp f) = field_subtype sp f"
  using assms by (simp_all add: args_of_def)

lemma tagname_simp: "f_name f = Some k \<Longrightarrow> k \<noteq> [] \<Longrightarrow> tagname f = k"
  by (simp add: tagname_def)

lemma read_double:
  assumes "double_ok v"
  shows "\<exists>bs. double_piece v = Inr (0, sized (map Some bs)) \<and> length bs = 8 \<and> binaryToDouble (map Some bs) = v"
proof -
  let ?w = "dbl_of_num v"
  have w: "dbl_finite ?w" "?w \<noteq> 0x8000000000000000" "num_of_dbl ?w = v"
    using assms by (simp_all add: double_ok_def Let_def)
  let ?bs = "map (\<lambda>k. low_byte (uint ?w div 2 ^ (8 * k))) [0..<8]"
  have db: "double_bytes ?w = Some ?bs" by (rule double_bytes_finite [OF w(1,2)])
  have "binaryToDouble (map Some ?bs) = num_of_dbl ?w"
    by (rule binaryToDouble_bytes) (simp add: byte_at_def get_at_def del: upt_rec_numeral)
  with w(3) have "binaryToDouble (map Some ?bs) = v" by simp
  moreover have "double_piece v = Inr (0, sized (map Some ?bs))"
    using assms db by (cases v) (simp_all add: double_piece_def double_ok_def del: upt_rec_numeral)
  ultimately show ?thesis by (intro exI [of _ ?bs]) simp
qed

text \<open>What a field that is present contributes: its piece, and what reading the piece does.\<close>

definition field_reads :: "sproto_instance \<Rightarrow> struct_decoder \<Rightarrow> sproto_field \<Rightarrow> int \<times> buf \<Rightarrow> jsobj \<Rightarrow> bool" where
  "field_reads sp D f p out \<longleftrightarrow>
     (case p of (h, d) \<Rightarrow>
        (\<exists>b. h = 0 \<and> d = sized b \<and> (int (length b) < 2 ^ 32 \<longrightarrow> (\<forall>more ud. fresh ud (tagname f) \<longrightarrow>
             (\<exists>t. t \<in> {ud_array_tag ud, Some (tagname f)} \<and> decode_data D f (args_of sp f) (d @ more) ud =
                 DOk (ud\<lparr>ud_array_tag := t, ud_result := ud_result ud @ out\<rparr>))))) \<or>
        (d = [] \<and> 0 < h \<and> h < 65536 \<and> even h \<and> (\<forall>ud. fresh ud (tagname f) \<longrightarrow>
             decode_header D f (args_of sp f) (h div 2 - 1) ud = DOk (ud\<lparr>ud_result := ud_result ud @ out\<rparr>))))"

lemma read_piece:
  assumes D: "reads sp D fmt ok rb" and sp: "schema_encodable sp" and f: "field_ok sp f"
    and name: "f_name f = Some k" "k \<noteq> []" and v: "field_value_ok sp ok indata f" and left: "left \<noteq> 0"
  shows "(field_format sp left fmt indata f = Inr None \<and> read_field sp rb indata f = []) \<or>
    (\<exists>p. field_format sp left fmt indata f = Inr (Some p) \<and> field_reads sp D f p (read_field sp rb indata f))"
proof -
  note args = args_of_simps [OF name(1), of sp] and tag = tagname_simp [OF name]
  let ?v = "field_value indata f"
  show ?thesis
    using f
  proof (cases rule: field_kinds)
    case (2 t)
    then have t: "base_type f = t" "is_array f" by simp_all
    have aok: "array_ok sp t (field_subtype sp f)"
      using 2(2) field_subtype_ok [OF sp] by (auto simp: array_ok_def subtype_ok_def)
    have els: "\<forall>e \<in> set (elements ?v). value_ok ok t (f_extra f) (field_subtype sp f) e"
    proof (cases "nullish ?v")
      case True
      then show ?thesis by (cases ?v) simp_all
    next
      case False
      then obtain vs where "?v = JArr vs" "list_all (value_ok ok t (f_extra f) (field_subtype sp f)) vs"
        using v t by (auto simp: field_value_ok_def Let_def split: jsval.splits)
      then show ?thesis by (auto simp: list_all_iff dest: set_takeWhileD)
    qed
    obtain b where b: "array_format fmt t (f_extra f) (field_subtype sp f) ?v = Inr b"
      and rd: "int (length b) < 2 ^ 32 \<longrightarrow> (\<forall>more args ud. a_type args = t \<longrightarrow> a_extra args = f_extra f \<longrightarrow>
          a_subtype args = field_subtype sp f \<longrightarrow> fresh ud (a_tagname args) \<longrightarrow>
          decodeArray D args (sized b @ more) ud =
            DOk (array_ud ud (a_tagname args) (read_array rb t (f_extra f) (field_subtype sp f) (elements ?v))))"
      using read_array_field [OF D aok els refl] by blast
    have "field_format sp left fmt indata f = Inr (Some (0, sized b))"
      using b t left by (simp add: field_format_def Let_def)
    moreover have "field_reads sp D f (0, sized b) (read_field sp rb indata f)"
      using rd args tag t
      by (auto simp: field_reads_def decode_data_def read_field_def array_ud_def Let_def intro!: exI [of _ "Some k"])
    ultimately show ?thesis by blast
  next
    case kind: 1
    have base: "base_type f = f_type f" "\<not> is_array f" using kind by (auto simp: type_codes)
    show ?thesis
    proof (cases "nullish ?v")
      case True
      then show ?thesis using base left by (simp add: field_format_def read_field_def Let_def)
    next
      case False
      then have ok: "value_ok ok (f_type f) (f_extra f) (field_subtype sp f) ?v"
        using v base by (simp add: field_value_ok_def Let_def)
      have out: "read_field sp rb indata f = [(k, read_value rb (f_type f) (f_extra f) (field_subtype sp f) ?v)]"
        using False base tag by (simp add: read_field_def Let_def)
      from kind(1) consider (int) "f_type f = SPROTO_TINTEGER" | (bool) "f_type f = SPROTO_TBOOLEAN" | (dbl) "f_type f = SPROTO_TDOUBLE"
        | (obj) "f_type f \<in> {SPROTO_TSTRING, SPROTO_TSTRUCT}" by auto
      then show ?thesis
      proof cases
        case int
        let ?n = "int_of ?v"
        have iv: "f_extra f = 0" "integer_ok ?v" using ok int by (simp_all add: value_ok_def)
        have out: "read_field sp rb indata f = [(k, read_int ?n)]" using out int by (simp add: read_value_def)
        define p where "p = (if int32 ?n then (JNum (take_bit 32 ?n), 4 :: int) else (?v, 8))"
        have fmt: "field_format sp left fmt indata f = Inr (Some (number_piece p))"
          using int base left False iv by (simp add: field_format_def Let_def encode_number_integer p_def type_codes)
        have cb: "decode_cb D (args_of sp f) (ArgValue w) ud = DOk (ud\<lparr>ud_result := ud_result ud @ [(k, w)]\<rparr>)"
          if "fresh ud k" for ud w
          using decode_cb_scalar [of "args_of sp f" D "ArgValue w" w ud] args that int base iv
          by (simp add: decode_value_plain)
        have "field_reads sp D f (number_piece p) (read_field sp rb indata f)"
        proof (cases "int32 ?n")
          case True
          have m: "0 \<le> take_bit 32 ?n" by simp
          show ?thesis
          proof (cases "take_bit 32 ?n < 0x7fff")
            case header: True
            have "number_piece p = ((take_bit 32 ?n + 1) * 2, [])" using True header by (simp add: number_piece_def p_def)
            then show ?thesis
              using cb tag int m header True take_bit32_small [OF True header]
              by (auto simp: field_reads_def decode_header_def out read_int_def type_codes)
          next
            case False
            then have np: "number_piece p = (0, sized (dword (take_bit 32 ?n)))"
              using True by (simp add: number_piece_def p_def)
            have "decode_data D f (args_of sp f) (sized (dword (take_bit 32 ?n)) @ more) ud =
                DOk (ud\<lparr>ud_result := ud_result ud @ [(k, JNum ?n)]\<rparr>)" if "fresh ud k" for more ud
              using cb [OF that] int toDword_sized [of "dword (take_bit 32 ?n)" more] read_dword [OF True, of more]
              by (simp add: decode_data_def Let_def type_codes)
            then show ?thesis
              using tag True by (auto simp: field_reads_def np out read_int_def intro!: exI [of _ "dword (take_bit 32 ?n)"])
          qed
        next
          case False
          then have np: "number_piece p = (0, sized (qword ?n))"
            using iv by (simp add: number_piece_def p_def wide_integer)
          have "decode_data D f (args_of sp f) (sized (qword ?n) @ more) ud =
              DOk (ud\<lparr>ud_result := ud_result ud @ [(k, read_wide ?n)]\<rparr>)" if "fresh ud k" for more ud
          proof -
            have "drop 8 (sized (qword ?n) @ more) = drop 4 (qword ?n @ more)" by (simp add: sized_def)
            then show ?thesis
              using cb [OF that] int toDword_sized [of "qword ?n" more] iv(2) read_qword [of ?n more]
              by (simp add: decode_data_def Let_def type_codes integer_ok_def)
          qed
          then show ?thesis
            using tag False by (auto simp: field_reads_def np out read_int_def intro!: exI [of _ "qword ?n"])
        qed
        with fmt show ?thesis by blast
      next
        case bool
        have b: "?v = JBool True \<or> ?v = JBool False" using ok bool by (auto simp: value_ok_def type_codes)
        have out: "read_field sp rb indata f = [(k, ?v)]" using out bool by (simp add: read_value_def type_codes)
        have cb: "decode_cb D (args_of sp f) (ArgValue (JNum (of_bool (?v = JBool True)))) ud =
            DOk (ud\<lparr>ud_result := ud_result ud @ [(k, ?v)]\<rparr>)" if "fresh ud k" for ud
          using decode_cb_scalar [of "args_of sp f" D "ArgValue (JNum (of_bool (?v = JBool True)))" ?v ud] args that bool base b
          by (auto simp: decode_value_plain)
        show ?thesis
          using b cb bool base left False tag
          by (auto simp: field_format_def Let_def field_reads_def decode_header_def out type_codes)
      next
        case dbl
        then have "double_ok ?v" using ok by (simp add: value_ok_def type_codes)
        from read_double [OF this] obtain bs where
          bs: "double_piece ?v = Inr (0, sized (map Some bs))" "length bs = 8" "binaryToDouble (map Some bs) = ?v"
          by blast
        have out: "read_field sp rb indata f = [(k, ?v)]" using out dbl by (simp add: read_value_def type_codes)
        have "decode_value D (args_of sp f) (ArgValue ?v) = DOk ?v"
          using args dbl base by (simp add: decode_value_def type_codes)
        then have cb: "decode_cb D (args_of sp f) (ArgValue ?v) ud = DOk (ud\<lparr>ud_result := ud_result ud @ [(k, ?v)]\<rparr>)"
          if "fresh ud k" for ud
          using decode_cb_scalar [of "args_of sp f" D "ArgValue ?v" ?v ud] args that by simp
        have "decode_data D f (args_of sp f) (sized (map Some bs) @ more) ud =
            DOk (ud\<lparr>ud_result := ud_result ud @ [(k, ?v)]\<rparr>)" if "fresh ud k" for more ud
          using cb [OF that] dbl bs toDword_sized [of "map Some bs" more]
          by (simp add: decode_data_def Let_def type_codes)
        then have "field_reads sp D f (0, sized (map Some bs)) (read_field sp rb indata f)"
          using tag by (auto simp: field_reads_def out intro!: exI [of _ "map Some bs"])
        then show ?thesis
          using dbl base left False bs by (simp add: field_format_def Let_def type_codes)
      next
        case obj
        then have ty: "subtype_ok sp (f_type f) (field_subtype sp f)"
          using field_subtype_ok [OF sp] by (auto simp: subtype_ok_def)
        from read_object [OF D ty ok] obtain bs where
          bs: "object_format fmt (f_type f) (f_extra f) (field_subtype sp f) ?v = Inr bs" and
          rd: "int (length bs) < 2 ^ 32 \<longrightarrow> (\<forall>rest args. a_type args = f_type f \<longrightarrow> a_extra args = f_extra f \<longrightarrow>
             a_subtype args = field_subtype sp f \<longrightarrow>
             decode_value D args (ArgBytes (bs @ rest) (int (length bs))) =
               DOk (read_value rb (f_type f) (f_extra f) (field_subtype sp f) ?v))"
          by blast
        have "decode_data D f (args_of sp f) (sized bs @ more) ud =
            DOk (ud\<lparr>ud_result := ud_result ud @ read_field sp rb indata f\<rparr>)"
          if "int (length bs) < 2 ^ 32" "fresh ud k" for more ud
        proof -
          have "decode_value D (args_of sp f) (ArgBytes (bs @ more) (int (length bs))) =
              DOk (read_value rb (f_type f) (f_extra f) (field_subtype sp f) ?v)"
            using rd that(1) args base by simp
          from decode_cb_scalar [OF args(3) this] that(2) args(1) out
          have "decode_cb D (args_of sp f) (ArgBytes (bs @ more) (int (length bs))) ud =
              DOk (ud\<lparr>ud_result := ud_result ud @ read_field sp rb indata f\<rparr>)" by simp
          then show ?thesis
            using obj toDword_sized [OF that(1), of more] by (auto simp: decode_data_def Let_def type_codes)
        qed
        then have "field_reads sp D f (0, sized bs) (read_field sp rb indata f)"
          using tag by (auto simp: field_reads_def intro!: exI [of _ bs])
        moreover have "field_format sp left fmt indata f = Inr (Some (0, sized bs))"
          using obj base left False bs by (auto simp: field_format_def Let_def type_codes)
        ultimately show ?thesis by blast
      qed
    qed
  qed
qed

subsection \<open>Structs\<close>

lemma one_field:
  assumes word: "drop (i * 2) stream = word16 h @ y" and tag: "tag0 + 1 = f_tag f"
    and rd: "field_reads sp D f (h, d) out" and find: "find_field st (f_tag f) = Field f"
    and fr: "fresh ud (tagname f)" and small: "int (length d) < 2 ^ 32" and rest: "0 \<le> rest"
  shows "\<exists>t. t \<in> {ud_array_tag ud, Some (tagname f)} \<and>
    fields_loop_dec sp D st stream i (Suc k) tag0 (d @ rem) (int (length d) + rest) ud =
    fields_loop_dec sp D st stream (Suc i) k (f_tag f) rem rest (ud\<lparr>ud_array_tag := t, ud_result := ud_result ud @ out\<rparr>)"
proof (cases "h = 0")
  case True
  then obtain b where d: "d = sized b" and all: "int (length b) < 2 ^ 32 \<longrightarrow> (\<forall>more ud. fresh ud (tagname f) \<longrightarrow>
      (\<exists>t. t \<in> {ud_array_tag ud, Some (tagname f)} \<and> decode_data D f (args_of sp f) (d @ more) ud =
         DOk (ud\<lparr>ud_array_tag := t, ud_result := ud_result ud @ out\<rparr>)))"
    using rd by (auto simp: field_reads_def)
  have "int (length b) < 2 ^ 32" using small d by simp
  with all fr obtain t where t: "t \<in> {ud_array_tag ud, Some (tagname f)}"
      "decode_data D f (args_of sp f) (d @ rem) ud = DOk (ud\<lparr>ud_array_tag := t, ud_result := ud_result ud @ out\<rparr>)"
    by blast
  have "toWord (drop (i * 2) stream) = 0" using word True toWord_word16 [of 0 y] by simp
  moreover have "toDword (d @ rem) = int (length b)" using small by (simp add: d toDword_sized)
  ultimately show ?thesis
    using t find tag rest by (intro exI [of _ t]) (auto simp: Let_def d)
next
  case False
  then have h: "d = []" "0 < h" "h < 65536" "even h"
    and rd': "decode_header D f (args_of sp f) (h div 2 - 1) ud = DOk (ud\<lparr>ud_result := ud_result ud @ out\<rparr>)"
    using rd fr by (auto simp: field_reads_def)
  have "toWord (drop (i * 2) stream) = h" using word h toWord_word16 [of h y] by simp
  moreover have "h mod 2 = 0" "\<not> h div 2 - 1 < 0" using h by presburger+
  ultimately show ?thesis
    using h rd' find tag by (intro exI [of _ "ud_array_tag ud"]) (simp add: Let_def)
qed

lemma skip_word:
  assumes "drop (i * 2) stream = word16 ((gap - 1) * 2 + 1) @ y" "0 < gap" "(gap - 1) * 2 + 1 \<le> 0xffff"
  shows "fields_loop_dec sp D st stream i (Suc k) tag0 data left ud =
    fields_loop_dec sp D st stream (Suc i) k (tag0 + gap) data left ud"
proof -
  have "toWord (drop (i * 2) stream) = (gap - 1) * 2 + 1" using assms toWord_word16 by auto
  moreover have "((gap - 1) * 2 + 1) mod 2 \<noteq> 0" "((gap - 1) * 2 + 1) div 2 = gap - 1" by presburger+
  ultimately show ?thesis by (simp add: Let_def)
qed

lemma read_field_key: "fst ` set (read_field sp rb indata f) \<subseteq> {tagname f}"
  by (auto simp: read_field_def Let_def)

lemma next_word: "drop (i * 2) stream = word16 w @ y \<Longrightarrow> drop (Suc i * 2) stream = y"
  by (metis add.commute append_eq_conv_conj drop_drop length_words(1) mult_Suc)

definition field_fits :: "sproto_instance \<Rightarrow> (sproto_type \<Rightarrow> jsval \<Rightarrow> bool) \<Rightarrow> jsval \<Rightarrow> sproto_type \<Rightarrow> sproto_field \<Rightarrow> bool" where
  "field_fits sp ok indata st f \<longleftrightarrow> field_ok sp f \<and> field_value_ok sp ok indata f \<and>
     find_field (Some st) (f_tag f) = Field f \<and> f_name f \<noteq> None \<and> f_name f \<noteq> Some []"

text \<open>What reading the field words and data of a format does, whatever follows in the buffer.\<close>

definition run_reads :: "sproto_instance \<Rightarrow> struct_decoder \<Rightarrow> sproto_type \<Rightarrow> sproto_field list \<Rightarrow> int list \<Rightarrow> int \<Rightarrow> buf \<Rightarrow> jsobj \<Rightarrow> bool" where
  "run_reads sp D st fs ws last' ds out \<longleftrightarrow> (int (length ds) < 2 ^ 32 \<longrightarrow> (\<forall>stream i tail rem extra ud.
     0 \<le> extra \<longrightarrow> drop (i * 2) stream = concat (map word16 ws) @ tail \<longrightarrow> (\<forall>f \<in> set fs. fresh ud (tagname f)) \<longrightarrow>
     (\<exists>t. fields_loop_dec sp D (Some st) stream i (length ws) last' (ds @ rem) (int (length ds) + extra) ud =
        DOk (extra, ud\<lparr>ud_array_tag := t, ud_result := ud_result ud @ out\<rparr>))))"

lemma run_readsD:
  assumes "run_reads sp D st fs ws last' ds out" "int (length ds) < 2 ^ 32" "0 \<le> extra"
    and "drop (i * 2) stream = concat (map word16 ws) @ tail" "\<forall>f \<in> set fs. fresh ud (tagname f)"
  shows "\<exists>t. fields_loop_dec sp D (Some st) stream i (length ws) last' (ds @ rem) (int (length ds) + extra) ud =
    DOk (extra, ud\<lparr>ud_array_tag := t, ud_result := ud_result ud @ out\<rparr>)"
  using assms unfolding run_reads_def by blast

lemma fields_read:
  assumes D: "reads sp D fmt ok rb" and sp: "schema_encodable sp" and left: "left \<noteq> 0"
  shows "\<forall>f \<in> set fs. field_fits sp ok indata st f \<and> last' < f_tag f \<Longrightarrow>
    sorted_wrt (\<lambda>f g. f_tag f < f_tag g) fs \<Longrightarrow> distinct (map f_name fs) \<Longrightarrow> -1 \<le> last' \<Longrightarrow> last' \<le> 32766 \<Longrightarrow>
    \<exists>ws ds. fields_format sp left fmt indata fs last' = Inr (ws, ds) \<and> int (length ws) + last' \<le> 32766 \<and>
      run_reads sp D st fs ws last' ds (concat (map (read_field sp rb indata) fs))"
proof (induction fs arbitrary: last')
  case Nil
  have "\<exists>t. ud = ud\<lparr>ud_array_tag := t\<rparr>" for ud :: user_data
    by (rule exI [of _ "ud_array_tag ud"]) simp
  then have "run_reads sp D st [] [] last' [] []" by (simp add: run_reads_def)
  then show ?case using Nil.prems by simp
next
  case (Cons f fs)
  obtain k where k: "f_name f = Some k" "k \<noteq> []" using Cons.prems(1) by (auto simp: field_fits_def)
  have fit: "field_ok sp f" "field_value_ok sp ok indata f" "find_field (Some st) (f_tag f) = Field f" "last' < f_tag f"
    using Cons.prems(1) by (auto simp: field_fits_def)
  have tags: "f_tag f < 32767" using fit(1) by (auto simp: field_ok_def field_wf_def)
  have sorted: "sorted_wrt (\<lambda>f g. f_tag f < f_tag g) fs" "\<forall>g \<in> set fs. f_tag f < f_tag g" "distinct (map f_name fs)"
    using Cons.prems by auto
  from read_piece [OF D sp fit(1) k fit(2) left] show ?case
  proof (elim disjE conjE exE)
    assume none: "field_format sp left fmt indata f = Inr None" "read_field sp rb indata f = []"
    have "\<forall>g \<in> set fs. field_fits sp ok indata st g \<and> last' < f_tag g" using Cons.prems(1) by simp
    from Cons.IH [OF this sorted(1,3) Cons.prems(4,5)] obtain ws ds where
      IH: "fields_format sp left fmt indata fs last' = Inr (ws, ds)" "int (length ws) + last' \<le> 32766"
      and run: "run_reads sp D st fs ws last' ds (concat (map (read_field sp rb indata) fs))"
      by blast
    have fmt: "fields_format sp left fmt indata (f # fs) last' = Inr (ws, ds)" using none(1) IH(1) by simp
    have out: "concat (map (read_field sp rb indata) (f # fs)) = concat (map (read_field sp rb indata) fs)" using none(2) by simp
    have "run_reads sp D st (f # fs) ws last' ds (concat (map (read_field sp rb indata) fs))"
      using run by (simp add: run_reads_def)
    with fmt IH(2) show ?thesis unfolding out by blast
  next
    fix p assume p: "field_format sp left fmt indata f = Inr (Some p)" "field_reads sp D f p (read_field sp rb indata f)"
    obtain h d where hd: "p = (h, d)" by (cases p)
    have "\<forall>g \<in> set fs. field_fits sp ok indata st g \<and> f_tag f < f_tag g" using Cons.prems(1) sorted(2) by simp
    from Cons.IH [OF this sorted(1,3)] tags fit(4) Cons.prems(4) obtain ws ds where
      IH: "fields_format sp left fmt indata fs (f_tag f) = Inr (ws, ds)" "int (length ws) + f_tag f \<le> 32766"
      and run: "run_reads sp D st fs ws (f_tag f) ds (concat (map (read_field sp rb indata) fs))"
      by auto
    define gap where "gap = f_tag f - last' - 1"
    define pre where "pre = (if gap > 0 then [(gap - 1) * 2 + 1] else [])"
    have gap: "0 \<le> gap" "(gap - 1) * 2 + 1 \<le> 0xffff" using fit(4) tags Cons.prems(4) by (auto simp: gap_def)
    have fmt: "fields_format sp left fmt indata (f # fs) last' = Inr (pre @ h # ws, d @ ds)"
      using p(1) hd IH(1) gap by (auto simp: Let_def pre_def simp flip: gap_def)
    have len: "int (length (pre @ h # ws)) + last' \<le> 32766"
      using IH(2) fit(4) by (auto simp: pre_def gap_def)
    have "\<exists>t. fields_loop_dec sp D (Some st) stream i (length (pre @ h # ws)) last' ((d @ ds) @ rem) (int (length (d @ ds)) + extra) ud =
            DOk (extra, ud\<lparr>ud_array_tag := t, ud_result := ud_result ud @ concat (map (read_field sp rb indata) (f # fs))\<rparr>)"
      if small: "int (length (d @ ds)) < 2 ^ 32" and stream: "drop (i * 2) stream = concat (map word16 (pre @ h # ws)) @ tail"
        and fr: "\<forall>g \<in> set (f # fs). fresh ud (tagname g)" and extra: "0 \<le> extra" for stream i tail rem extra ud
    proof -
      define i' where "i' = i + length pre"
      have st': "drop (i' * 2) stream = word16 h @ concat (map word16 ws) @ tail"
        using stream next_word [of i stream] by (auto simp: i'_def pre_def split: if_splits)
      have skip: "fields_loop_dec sp D (Some st) stream i (length (pre @ h # ws)) last' data left' ud =
          fields_loop_dec sp D (Some st) stream i' (Suc (length ws)) (last' + gap) data left' ud" for data left'
        using stream gap skip_word [of i stream gap "word16 h @ concat (map word16 ws) @ tail"]
        by (cases "gap > 0") (simp_all add: pre_def i'_def del: fields_loop_dec.simps)
      have d32: "int (length d) < 2 ^ 32" "int (length ds) < 2 ^ 32" using small by simp_all
      obtain t where t: "t \<in> {ud_array_tag ud, Some (tagname f)}"
        and step: "fields_loop_dec sp D (Some st) stream i' (Suc (length ws)) (last' + gap) (d @ (ds @ rem)) (int (length d) + (int (length ds) + extra)) ud =
          fields_loop_dec sp D (Some st) stream (Suc i') (length ws) (f_tag f) (ds @ rem) (int (length ds) + extra)
            (ud\<lparr>ud_array_tag := t, ud_result := ud_result ud @ read_field sp rb indata f\<rparr>)"
        using one_field [OF st' _ p(2) [unfolded hd] fit(3) _ d32(1), of "last' + gap" ud "int (length ds) + extra" "length ws" "ds @ rem"] fr extra
        by (auto simp: gap_def simp del: fields_loop_dec.simps)
      have "fresh (ud\<lparr>ud_array_tag := t, ud_result := ud_result ud @ read_field sp rb indata f\<rparr>) (tagname g)" if "g \<in> set fs" for g
      proof -
        have "f_name f \<notin> f_name ` set fs" using Cons.prems(3) by simp
        with imageI [OF that, of f_name] have "f_name g \<noteq> f_name f" by metis
        moreover have "f_name g \<noteq> None" "f_name g \<noteq> Some []"
          using Cons.prems(1) that by (auto simp: field_fits_def)
        ultimately have "tagname g \<noteq> tagname f" using k tagname_simp [OF k] by (auto simp: tagname_def)
        with fr that t read_field_key [of sp rb indata f] show ?thesis by (auto simp: fresh_def)
      qed
      then obtain t' where
        "fields_loop_dec sp D (Some st) stream (Suc i') (length ws) (f_tag f) (ds @ rem) (int (length ds) + extra)
            (ud\<lparr>ud_array_tag := t, ud_result := ud_result ud @ read_field sp rb indata f\<rparr>) =
          DOk (extra, (ud\<lparr>ud_array_tag := t, ud_result := ud_result ud @ read_field sp rb indata f\<rparr>)
            \<lparr>ud_array_tag := t', ud_result := (ud_result ud @ read_field sp rb indata f) @ concat (map (read_field sp rb indata) fs)\<rparr>)"
        using run_readsD [OF run d32(2) extra next_word [OF st'], of _ rem] by fastforce
      then show ?thesis unfolding skip using step by (intro exI [of _ t']) (simp add: add.assoc)
    qed
    then have "run_reads sp D st (f # fs) (pre @ h # ws) last' (d @ ds) (concat (map (read_field sp rb indata) (f # fs)))"
      unfolding run_reads_def by blast
    with fmt len show ?thesis by blast
  qed
qed

lemma type_field_found:
  assumes "type_wf tn st" "f \<in> set (type_fields st)"
  shows "findTag st (f_tag f) = Field f"
proof -
  obtain fs where fs: "t_f st = Some fs" "f \<in> set fs" "sorted_wrt (\<lambda>f g. f_tag f < f_tag g) fs"
    using assms by (auto simp: type_fields_def type_wf_def fields_wf_def split: option.splits dest: in_set_takeD)
  then have "field_of st (f_tag f) = Some f"
    using find_key_mem [OF sorted_tags_distinct [OF fs(3)] fs(2)] by (simp add: field_of_def)
  then show ?thesis using findTag_spec [OF assms(1)] by simp
qed

lemma encodable_found:
  assumes "encodable sp st"
  shows "\<forall>f \<in> set (type_fields st). field_ok sp f \<and> find_field (Some st) (f_tag f) = Field f \<and> f_name f \<noteq> None \<and> 0 \<le> f_tag f"
    and "sorted_wrt (\<lambda>f g. f_tag f < f_tag g) (type_fields st)"
proof -
  have wf: "type_wf (s_type_n sp) st" using assms by (simp add: encodable_def)
  show "sorted_wrt (\<lambda>f g. f_tag f < f_tag g) (type_fields st)"
    using wf by (auto simp: type_fields_def type_wf_def fields_wf_def split: option.splits)
  show "\<forall>f \<in> set (type_fields st). field_ok sp f \<and> find_field (Some st) (f_tag f) = Field f \<and> f_name f \<noteq> None \<and> 0 \<le> f_tag f"
    using encodable_fields(1) [OF assms] type_field_found [OF wf] by (auto simp: find_field_def field_ok_def field_wf_def)
qed

lemma reads_Suc:
  assumes D: "reads sp D (sproto_format sp left) (object_ok sp left) (read_back sp left)" and sp: "schema_encodable sp"
    and fix_eq: "\<And>st b len. D st b len = decode_struct sp D st b len"
  shows "reads sp D (sproto_format sp (Suc left)) (object_ok sp (Suc left)) (read_back sp (Suc left))"
  unfolding reads_def
proof (intro allI impI)
  fix st v assume st: "encodable sp st" and ok: "object_ok sp (Suc left) st v"
  have fits: "\<forall>f \<in> set (type_fields st). field_fits sp (object_ok sp left) v st f \<and> -1 < f_tag f"
    using ok encodable_found(1) [OF st] by (auto simp: field_fits_def names_ok_def list_all_iff)
  have names: "distinct (map f_name (type_fields st))" using ok by (simp add: names_ok_def)
  from fields_read [OF D sp _ fits encodable_found(2) [OF st] names, of "Suc left"] obtain ws ds where
    fmt: "fields_format sp (Suc left) (sproto_format sp left) v (type_fields st) (-1) = Inr (ws, ds)"
    and n: "int (length ws) \<le> 32767"
    and run: "run_reads sp D st (type_fields st) ws (-1) ds (concat (map (read_field sp (read_back sp left) v) (type_fields st)))"
    by auto
  let ?bs = "struct_bytes ws ds" and ?out = "concat (map (read_field sp (read_back sp left) v) (type_fields st))"
  have "D (Some st) (?bs @ rest) (int (length ?bs) + extra) = DOk (int (length ?bs), ?out)"
    if small: "int (length ?bs) < 2 ^ 32" and extra: "0 \<le> extra" for rest extra
  proof -
    have len: "length ?bs = 2 + 2 * length ws + length ds" by (simp add: struct_bytes_def)
    have fn: "toWord (?bs @ rest) = int (length ws)"
      using n by (simp add: struct_bytes_def toWord_word16)
    have stream: "drop 2 (?bs @ rest) = concat (map word16 ws) @ ds @ rest" by (simp add: struct_bytes_def)
    have data: "drop (nat (int (length ws) * 2)) (concat (map word16 ws) @ ds @ rest) = ds @ rest"
    proof -
      have "nat (int (length ws) * 2) = length (concat (map word16 ws))" by simp
      moreover have "drop (length xs) (xs @ ys) = ys" for xs ys :: buf by simp
      ultimately show ?thesis by (simp only:)
    qed
    have "\<forall>f \<in> set (type_fields st). fresh new_ud (tagname f)" by (simp add: fresh_def new_ud_def)
    with run_readsD [OF run _ extra, of 0 "concat (map word16 ws) @ ds @ rest" "ds @ rest" new_ud rest] small len
    obtain t where t: "fields_loop_dec sp D (Some st) (concat (map word16 ws) @ ds @ rest) 0 (length ws) (-1) (ds @ rest) (int (length ds) + extra) new_ud =
        DOk (extra, new_ud\<lparr>ud_array_tag := t, ud_result := ud_result new_ud @ ?out\<rparr>)"
      by auto
    have left: "int (length ?bs) + extra - 2 - int (length ws) * 2 = int (length ds) + extra" using len by simp
    show ?thesis
      unfolding fix_eq [of "Some st" "?bs @ rest"] decode_struct_def Let_def fn stream data left
      using t len extra by (simp add: new_ud_def)
  qed
  with fmt show "\<exists>bs kvs. sproto_format sp (Suc left) st v = Inr bs \<and> read_back sp (Suc left) st v = JObj kvs \<and>
      (int (length bs) < 2 ^ 32 \<longrightarrow> 
        (\<forall>rest extra. 0 \<le> extra \<longrightarrow> D (Some st) (bs @ rest) (int (length bs) + extra) = DOk (int (length bs), kvs)))"
    by (simp add: struct_format_def)
qed

subsection \<open>The decoder without fuel\<close>

definition decoder :: "sproto_instance \<Rightarrow> struct_decoder" where
  "decoder sp st b len = sprotoDecode sp (nat len) st b len"

lemma decoder_unfold: "decoder sp st b len = decode_struct sp (decoder sp) st b len"
proof (cases "nat len")
  case 0
  then have "len < 2" by simp
  then show ?thesis by (simp add: decoder_def 0 decode_struct_def)
next
  case (Suc n)
  have "sprotoDecode sp n st' b' len' = decoder sp st' b' len'" if "len' < len" for st' b' len'
    unfolding decoder_def using that Suc by (intro sprotoDecode_fuel) auto
  then have "agree_below len (sprotoDecode sp n) (decoder sp)" by (simp add: agree_below_def)
  from decode_struct_cong [OF this] show ?thesis by (simp add: decoder_def Suc)
qed

lemma decoder_reads:
  assumes "schema_encodable sp"
  shows "reads sp (decoder sp) (sproto_format sp left) (object_ok sp left) (read_back sp left)"
proof (induction left)
  case 0
  show ?case by (simp add: reads_def)
next
  case (Suc left)
  from reads_Suc [OF Suc assms decoder_unfold] show ?case .
qed

lemma decode_all_decoder: "decode_all sp st inbuf = decoder sp st inbuf (int (length inbuf))"
  by (simp add: decode_all_def decoder_def)

subsection \<open>The round trip of the exported functions\<close>

lemma api_roundtrip:
  assumes "schema_encodable sp" and "encodable sp st" and "object_ok sp ENCODE_DEEPLEVEL st v"
  shows "\<exists>bs kvs. sproto_format sp ENCODE_DEEPLEVEL st v = Inr bs \<and> api_encode sp st v = Inr (Some bs) \<and>
    read_back sp ENCODE_DEEPLEVEL st v = JObj kvs \<and>
    (int (length bs) < 2 ^ 32 \<longrightarrow>
       (\<forall>rest. api_decode sp (Some st) (bs @ rest) = DOk (Some kvs) \<and>
          api_objlen sp (Some st) (bs @ rest) = DOk (int (length bs))))"
proof -
  obtain bs kvs where bs: "sproto_format sp ENCODE_DEEPLEVEL st v = Inr bs" "read_back sp ENCODE_DEEPLEVEL st v = JObj kvs"
    and all: "int (length bs) < 2 ^ 32 \<longrightarrow>
      (\<forall>rest extra. 0 \<le> extra \<longrightarrow> decoder sp (Some st) (bs @ rest) (int (length bs) + extra) = DOk (int (length bs), kvs))"
    using decoder_reads [OF assms(1), of ENCODE_DEEPLEVEL] assms(2,3) unfolding reads_def by blast
  have "sprotoEncode sp ENCODE_DEEPLEVEL st v [] 0 = Inr (int (length bs), put_list [] 0 bs)"
    using sprotoEncode_writes [OF assms(1), of ENCODE_DEEPLEVEL] assms(2) bs(1) by (simp add: writes_def)
  then have "api_encode sp st v = Inr (Some bs)"
    using put_list_append [of 0 "[]" bs] by (simp add: api_encode_def)
  moreover have "decode_all sp (Some st) (bs @ rest) = DOk (int (length bs), kvs)" if "int (length bs) < 2 ^ 32" for rest
    using all that by (simp add: decode_all_decoder)
  ultimately show ?thesis using bs by (auto simp: api_decode_def api_objlen_def)
qed

end
