(* ===== verification/SprotoDemo.thy ===== *)
theory SprotoDemo
  imports SprotoEncode_Correct
begin

section \<open>A schema bundle for the examples\<close>

text \<open>
  The bundle of a small schema, as the schema compiler writes it: the package header, a type with
  a gap in its tags, a type with an array of structs, an array of integers and a boolean, and two
  protocols. It loads to \<open>demo_schema\<close>; the witnesses of the codec theorems run on it.
\<close>

definition demo_spb :: "byte list" where
  "demo_spb = [
    2, 0, 0, 0, 0, 0, 254, 0, 0, 0, 73, 0, 0, 0, 2, 0, 0, 0, 0, 0, 12, 0, 0, 0, 98, 97, 115, 101,
    46, 112, 97, 99, 107, 97, 103, 101, 47, 0, 0, 0, 18, 0, 0, 0, 4, 0, 0, 0, 2, 0, 1, 0, 2, 0, 4,
    0, 0, 0, 116, 121, 112, 101, 21, 0, 0, 0, 4, 0, 0, 0, 2, 0, 1, 0, 4, 0, 7, 0, 0, 0, 115, 101,
    115, 115, 105, 111, 110, 59, 0, 0, 0, 2, 0, 0, 0, 0, 0, 4, 0, 0, 0, 105, 116, 101, 109, 41, 0,
    0, 0, 16, 0, 0, 0, 4, 0, 0, 0, 2, 0, 1, 0, 4, 0, 2, 0, 0, 0, 105, 100, 17, 0, 0, 0, 4, 0, 0, 0,
    6, 0, 1, 0, 8, 0, 3, 0, 0, 0, 116, 97, 103, 110, 0, 0, 0, 2, 0, 0, 0, 0, 0, 3, 0, 0, 0, 98, 97,
    103, 93, 0, 0, 0, 18, 0, 0, 0, 4, 0, 0, 0, 6, 0, 1, 0, 2, 0, 4, 0, 0, 0, 110, 97, 109, 101, 21,
    0, 0, 0, 5, 0, 0, 0, 1, 0, 4, 0, 4, 0, 4, 0, 5, 0, 0, 0, 105, 116, 101, 109, 115, 20, 0, 0, 0,
    5, 0, 0, 0, 2, 0, 1, 0, 6, 0, 4, 0, 4, 0, 0, 0, 110, 117, 109, 115, 18, 0, 0, 0, 4, 0, 0, 0, 4,
    0, 1, 0, 12, 0, 4, 0, 0, 0, 111, 112, 101, 110, 43, 0, 0, 0, 21, 0, 0, 0, 4, 0, 0, 0, 4, 0, 4,
    0, 6, 0, 7, 0, 0, 0, 98, 97, 103, 46, 103, 101, 116, 14, 0, 0, 0, 2, 0, 0, 0, 6, 0, 4, 0, 0, 0,
    112, 105, 110, 103]"

definition plain_field :: "string \<Rightarrow> int \<Rightarrow> int \<Rightarrow> sproto_field" where
  "plain_field name tag ty =
     \<lparr>f_tag = tag, f_type = ty, f_name = Some (js name), f_st = None, f_key = -1, f_extra = 0\<rparr>"

definition package_type :: sproto_type where
  "package_type = \<lparr>t_name = Some (js ''base.package''), t_n = 2, t_base = 0, t_maxn = 2,
     t_f = Some [plain_field ''type'' 0 SPROTO_TINTEGER, plain_field ''session'' 1 SPROTO_TINTEGER]\<rparr>"

definition item_type :: sproto_type where
  "item_type = \<lparr>t_name = Some (js ''item''), t_n = 2, t_base = -1, t_maxn = 4,
     t_f = Some [plain_field ''id'' 1 SPROTO_TINTEGER, plain_field ''tag'' 3 SPROTO_TSTRING]\<rparr>"

definition bag_type :: sproto_type where
  "bag_type = \<lparr>t_name = Some (js ''bag''), t_n = 4, t_base = -1, t_maxn = 5,
     t_f = Some [plain_field ''name'' 0 SPROTO_TSTRING,
       (plain_field ''items'' 1 (SPROTO_TSTRUCT OR SPROTO_TARRAY))\<lparr>f_st := Some 1\<rparr>,
       plain_field ''nums'' 2 (SPROTO_TINTEGER OR SPROTO_TARRAY),
       plain_field ''open'' 5 SPROTO_TBOOLEAN]\<rparr>"

definition demo_protocols :: "sproto_protocol list" where
  "demo_protocols =
     [\<lparr>p_name = Some (js ''bag.get''), p_tag = 1, p_request = Some item_type, p_response = Some bag_type, p_confirm = 0\<rparr>,
      \<lparr>p_name = Some (js ''ping''), p_tag = 2, p_request = None, p_response = None, p_confirm = 0\<rparr>]"

definition demo_schema :: sproto_instance where
  "demo_schema = \<lparr>s_type_n = 3, s_protocol_n = 2, s_type = Some [package_type, item_type, bag_type],
     s_proto = Some demo_protocols\<rparr>"

lemma demo_loaded: "createNew (map Some demo_spb) = Loaded demo_schema"
  by code_simp

lemma demo_wf: "schema_wf demo_schema"
  by (rule createNew_wf [OF demo_loaded])

lemma demo_encodable: "schema_encodable demo_schema" "encodable demo_schema bag_type" "encodable demo_schema package_type"
    "encodable demo_schema item_type"
proof -
  have wf: "type_wf (s_type_n demo_schema) t" if "t \<in> {package_type, item_type, bag_type}" for t
    using demo_wf that by (auto simp: schema_wf_def demo_schema_def)
  have "list_all (\<lambda>t. list_all (\<lambda>f. f_type f \<noteq> SPROTO_TDOUBLE OR SPROTO_TARRAY) (type_fields t)) [package_type, item_type, bag_type]"
    by code_simp
  with wf have all: "encodable demo_schema t" if "t \<in> {package_type, item_type, bag_type}" for t
    using that by (auto simp: encodable_def list_all_iff)
  then show "schema_encodable demo_schema" "encodable demo_schema bag_type" "encodable demo_schema package_type"
    "encodable demo_schema item_type"
    by (auto simp: schema_encodable_def demo_schema_def)
qed

lemma demo_ordered: "protocols_ordered demo_schema"
  unfolding protocols_ordered_def demo_schema_def by code_simp

end
