(* ===== verification/Codec_Props.thy ===== *)
theory Codec_Props
  imports SprotoDecode_Correct SprotoDemo
begin

section \<open>Properties of schemas, encoding and decoding\<close>

text \<open>
  The user-facing theorems about schema loading, the lookups and the struct codec of
  \<open>sproto.ts\<close>, with runs on the demo schema as witnesses.
\<close>

subsection \<open>Schemas\<close>

text \<open>
  C14. A bundle that loads gives a well-formed schema, whatever its bytes: the counts are the lengths
  of the lists; every field has a name, a tag and a scalar or array type; struct fields point to a
  type of the schema; tags strictly increase; the base and the field word count of each type are
  what the codec relies on; protocols refer to types of the schema.
\<close>

theorem loaded_schema_wf:
  assumes "createNew spb = Loaded s"
  shows "schema_wf s"
  using assms by (rule createNew_wf)

theorem loaded_schema_wf_witness: "schema_wf demo_schema \<and> s_type demo_schema = Some [package_type, item_type, bag_type]"
  using loaded_schema_wf [OF demo_loaded] by (simp add: demo_schema_def)

text \<open>
  C15. Looking up a field by tag in a type of a loaded schema finds the field with that tag if there
  is one, by index in a gapless type and by binary search otherwise. If there is none the answer is
  \<open>null\<close>, except for the tag just behind a gapless type: the guard lets the index through, and the
  answer is \<open>undefined\<close> (or the lookup throws, in a type without fields).
\<close>

theorem findTag_finds_field:
  assumes "createNew spb = Loaded s" and "s_type s = Some ts" and "t \<in> set ts"
  shows "findTag t tag =
    (case find (\<lambda>f. f_tag f = tag) (case t_f t of None \<Rightarrow> [] | Some fs \<Rightarrow> fs) of
       Some f \<Rightarrow> Field f
     | None \<Rightarrow> if t_base t \<ge> 0 \<and> tag = t_base t + int (t_n t)
               then (if t_f t = None then FieldThrows else FieldUndefined) else NoField)"
  using createNew_wf [OF assms(1)] assms(2,3) findTag_spec [of "s_type_n s" t tag]
  by (auto simp: schema_wf_def field_of_def)

theorem findTag_finds_field_witness:
  "findTag item_type 3 = Field (plain_field ''tag'' 3 SPROTO_TSTRING) \<and> findTag package_type 2 = FieldUndefined"
proof -
  have ts: "s_type demo_schema = Some [package_type, item_type, bag_type]" by (simp add: demo_schema_def)
  have "item_type \<in> set [package_type, item_type, bag_type]" "package_type \<in> set [package_type, item_type, bag_type]" by simp_all
  from findTag_finds_field [OF demo_loaded ts this(1), of 3] findTag_finds_field [OF demo_loaded ts this(2), of 2]
  show ?thesis by (simp add: item_type_def package_type_def plain_field_def)
qed

text \<open>
  C16. The protocol cache is transparent: when the protocols of the schema are sorted by tag and have
  names of their own, then after any sequence of lookups by name and by tag, starting from an empty
  cache, the next lookup answers exactly as the uncached search in the schema does.
\<close>

theorem protocol_cache_transparent:
  assumes "protocols_ordered s"
  shows "fst (queryProtoFunc s key (fold (\<lambda>k c. snd (queryProtoFunc s k c)) asked (\<lambda>k. None))) = protocol s key"
  using proto_cache.lookup_sound [OF assms proto_cache.lookups_sound [OF assms proto_cache.sound_empty]] by simp

theorem protocol_cache_transparent_witness:
  "fst (queryProtoFunc demo_schema (ByTag 2)
     (fold (\<lambda>k c. snd (queryProtoFunc demo_schema k c)) [ByName (js ''ping''), ByTag 7] (\<lambda>k. None))) =
   Some \<lparr>i_tag = 2, i_name = js ''ping'', i_request = None, i_response = None\<rparr>"
proof -
  have "protocol demo_schema (ByTag 2) = Some \<lparr>i_tag = 2, i_name = js ''ping'', i_request = None, i_response = None\<rparr>"
    by code_simp
  then show ?thesis using protocol_cache_transparent [OF demo_ordered, of "ByTag 2" "[ByName (js ''ping''), ByTag 7]"] by simp
qed

subsection \<open>Encoding and decoding\<close>

text \<open>
  C6. The in-place encoder of structs refines the format: on every schema without arrays of doubles,
  every value and every nesting depth, encoding at the end of an array appends exactly the bytes
  of the reference serializer and returns their number, or fails with the error of the reference.
  The room it sets aside for the header is closed by moving the data down.
\<close>

theorem encode_writes_format:
  assumes "schema_encodable sp" and "encodable sp st"
  shows "sprotoEncode sp depth st v b (length b) =
    (case sproto_format sp depth st v of
       Inl e \<Rightarrow> Inl e
     | Inr bs \<Rightarrow> Inr (int (length bs), b @ bs))"
  using sprotoEncode_writes [OF assms(1), of depth] assms(2) put_list_behind [of b "length b"]
  by (auto simp: writes_def split: sum.split) (metis append.right_neutral pad_id order_refl put_list.simps(1))

definition demo_bag :: jsval where
  "demo_bag = JObj [(js ''name'', JStr (js ''ab'')),
     (js ''items'', JArr [JObj [(js ''id'', JNum 70000), (js ''tag'', JStr (js ''x''))], JObj [(js ''id'', JBig (-2))]]),
     (js ''nums'', JArr [JNum 1, JNum (-1), JNum 4294967296]),
     (js ''open'', JBool True)]"

definition demo_bytes :: buf where
  "demo_bytes = map Some
    [5, 0, 0, 0, 0, 0, 0, 0, 3, 0, 4, 0,
     2, 0, 0, 0, 97, 98,
     45, 0, 0, 0,
       23, 0, 0, 0, 4, 0, 1, 0, 0, 0, 1, 0, 0, 0, 4, 0, 0, 0, 112, 17, 1, 0, 1, 0, 0, 0, 120,
       14, 0, 0, 0, 2, 0, 1, 0, 0, 0, 4, 0, 0, 0, 254, 255, 255, 255,
     25, 0, 0, 0, 8, 1, 0, 0, 0, 0, 0, 0, 0, 255, 255, 255, 255, 255, 255, 255, 255, 0, 0, 0, 0, 1, 0, 0, 0]"

lemma demo_format: "sproto_format demo_schema 64 bag_type demo_bag = Inr demo_bytes"
  by code_simp

theorem encode_writes_format_witness:
  "sprotoEncode demo_schema 64 bag_type demo_bag [Some 9] 1 = Inr (96, Some 9 # demo_bytes)"
  using encode_writes_format [OF demo_encodable(1,2), of 64 demo_bag "[Some 9]"] demo_format
  by (simp add: demo_bytes_def)

text \<open>
  C5. Decoding inverts encoding, for every schema without arrays of doubles and every value that fits
  its type to the depth the encoder allows. The encoder succeeds; decoding its bytes (as long as
  their number fits the 32-bit length words), with whatever behind them, gives the object back with
  missing arrays as empty arrays and integers normalised to \<open>number\<close> or \<open>bigint\<close> by their
  size; \<open>objlen\<close> tells where the object ends.
\<close>

theorem decode_inverts_encode:
  assumes "schema_encodable sp" and "encodable sp st" and "object_ok sp ENCODE_DEEPLEVEL st v"
  shows "\<exists>b. api_encode sp st v = Inr (Some b) \<and>
    (int (length b) < 2 ^ 32 \<longrightarrow> (\<exists>kvs. read_back sp ENCODE_DEEPLEVEL st v = JObj kvs \<and>
       (\<forall>rest. api_decode sp (Some st) (b @ rest) = DOk (Some kvs) \<and>
          api_objlen sp (Some st) (b @ rest) = DOk (int (length b)))))"
  using api_roundtrip [OF assms] by fastforce

theorem decode_inverts_encode_witness:
  "api_encode demo_schema bag_type demo_bag = Inr (Some demo_bytes) \<and>
   api_decode demo_schema (Some bag_type) (demo_bytes @ [Some 7]) = DOk (Some
     [(js ''name'', JStr (js ''ab'')),
      (js ''items'', JArr [JObj [(js ''id'', JNum 70000), (js ''tag'', JStr (js ''x''))], JObj [(js ''id'', JNum (-2))]]),
      (js ''nums'', JArr [JNum 1, JBig (-1), JNum 4294967296]),
      (js ''open'', JBool True)])"
proof -
  have e: "api_encode demo_schema bag_type demo_bag = Inr (Some demo_bytes)"
    using encode_writes_format [OF demo_encodable(1,2), of 64 demo_bag "[]"] demo_format
    by (simp add: api_encode_def ENCODE_DEEPLEVEL_def)
  have "object_ok demo_schema ENCODE_DEEPLEVEL bag_type demo_bag" by code_simp
  moreover have "read_back demo_schema ENCODE_DEEPLEVEL bag_type demo_bag = JObj
     [(js ''name'', JStr (js ''ab'')),
      (js ''items'', JArr [JObj [(js ''id'', JNum 70000), (js ''tag'', JStr (js ''x''))], JObj [(js ''id'', JNum (-2))]]),
      (js ''nums'', JArr [JNum 1, JBig (-1), JNum 4294967296]),
      (js ''open'', JBool True)]" by code_simp
  moreover have "int (length demo_bytes) < 2 ^ 32" by (simp add: demo_bytes_def)
  ultimately show ?thesis using decode_inverts_encode [OF demo_encodable(1,2), of demo_bag] e by auto
qed

text \<open>
  C36. Decoding needs no fuel: on every input, well formed or not, the decoder satisfies the recursion
  of the code, in which a nested struct is decoded by the decoder itself without a depth limit.
  So it returns on every input: each nesting consumes at least the four bytes of a length word.
\<close>

theorem decoding_terminates:
  "decode_all sp st inbuf =
     decode_struct sp (\<lambda>st' b len. sprotoDecode sp (nat len) st' b len) st inbuf (int (length inbuf))"
proof -
  have "decoder sp = (\<lambda>st' b len. sprotoDecode sp (nat len) st' b len)" by (intro ext) (simp add: decoder_def)
  then show ?thesis using decoder_unfold [of sp st inbuf "int (length inbuf)"] by (simp add: decode_all_decoder)
qed

lemma bind_dec_DOk: "bind_dec m f = DOk x \<longleftrightarrow> (\<exists>y. m = DOk y \<and> f y = DOk x)"
  by (cases m) simp_all

lemma fields_loop_left:
  "fields_loop_dec sp sub st stream i k tag datastream left ud = DOk (left', ud') \<Longrightarrow> 0 \<le> left \<Longrightarrow>
    0 \<le> left' \<and> left' \<le> left"
proof (induction k arbitrary: i tag datastream left ud)
  case (Suc k)
  let ?word = "toWord (drop (i * 2) stream)" and ?sz = "toDword datastream"
  show ?case
  proof (cases "?word mod 2 \<noteq> 0")
    case True
    then have "fields_loop_dec sp sub st stream (Suc i) k (tag + 1 + ?word div 2) datastream left ud = DOk (left', ud')"
      using Suc.prems(1) by (simp add: Let_def)
    from Suc.IH [OF this Suc.prems(2)] show ?thesis .
  next
    case False
    define left1 where "left1 = (if ?word div 2 - 1 < 0 then left - (?sz + 4) else left)"
    have "0 \<le> left1 \<and> left1 \<le> left"
      using False Suc.prems toDword_nonneg [of datastream] by (auto simp: Let_def left1_def split: if_splits)
    moreover obtain i' tag' data' ud'' where "fields_loop_dec sp sub st stream i' k tag' data' left1 ud'' = DOk (left', ud')"
      using False Suc.prems(1) unfolding left1_def
      by (cases "find_field st (tag + 1)") (auto simp: Let_def bind_dec_DOk split: if_splits)
    ultimately show ?thesis using Suc.IH by fastforce
  qed
qed simp

text \<open>
  C37. \<open>objlen\<close> answers -1 or the number of bytes the object takes, never more than there are: the
  cut that separates a package header from the body stays inside the packet.
\<close>

theorem objlen_bounds:
  assumes "api_objlen sp st inbuf = DOk r"
  shows "r = -1 \<or> (2 \<le> r \<and> r \<le> int (length inbuf))"
proof -
  have "2 \<le> r \<and> r \<le> int (length inbuf)" if ok: "decode_all sp st inbuf = DOk (r, res)" for res
  proof -
    let ?sub = "\<lambda>st' b len. sprotoDecode sp (nat len) st' b len"
    let ?left = "int (length inbuf) - 2 - toWord inbuf * 2"
    obtain rest ud data where "fields_loop_dec sp ?sub st (drop 2 inbuf) 0 (nat (toWord inbuf)) (-1) data ?left new_ud = DOk (rest, ud)"
      and r: "r = int (length inbuf) - rest" "toWord inbuf * 2 \<le> int (length inbuf) - 2"
      using ok unfolding decoding_terminates decode_struct_def
      by (auto simp: Let_def bind_dec_DOk not_less split: if_splits)
    from fields_loop_left [OF this(1)] r toWord_nonneg [of inbuf] show ?thesis by simp
  qed
  with assms show ?thesis by (auto simp: api_objlen_def split: dec.splits)
qed

theorem objlen_bounds_witness:
  "api_objlen demo_schema (Some item_type) (map Some [1, 0, 3, 0]) = DOk 4 \<and> (4 :: int) \<le> int (length (map Some [1, 0, 3, 0 :: byte]))"
proof -
  have e: "api_objlen demo_schema (Some item_type) (map Some [1, 0, 3, 0]) = DOk 4" by code_simp
  with objlen_bounds [OF e] show ?thesis by simp
qed

text \<open>
  C38. A field the reader does not know is not always skipped: on a loaded type whose tags run from 0
  without a gap, a packet that carries the next tag makes decoding throw, although it is a valid
  packet of the same type with one more field at its end.
\<close>

theorem next_tag_crashes_reader:
  assumes "createNew spb = Loaded s" and "s_type s = Some ts" and "t \<in> set ts"
    and "t_base t = 0" and "0 < t_n t" and "t_n t \<le> 32767"
  shows "api_decode s (Some t) (word16 2 @ word16 (2 * int (t_n t) - 1) @ word16 4) = DThrow"
proof -
  let ?n = "int (t_n t)"
  let ?b = "word16 2 @ word16 (2 * ?n - 1) @ word16 4"
  have wf: "type_wf (s_type_n s) t" using createNew_wf [OF assms(1)] assms(2,3) by (auto simp: schema_wf_def)
  obtain fs where fs: "t_f t = Some fs" "length fs = t_n t"
    using wf assms(5) by (auto simp: type_wf_def split: option.splits)
  have find: "find_field (Some t) ?n = FieldUndefined"
    using assms(4) fs by (simp add: find_field_def findTag_def)
  have len: "length ?b = 6" by simp
  have w0: "toWord ?b = 2" by (simp add: toWord_word16)
  have "drop 2 ?b = word16 (2 * ?n - 1) @ word16 4" by simp
  then have w1: "toWord (drop 2 ?b) = 2 * ?n - 1" using assms(5,6) by (simp add: toWord_word16)
  have "drop 2 (drop 2 ?b) = word16 4 @ []" by simp
  then have w2: "toWord (drop 2 (drop 2 ?b)) = 4" using toWord_word16 [of 4 "[]"] by simp
  have odd: "(2 * ?n - 1) mod 2 = 1" "(2 * ?n - 1) div 2 = ?n - 1" by presburger+
  show ?thesis
    unfolding api_decode_def decoding_terminates decode_struct_def Let_def w0 len
    using w1 w2 odd find by (simp add: eval_nat_numeral Let_def del: drop_append drop_drop)
qed

theorem next_tag_crashes_reader_witness:
  "api_decode demo_schema (Some package_type) (word16 2 @ word16 3 @ word16 4) = DThrow"
proof -
  have "s_type demo_schema = Some [package_type, item_type, bag_type]" by (simp add: demo_schema_def)
  from next_tag_crashes_reader [OF demo_loaded this, of package_type] show ?thesis by (simp add: package_type_def)
qed

subsection \<open>Doubles\<close>

text \<open>
  C39. A finite double that is not \<open>-0\<close> survives the arithmetic writer and the reader bit for bit:
  the writer ends, announces eight bytes, and the reader gives back the number with the same bits.
\<close>

theorem double_field_roundtrip:
  assumes "dbl_finite w" and "w \<noteq> 0x8000000000000000"
  shows "\<exists>d. doubleToBinary w data i = Some (12, d) \<and> toDword (drop i d) = 8 \<and>
    binaryToDouble (take 8 (drop (i + 4) d)) = num_of_dbl w"
  using assms by (rule double_roundtrip)

theorem double_field_roundtrip_witness:
  "\<exists>d. doubleToBinary 0x3FF8000000000000 [] 0 = Some (12, d) \<and> binaryToDouble (take 8 (drop 4 d)) = JDbl 0x3FF8000000000000"
proof -
  have "dbl_finite 0x3FF8000000000000" "(0x3FF8000000000000 :: 64 word) \<noteq> 0x8000000000000000" by code_simp+
  moreover have "num_of_dbl 0x3FF8000000000000 = JDbl 0x3FF8000000000000" by code_simp
  ultimately show ?thesis using double_field_roundtrip [of "0x3FF8000000000000" "[]" 0] by auto
qed

text \<open>
  C40. Encoding an infinite double never returns: the loop that halves the magnitude until it is below
  2 goes on for ever.
\<close>

theorem infinite_double_never_encoded:
  assumes "\<not> dbl_finite w" and "\<not> dbl_nan w"
  shows "doubleToBinary w data i = None"
  using assms by (rule double_infinite)

theorem infinite_double_never_encoded_witness: "doubleToBinary 0x7FF0000000000000 [] 0 = None"
proof -
  have "\<not> dbl_finite 0x7FF0000000000000" "\<not> dbl_nan 0x7FF0000000000000" by code_simp+
  then show ?thesis by (rule infinite_double_never_encoded)
qed

end
