(* ===== verification/SprotoHost.thy ===== *)
theory SprotoHost
  imports SprotoQuery SprotoEncode SprotoDecode SprotoPack
begin

section \<open>sproto: the instance and the host\<close>

text \<open>
  What \<open>createNew\<close> puts around the codec in \<open>sproto.ts\<close>: the methods of the instance, which
  resolve a type given by name and fill the caches, and the host, which frames requests and
  responses with a package header and remembers the response types it waits for. The attached
  instance is the host's own, as in \<open>codec.ts\<close>.
\<close>

subsection \<open>The instance\<close>

record sproto_api =
  sp_schema :: sproto_instance
  sp_tcache :: type_cache
  sp_pcache :: proto_cache

definition new_api :: "sproto_instance \<Rightarrow> sproto_api" where
  "new_api s = \<lparr>sp_schema = s, sp_tcache = (\<lambda>k. None), sp_pcache = (\<lambda>k. None)\<rparr>"

text \<open>How a method may be told a type: \<open>NoType\<close> is \<open>undefined\<close>.\<close>

datatype type_ref = TypeOf sproto_type | TypeNamed jsstr | TypeNumbered int | NoType

text \<open>The outer \<open>None\<close>: the name is unknown, the method answers \<open>null\<close>.\<close>

fun resolve_type :: "sproto_api \<Rightarrow> type_ref \<Rightarrow> sproto_type option option \<times> sproto_api" where
  "resolve_type sp (TypeOf t) = (Some (Some t), sp)"
| "resolve_type sp NoType = (Some None, sp)"
| "resolve_type sp (TypeNumbered n) = (None, sp)"
| "resolve_type sp (TypeNamed name) =
     (case queryType (sp_schema sp) name (sp_tcache sp) of
        (t, c) \<Rightarrow> (map_option Some t, sp\<lparr>sp_tcache := c\<rparr>))"

definition sp_objlen :: "sproto_api \<Rightarrow> type_ref \<Rightarrow> buf \<Rightarrow> int option dec \<times> sproto_api" where
  "sp_objlen sp ty inbuf =
     (case resolve_type sp ty of
        (None, sp') \<Rightarrow> (DOk None, sp')
      | (Some st, sp') \<Rightarrow>
          (case api_objlen (sp_schema sp) st inbuf of DOk n \<Rightarrow> DOk (Some n) | DFail \<Rightarrow> DFail | DThrow \<Rightarrow> DThrow, sp'))"

definition sp_encode :: "sproto_api \<Rightarrow> type_ref \<Rightarrow> jsval \<Rightarrow> (failure + buf option) \<times> sproto_api" where
  "sp_encode sp ty indata =
     (case resolve_type sp ty of
        (None, sp') \<Rightarrow> (Inr None, sp')
      | (Some None, sp') \<Rightarrow> (Inl Threw, sp')
      | (Some (Some st), sp') \<Rightarrow> (api_encode (sp_schema sp) st indata, sp'))"

definition sp_decode :: "sproto_api \<Rightarrow> type_ref \<Rightarrow> buf \<Rightarrow> jsobj option dec \<times> sproto_api" where
  "sp_decode sp ty inbuf =
     (case resolve_type sp ty of
        (None, sp') \<Rightarrow> (DOk None, sp')
      | (Some st, sp') \<Rightarrow> (api_decode (sp_schema sp) st inbuf, sp'))"

definition sp_queryproto :: "sproto_api \<Rightarrow> proto_key \<Rightarrow> proto_info option \<times> sproto_api" where
  "sp_queryproto sp key =
     (case queryProtoFunc (sp_schema sp) key (sp_pcache sp) of (i, c) \<Rightarrow> (i, sp\<lparr>sp_pcache := c\<rparr>))"

definition sp_pencode :: "sproto_api \<Rightarrow> type_ref \<Rightarrow> jsval \<Rightarrow> (failure + buf option) \<times> sproto_api" where
  "sp_pencode sp ty indata =
     (case sp_encode sp ty indata of (r, sp') \<Rightarrow> (map_sum id (map_option api_pack) r, sp'))"

definition sp_pdecode :: "sproto_api \<Rightarrow> type_ref \<Rightarrow> buf \<Rightarrow> jsobj option dec \<times> sproto_api" where
  "sp_pdecode sp ty inbuf = sp_decode sp ty (api_unpack inbuf)"

subsection \<open>The host\<close>

text \<open>What an outgoing session waits for: \<open>true\<close>, or a response of a type.\<close>

datatype session_entry = AnyResponse | ResponseOf sproto_type

record sproto_host =
  h_proto :: sproto_api
  h_package :: type_ref
  h_session :: "int \<Rightarrow> session_entry option"
  h_attached :: bool

definition sp_host :: "sproto_api \<Rightarrow> jsstr option \<Rightarrow> sproto_host" where
  "sp_host sp packagename =
     (let pkgName = (case packagename of None \<Rightarrow> js ''package'' | Some n \<Rightarrow> if n = [] then js ''package'' else n)
      in case queryType (sp_schema sp) pkgName (sp_tcache sp) of
           (t, c) \<Rightarrow>
             \<lparr>h_proto = sp\<lparr>sp_tcache := c\<rparr>,
              h_package = (case t of None \<Rightarrow> TypeNamed pkgName | Some ty \<Rightarrow> TypeOf ty),
              h_session = (\<lambda>n. None), h_attached = False\<rparr>)"

definition host_attach :: "sproto_host \<Rightarrow> sproto_host" where
  "host_attach h = h\<lparr>h_attached := True\<rparr>"

text \<open>The package header, \<open>headerTemp\<close>: both fields are overwritten before every use.\<close>

definition headerTemp :: "jsval \<Rightarrow> jsval \<Rightarrow> jsval" where
  "headerTemp ty session = JObj [(js ''type'', ty), (js ''session'', session)]"

text \<open>The errors the framing throws itself, and the failures of the calls it makes.\<close>

datatype host_error =
  Protocol_not_found | Request_not_found | Failed_to_encode_header | Failed_to_encode_data | Call_failed failure

text \<open>
  The function \<open>attach\<close> returns. The session is registered between the header and the data, so
  it stays registered when the data cannot be encoded.
\<close>

definition attach_data :: "buf \<Rightarrow> proto_info \<Rightarrow> jsval \<Rightarrow> sproto_host \<Rightarrow> (host_error + buf) \<times> sproto_host" where
  "attach_data headerbuffer proto args h =
     (if truthy args then
        case sp_encode (h_proto h) (case i_request proto of None \<Rightarrow> NoType | Some t \<Rightarrow> TypeOf t) args of
          (Inl e, sp) \<Rightarrow> (Inl (Call_failed e), h\<lparr>h_proto := sp\<rparr>)
        | (Inr None, sp) \<Rightarrow> (Inl Failed_to_encode_data, h\<lparr>h_proto := sp\<rparr>)
        | (Inr (Some databuffer), sp) \<Rightarrow> (Inr (api_pack (headerbuffer @ databuffer)), h\<lparr>h_proto := sp\<rparr>)
      else (Inr (api_pack headerbuffer), h))"

definition register :: "int option \<Rightarrow> proto_info \<Rightarrow> sproto_host \<Rightarrow> sproto_host" where
  "register session proto h =
     (case session of
        None \<Rightarrow> h
      | Some n \<Rightarrow> h\<lparr>h_session := (h_session h)
          (n \<mapsto> (case i_response proto of None \<Rightarrow> AnyResponse | Some t \<Rightarrow> ResponseOf t))\<rparr>)"

definition attach_pack :: "sproto_host \<Rightarrow> jsstr \<Rightarrow> jsval \<Rightarrow> int option \<Rightarrow> (host_error + buf) \<times> sproto_host" where
  "attach_pack h name args session =
     (case sp_queryproto (h_proto h) (ByName name) of
        (None, sp) \<Rightarrow> (Inl Protocol_not_found, h\<lparr>h_proto := sp\<rparr>)
      | (Some proto, sp) \<Rightarrow>
          if truthy args \<and> i_request proto = None then (Inl Request_not_found, h\<lparr>h_proto := sp\<rparr>)
          else
            case sp_encode sp (h_package h)
                (headerTemp (JNum (i_tag proto)) (case session of None \<Rightarrow> JUndef | Some n \<Rightarrow> JNum n)) of
              (Inl e, sp') \<Rightarrow> (Inl (Call_failed e), h\<lparr>h_proto := sp'\<rparr>)
            | (Inr None, sp') \<Rightarrow> (Inl Failed_to_encode_header, h\<lparr>h_proto := sp'\<rparr>)
            | (Inr (Some headerbuffer), sp') \<Rightarrow>
                attach_data headerbuffer proto args (register session proto (h\<lparr>h_proto := sp'\<rparr>)))"

text \<open>
  The response function of a request, as the data it captures: the response type and the session.
  A header or body that cannot be encoded (\<open>null\<close>) makes \<open>arrayconcat\<close> or \<open>pack\<close> throw.
\<close>

type_synonym responder = "sproto_type option \<times> jsval"

definition genResponse :: "sproto_host \<Rightarrow> responder \<Rightarrow> jsval \<Rightarrow> (failure + buf) \<times> sproto_host" where
  "genResponse h r args =
     (case r of (response, session) \<Rightarrow>
        case sp_encode (h_proto h) (h_package h) (headerTemp JNull session) of
          (Inl e, sp) \<Rightarrow> (Inl e, h\<lparr>h_proto := sp\<rparr>)
        | (Inr header, sp) \<Rightarrow>
            (case response of
               None \<Rightarrow>
                 (case header of None \<Rightarrow> Inl Threw | Some hb \<Rightarrow> Inr (api_pack hb), h\<lparr>h_proto := sp\<rparr>)
             | Some t \<Rightarrow>
                 (case sp_encode sp (TypeOf t) args of
                    (Inl e, sp') \<Rightarrow> (Inl e, h\<lparr>h_proto := sp'\<rparr>)
                  | (Inr body, sp') \<Rightarrow>
                      (case (header, body) of
                         (Some hb, Some db) \<Rightarrow> Inr (api_pack (hb @ db))
                       | _ \<Rightarrow> Inl Threw,
                       h\<lparr>h_proto := sp'\<rparr>))))"

subsection \<open>Dispatch\<close>

datatype dispatched =
    DRequest jsstr jsval "responder option"
  | DResponse jsval jsval

text \<open>\<open>bin.slice(usedSz || 0, bin.length)\<close>: -1 keeps the last byte.\<close>

definition slice_from :: "int \<Rightarrow> buf \<Rightarrow> buf" where
  "slice_from k b = (if k < 0 then drop (length b - nat (- k)) b else drop (nat k) b)"

definition decoded :: "jsobj option \<Rightarrow> jsval" where
  "decoded r = (case r of None \<Rightarrow> JUndef | Some kvs \<Rightarrow> JObj kvs)"

text \<open>A header's type as a key of the protocol cache; other values name no protocol.\<close>

definition type_key :: "jsval \<Rightarrow> proto_key option" where
  "type_key v = (case v of JNum n \<Rightarrow> Some (ByTag n) | JStr s \<Rightarrow> Some (ByName s) | _ \<Rightarrow> None)"

text \<open>
  The property name \<open>this.session[session]\<close> reads; only integers were ever written there. The
  session field of the package is taken to be an integer one.
\<close>

definition session_slot :: "jsval \<Rightarrow> int option" where
  "session_slot v = (case v of JNum n \<Rightarrow> Some n | JBig n \<Rightarrow> Some n | _ \<Rightarrow> None)"

definition is_number :: "jsval \<Rightarrow> bool" where
  "is_number v = (case v of JNum n \<Rightarrow> True | JDbl w \<Rightarrow> True | _ \<Rightarrow> False)"

definition dispatch_request ::
  "sproto_host \<Rightarrow> jsval \<Rightarrow> jsval \<Rightarrow> buf \<Rightarrow> dispatched option \<times> sproto_host" where
  "dispatch_request h ty session leftbuffer =
     (case (case type_key ty of None \<Rightarrow> (None, h_proto h) | Some key \<Rightarrow> sp_queryproto (h_proto h) key) of
        (None, sp) \<Rightarrow> (None, h\<lparr>h_proto := sp\<rparr>)
      | (Some proto, sp) \<Rightarrow>
          let h1 = h\<lparr>h_proto := sp\<rparr>;
              answer = (\<lambda>result h'. (Some (DRequest (i_name proto) result
                (if truthy session \<and> is_number session then Some (i_response proto, session) else None)), h'))
          in case i_request proto of
               None \<Rightarrow> answer JUndef h1
             | Some t \<Rightarrow>
                 (case sp_decode sp (TypeOf t) leftbuffer of
                    (DThrow, sp') \<Rightarrow> (None, h\<lparr>h_proto := sp'\<rparr>)
                  | (DFail, sp') \<Rightarrow> answer JUndef (h\<lparr>h_proto := sp'\<rparr>)
                  | (DOk r, sp') \<Rightarrow> answer (decoded r) (h\<lparr>h_proto := sp'\<rparr>)))"

definition dispatch_response :: "sproto_host \<Rightarrow> jsval \<Rightarrow> buf \<Rightarrow> dispatched option \<times> sproto_host" where
  "dispatch_response h session leftbuffer =
     (let response = (case session_slot session of None \<Rightarrow> None | Some n \<Rightarrow> h_session h n);
          h1 = (case session_slot session of None \<Rightarrow> h | Some n \<Rightarrow> h\<lparr>h_session := (h_session h)(n := None)\<rparr>)
      in if response = Some AnyResponse \<or> \<not> h_attached h then (Some (DResponse session JUndef), h1)
         else
           case sp_decode (h_proto h)
               (case response of Some (ResponseOf t) \<Rightarrow> TypeOf t | _ \<Rightarrow> NoType) leftbuffer of
             (DThrow, sp) \<Rightarrow> (None, h1\<lparr>h_proto := sp\<rparr>)
           | (DFail, sp) \<Rightarrow> (Some (DResponse session JUndef), h1\<lparr>h_proto := sp\<rparr>)
           | (DOk r, sp) \<Rightarrow> (Some (DResponse session (decoded r)), h1\<lparr>h_proto := sp\<rparr>))"

text \<open>A header that cannot be decoded counts as empty; \<open>None\<close>: dispatch throws.\<close>

definition dispatch :: "sproto_host \<Rightarrow> buf \<Rightarrow> dispatched option \<times> sproto_host" where
  "dispatch h buffer =
     (let bin = api_unpack buffer in
      case sp_decode (h_proto h) (h_package h) bin of
        (DThrow, sp) \<Rightarrow> (None, h\<lparr>h_proto := sp\<rparr>)
      | (header, sp) \<Rightarrow>
          let headerData = (case header of DOk (Some kvs) \<Rightarrow> JObj kvs | _ \<Rightarrow> JObj []) in
          case sp_objlen sp (h_package h) bin of
            (used, sp') \<Rightarrow>
              let leftbuffer = slice_from (case used of DOk (Some n) \<Rightarrow> n | _ \<Rightarrow> 0) bin;
                  ty = prop_of headerData (js ''type''); session = prop_of headerData (js ''session'');
                  h' = h\<lparr>h_proto := sp'\<rparr>
              in if truthy ty then dispatch_request h' ty session leftbuffer
                 else dispatch_response h' session leftbuffer)"

end
