(* ===== verification/Bin.thy ===== *)
theory Bin
  imports Prelude
begin

section \<open>Bytes and text\<close>

text \<open>
  \<open>bin.ts\<close>: byte strings (one UTF-16 code unit below 256 per byte) and UTF-8 text. The encoder and
  the decoder of the platform, \<open>TextEncoder\<close> and \<open>TextDecoder\<close> with their defaults, are written out
  after the Encoding Standard: lone surrogates and malformed bytes become U+FFFD, a leading byte
  order mark is dropped.
\<close>

subsection \<open>Byte strings\<close>

definition toBytes :: "jsstr \<Rightarrow> byte list" where
  "toBytes s = map (\<lambda>c. ucast (c AND 0xff)) s"

definition CHUNK :: nat where
  "CHUNK = 0x8000"

text \<open>The elements of a \<open>Uint8Array\<close> or \<open>number[]\<close>, in pieces of \<open>CHUNK\<close>.\<close>

function from_loop :: "int list \<Rightarrow> nat \<Rightarrow> jsstr \<Rightarrow> jsstr" where
  "from_loop b i s =
     (if i < length b then
        let end' = min (i + CHUNK) (length b);
            part = map (\<lambda>j. of_int (b ! j AND 0xff)) [i..<end']
        in from_loop b (i + CHUNK) (s @ part)
      else s)"
  by pat_completeness auto
termination by (relation "measure (\<lambda>(b, i, s). length b - i)") (auto simp: CHUNK_def)

declare from_loop.simps [simp del]

definition fromBytes :: "int list \<Rightarrow> jsstr" where
  "fromBytes b = from_loop b 0 []"

subsection \<open>UTF-8\<close>

text \<open>The scalar values of a string of UTF-16 code units.\<close>

definition high_surrogate :: "16 word \<Rightarrow> bool" where
  "high_surrogate c \<longleftrightarrow> 0xD800 \<le> c \<and> c \<le> 0xDBFF"

definition low_surrogate :: "16 word \<Rightarrow> bool" where
  "low_surrogate c \<longleftrightarrow> 0xDC00 \<le> c \<and> c \<le> 0xDFFF"

fun scalars :: "jsstr \<Rightarrow> int list" where
  "scalars [] = []"
| "scalars [c] = [if high_surrogate c \<or> low_surrogate c then 0xFFFD else uint c]"
| "scalars (c # d # s) =
     (if high_surrogate c \<and> low_surrogate d then
        (0x10000 + (uint c - 0xD800) * 0x400 + (uint d - 0xDC00)) # scalars s
      else (if high_surrogate c \<or> low_surrogate c then 0xFFFD else uint c) # scalars (d # s))"

definition utf8_bytes :: "int \<Rightarrow> byte list" where
  "utf8_bytes n = map of_int
     (if n < 0x80 then [n]
      else if n < 0x800 then [0xC0 + n div 0x40, 0x80 + n mod 0x40]
      else if n < 0x10000 then [0xE0 + n div 0x1000, 0x80 + n div 0x40 mod 0x40, 0x80 + n mod 0x40]
      else [0xF0 + n div 0x40000, 0x80 + n div 0x1000 mod 0x40, 0x80 + n div 0x40 mod 0x40, 0x80 + n mod 0x40])"

definition fromText :: "jsstr \<Rightarrow> byte list" where
  "fromText s = concat (map utf8_bytes (scalars s))"

text \<open>
  The decoder: the bits so far, the bytes still needed, and the range of the next byte. At the
  start of a sequence a byte is a scalar value, the beginning of a longer one, or an error.
\<close>

record utf8_state =
  u8_point :: int
  u8_needed :: nat
  u8_lower :: int
  u8_upper :: int

definition utf8_init :: utf8_state where
  "utf8_init = \<lparr>u8_point = 0, u8_needed = 0, u8_lower = 0x80, u8_upper = 0xBF\<rparr>"

definition utf8_start :: "int \<Rightarrow> int list \<times> utf8_state" where
  "utf8_start b =
     (if b < 0x80 then ([b], utf8_init)
      else if 0xC2 \<le> b \<and> b \<le> 0xDF then ([], utf8_init\<lparr>u8_point := b - 0xC0, u8_needed := 1\<rparr>)
      else if 0xE0 \<le> b \<and> b \<le> 0xEF then
        ([], \<lparr>u8_point = b - 0xE0, u8_needed = 2, u8_lower = (if b = 0xE0 then 0xA0 else 0x80),
              u8_upper = (if b = 0xED then 0x9F else 0xBF)\<rparr>)
      else if 0xF0 \<le> b \<and> b \<le> 0xF4 then
        ([], \<lparr>u8_point = b - 0xF0, u8_needed = 3, u8_lower = (if b = 0xF0 then 0x90 else 0x80),
              u8_upper = (if b = 0xF4 then 0x8F else 0xBF)\<rparr>)
      else ([0xFFFD], utf8_init))"

text \<open>A byte out of range ends the sequence with an error and is looked at again.\<close>

definition utf8_step :: "utf8_state \<Rightarrow> int \<Rightarrow> int list \<times> utf8_state" where
  "utf8_step st b =
     (if u8_needed st = 0 then utf8_start b
      else if b < u8_lower st \<or> u8_upper st < b then
        (case utf8_start b of (out, st') \<Rightarrow> (0xFFFD # out, st'))
      else
        let n = u8_point st * 0x40 + (b - 0x80) in
        if u8_needed st = 1 then ([n], utf8_init)
        else ([], utf8_init\<lparr>u8_point := n, u8_needed := u8_needed st - 1\<rparr>))"

fun utf8_decode :: "utf8_state \<Rightarrow> int list \<Rightarrow> int list" where
  "utf8_decode st [] = (if u8_needed st = 0 then [] else [0xFFFD])"
| "utf8_decode st (b # bs) = (case utf8_step st b of (out, st') \<Rightarrow> out @ utf8_decode st' bs)"

definition utf16_units :: "int \<Rightarrow> jsstr" where
  "utf16_units n =
     (if n < 0x10000 then [of_int n]
      else [of_int (0xD800 + (n - 0x10000) div 0x400), of_int (0xDC00 + (n - 0x10000) mod 0x400)])"

definition strip_bom :: "int list \<Rightarrow> int list" where
  "strip_bom ns = (case ns of [] \<Rightarrow> [] | n # ns' \<Rightarrow> if n = 0xFEFF then ns' else ns)"

definition toText :: "byte list \<Rightarrow> jsstr" where
  "toText b = concat (map utf16_units (strip_bom (utf8_decode utf8_init (map uint b))))"

subsection \<open>Between the two\<close>

definition textToByteString :: "jsstr \<Rightarrow> jsstr" where
  "textToByteString s = fromBytes (map uint (fromText s))"

definition byteStringToText :: "jsstr \<Rightarrow> jsstr" where
  "byteStringToText s = toText (toBytes s)"

definition toNumberArray :: "byte list \<Rightarrow> int list" where
  "toNumberArray b = map uint b"

definition fromNumberArray :: "int list \<Rightarrow> byte list" where
  "fromNumberArray a = map of_int a"

subsection \<open>Round trips\<close>

lemma map_nth_range:
  assumes "i \<le> e" "e \<le> length b"
  shows "map (\<lambda>j. f (b ! j)) [i..<e] @ map f (drop e b) = map f (drop i b)"
proof -
  have d: "drop k b = map ((!) b) [k..<length b]" for k by (rule nth_equalityI) simp_all
  have "[i..<length b] = [i..<e] @ [e..<length b]" using assms upt_add_eq_append [of i e "length b - e"] by simp
  then show ?thesis by (simp add: d [of i] d [of e] comp_def)
qed

lemma from_loop_rest:
  "from_loop b i s = s @ map (\<lambda>x. of_int (x AND 0xff)) (drop i b)"
proof (induction b i s rule: from_loop.induct)
  case (1 b i s)
  show ?case
  proof (cases "i < length b")
    case True
    let ?f = "\<lambda>x. of_int (x AND 0xff) :: 16 word" and ?e = "min (i + CHUNK) (length b)"
    have "drop ?e b = drop (i + CHUNK) b" by (simp add: min_def)
    moreover have "map (\<lambda>j. ?f (b ! j)) [i..<?e] @ map ?f (drop ?e b) = map ?f (drop i b)"
      using True by (intro map_nth_range) simp_all
    ultimately show ?thesis
      using 1 [OF True refl refl] True by (subst from_loop.simps) (simp add: Let_def)
  qed (simp add: from_loop.simps)
qed

lemma fromBytes_map [code]: "fromBytes b = map (\<lambda>x. of_int (x AND 0xff)) b"
  by (simp add: fromBytes_def from_loop_rest)

lemma and_255: "(x :: int) AND 0xff = x mod 256"
proof -
  have "(mask 8 :: int) = 0xff" by code_simp
  with take_bit_eq_mask [of 8 x] show ?thesis by (simp add: take_bit_eq_mod)
qed

lemma uint_and_255: "uint (ucast ((c :: 16 word) AND 0xff) :: byte) = uint c mod 256"
proof -
  have "uint (c AND 0xff) = uint c mod 256" by (simp add: uint_and and_255)
  then show ?thesis by (simp add: unsigned_ucast_eq take_bit_eq_mod)
qed

lemma uint_byte_mod [simp]: "uint (x :: byte) mod 256 = uint x"
  using uint_lt2p [of x] by simp

lemma ucast_byte: "ucast ((of_int (uint (b :: byte) AND 0xff) :: 16 word) AND 0xff) = b"
proof -
  have small: "0 \<le> uint b" "uint b < 256" using uint_lt2p [of b] by simp_all
  then have "uint (of_int (uint b AND 0xff) :: 16 word) = uint b"
    unfolding and_255 by (simp only: unsigned_of_int take_bit_eq_mod) simp
  then have "uint (ucast ((of_int (uint b AND 0xff) :: 16 word) AND 0xff) :: byte) = uint b"
    unfolding uint_and_255 by simp
  then show ?thesis by (rule unsigned_word_eqI)
qed

lemma toBytes_fromBytes: "toBytes (fromBytes (map uint bs)) = bs"
  unfolding toBytes_def fromBytes_map by (simp only: map_map comp_def ucast_byte map_ident)

lemma fromBytes_toBytes: "\<forall>c \<in> set s. c < 256 \<Longrightarrow> fromBytes (map uint (toBytes s)) = s"
proof -
  assume s: "\<forall>c \<in> set s. c < 256"
  have "of_int (uint (ucast (c AND 0xff) :: byte) AND 0xff) = c" if "c \<in> set s" for c
  proof -
    have "uint c < 256" using s that by (simp add: word_less_def)
    then show ?thesis unfolding and_255 uint_and_255 by simp
  qed
  then show ?thesis by (simp add: fromBytes_map toBytes_def comp_def map_idI)
qed

subsubsection \<open>UTF-8\<close>

definition scalar :: "int \<Rightarrow> bool" where
  "scalar n \<longleftrightarrow> (0 \<le> n \<and> n < 0xD800) \<or> (0xE000 \<le> n \<and> n < 0x110000)"

definition utf8_ints :: "int \<Rightarrow> int list" where
  "utf8_ints n =
     (if n < 0x80 then [n]
      else if n < 0x800 then [0xC0 + n div 0x40, 0x80 + n mod 0x40]
      else if n < 0x10000 then [0xE0 + n div 0x1000, 0x80 + n div 0x40 mod 0x40, 0x80 + n mod 0x40]
      else [0xF0 + n div 0x40000, 0x80 + n div 0x1000 mod 0x40, 0x80 + n div 0x40 mod 0x40, 0x80 + n mod 0x40])"

lemma utf8_ints_range:
  assumes "scalar n" "x \<in> set (utf8_ints n)"
  shows "0 \<le> x \<and> x < 256"
  using assms by (auto simp: scalar_def utf8_ints_def split: if_splits)

lemma utf8_bytes_ints: "scalar n \<Longrightarrow> map uint (utf8_bytes n) = utf8_ints n"
proof -
  assume "scalar n"
  then have "map uint (map of_int (utf8_ints n) :: byte list) = utf8_ints n"
    using utf8_ints_range by (auto simp: comp_def unsigned_of_int take_bit_eq_mod intro!: map_idI)
  then show ?thesis by (simp add: utf8_bytes_def utf8_ints_def)
qed

lemma split64: "(n :: int) = n div 64 * 64 + n mod 64"
  by simp

lemma div64: "(n :: int) div 64 div 64 = n div 4096" "(n :: int) div 4096 div 64 = n div 262144"
  by (simp_all flip: zdiv_zmult2_eq)

text \<open>The ranges of the second byte keep out overlong forms, surrogates and values that are too big.\<close>

lemma utf8_decode_3:
  assumes "n = (q * 64 + r) * 64 + m" "0 \<le> m" "m < 64" "0 \<le> r" "r < 64" "0 \<le> q" "q < 16" "0x800 \<le> n" "scalar n"
  shows "utf8_decode utf8_init ([0xE0 + q, 0x80 + r, 0x80 + m] @ bs) = n # utf8_decode utf8_init bs"
proof -
  have "32 \<le> r" if "q = 0" using assms that by auto
  moreover have "r < 32" if "q = 13" using assms that by (auto simp: scalar_def)
  ultimately show ?thesis
    using assms(1-7) by (auto simp: utf8_step_def utf8_start_def utf8_init_def Let_def not_less)
qed

lemma utf8_decode_4:
  assumes "n = ((p * 64 + q) * 64 + r) * 64 + m" "0 \<le> m" "m < 64" "0 \<le> r" "r < 64" "0 \<le> q" "q < 64" "0 \<le> p" "p < 5"
    and "0x10000 \<le> n" "n < 0x110000"
  shows "utf8_decode utf8_init ([0xF0 + p, 0x80 + q, 0x80 + r, 0x80 + m] @ bs) = n # utf8_decode utf8_init bs"
proof -
  have "16 \<le> q" if "p = 0" using assms that by auto
  moreover have "q < 16" if "p = 4" using assms that by auto
  ultimately show ?thesis
    using assms(1-9) by (auto simp: utf8_step_def utf8_start_def utf8_init_def Let_def not_less)
qed

lemma utf8_decode_char:
  assumes "scalar n"
  shows "utf8_decode utf8_init (utf8_ints n @ bs) = n # utf8_decode utf8_init bs"
proof -
  consider "n < 0x80" | "0x80 \<le> n" "n < 0x800" | "0x800 \<le> n" "n < 0x10000" | "0x10000 \<le> n" by linarith
  then show ?thesis
  proof cases
    case 1
    with assms show ?thesis by (simp add: utf8_ints_def utf8_step_def utf8_start_def utf8_init_def)
  next
    case 2
    then have "2 \<le> n div 64" "n div 64 < 32" by linarith+
    moreover have "0 \<le> n mod 64" "n mod 64 \<le> 63" using pos_mod_bound [of 64 n] by simp_all
    ultimately show ?thesis
      using 2 by (simp add: utf8_ints_def utf8_step_def utf8_start_def utf8_init_def Let_def not_less)
  next
    case 3
    let ?q = "n div 4096" and ?r = "n div 64 mod 64" and ?m = "n mod 64"
    have r: "0 \<le> ?r" "?r < 64" and m: "0 \<le> ?m" "?m < 64" by simp_all
    have n: "n = (?q * 64 + ?r) * 64 + ?m" using split64 [of n] split64 [of "n div 64"] div64 [of n] by simp
    have q: "0 \<le> ?q" "?q < 16" using 3 by linarith+
    from utf8_decode_3 [OF n m r q 3(1) assms]
    have "utf8_decode utf8_init ([0xE0 + ?q, 0x80 + ?r, 0x80 + ?m] @ bs) = n # utf8_decode utf8_init bs" .
    with 3 show ?thesis by (simp add: utf8_ints_def)
  next
    case 4
    let ?p = "n div 262144" and ?q = "n div 4096 mod 64" and ?r = "n div 64 mod 64" and ?m = "n mod 64"
    have q: "0 \<le> ?q" "?q < 64" and r: "0 \<le> ?r" "?r < 64" and m: "0 \<le> ?m" "?m < 64" by simp_all
    have n: "n = ((?p * 64 + ?q) * 64 + ?r) * 64 + ?m"
      using split64 [of n] split64 [of "n div 64"] split64 [of "n div 4096"] div64 [of n] by simp
    have n': "n < 0x110000" using assms 4 by (simp add: scalar_def)
    have p: "0 \<le> ?p" "?p < 5" using 4 n' by linarith+
    from utf8_decode_4 [OF n m r q p 4 n']
    have "utf8_decode utf8_init ([0xF0 + ?p, 0x80 + ?q, 0x80 + ?r, 0x80 + ?m] @ bs) = n # utf8_decode utf8_init bs" .
    with 4 show ?thesis by (simp add: utf8_ints_def)
  qed
qed

lemma utf8_decode_text: "\<forall>n \<in> set ns. scalar n \<Longrightarrow> utf8_decode utf8_init (map uint (concat (map utf8_bytes ns))) = ns"
proof (induction ns)
  case (Cons n ns)
  then show ?case by (simp add: utf8_bytes_ints utf8_decode_char)
qed (simp add: utf8_init_def)

text \<open>Strings without lone surrogates.\<close>

fun well_formed :: "jsstr \<Rightarrow> bool" where
  "well_formed [] = True"
| "well_formed [c] = (\<not> high_surrogate c \<and> \<not> low_surrogate c)"
| "well_formed (c # d # s) =
     (if high_surrogate c then low_surrogate d \<and> well_formed s else \<not> low_surrogate c \<and> well_formed (d # s))"

lemma surrogate_ranges:
  "high_surrogate c \<longleftrightarrow> 0xD800 \<le> uint c \<and> uint c \<le> 0xDBFF"
  "low_surrogate c \<longleftrightarrow> 0xDC00 \<le> uint c \<and> uint c \<le> 0xDFFF"
  by (simp_all add: high_surrogate_def low_surrogate_def word_le_def)

lemma uint_unit: "0 \<le> uint (c :: 16 word)" "uint c < 65536"
  using uint_lt2p [of c] by simp_all

lemma scalars_ok: "n \<in> set (scalars s) \<Longrightarrow> scalar n"
proof (induction s rule: scalars.induct)
  case (2 c)
  then show ?case using uint_unit [of c] by (auto simp: scalar_def surrogate_ranges split: if_splits)
next
  case (3 c d s)
  then show ?case using uint_unit [of c] by (auto simp: scalar_def surrogate_ranges split: if_splits)
qed simp

lemma utf16_unit: "\<not> high_surrogate c \<Longrightarrow> \<not> low_surrogate c \<Longrightarrow> utf16_units (uint c) = [c]"
  using uint_unit [of c] by (simp add: utf16_units_def)

lemma utf16_pair:
  assumes "high_surrogate c" "low_surrogate d"
  shows "utf16_units (0x10000 + (uint c - 0xD800) * 0x400 + (uint d - 0xDC00)) = [c, d]"
proof -
  have split: "(h * 0x400 + l) div 0x400 = h" "(h * 0x400 + l) mod 0x400 = l" if "0 \<le> l" "l < 0x400" for h l :: int
    using that by simp_all
  have pair: "utf16_units (0x10000 + h * 0x400 + l) = [of_int (0xD800 + h), of_int (0xDC00 + l)]"
    if "0 \<le> l" "l < 0x400" "0 \<le> h" for h l :: int
    using that split [OF that(1,2), of h] by (simp add: utf16_units_def)
  show ?thesis
    using pair [of "uint d - 0xDC00" "uint c - 0xD800"] assms by (simp add: surrogate_ranges)
qed

lemma utf16_scalars: "well_formed s \<Longrightarrow> concat (map utf16_units (scalars s)) = s"
proof (induction s rule: scalars.induct)
  case (3 c d s)
  show ?case
  proof (cases "high_surrogate c")
    case True
    with 3 utf16_pair [of c d] show ?thesis by (simp del: One_nat_def add: algebra_simps)
  next
    case False
    with 3 show ?thesis by (simp add: utf16_unit)
  qed
qed (simp_all add: utf16_unit)

lemma uint_bom: "uint (c :: 16 word) = 0xFEFF \<longleftrightarrow> c = 0xFEFF"
proof
  assume "uint c = 0xFEFF"
  then have "uint c = uint (0xFEFF :: 16 word)" by simp
  then show "c = 0xFEFF" by (rule unsigned_word_eqI)
qed simp

lemma strip_bom_scalars:
  assumes "well_formed s" "s = [] \<or> hd s \<noteq> 0xFEFF"
  shows "strip_bom (scalars s) = scalars s"
  using assms
proof (cases s rule: scalars.cases)
  case (3 c d s')
  then show ?thesis
    using assms uint_unit [of c] uint_unit [of d] uint_bom [of c]
    by (auto simp: strip_bom_def surrogate_ranges)
qed (auto simp: strip_bom_def uint_bom)

lemma toText_fromText:
  assumes "well_formed s" "s = [] \<or> hd s \<noteq> 0xFEFF"
  shows "toText (fromText s) = s"
proof -
  have "utf8_decode utf8_init (map uint (fromText s)) = scalars s"
    unfolding fromText_def by (rule utf8_decode_text) (auto intro: scalars_ok)
  then show ?thesis
    using utf16_scalars [OF assms(1)] strip_bom_scalars [OF assms] by (simp add: toText_def)
qed

lemma byteStringToText_textToByteString:
  "well_formed s \<Longrightarrow> s = [] \<or> hd s \<noteq> 0xFEFF \<Longrightarrow> byteStringToText (textToByteString s) = s"
  by (simp add: byteStringToText_def textToByteString_def toBytes_fromBytes toText_fromText)

lemma textToByteString_latin1: "c \<in> set (textToByteString s) \<Longrightarrow> c < 256"
proof -
  assume "c \<in> set (textToByteString s)"
  then obtain x where x: "c = of_int (uint (x :: byte) AND 0xff)"
    by (auto simp: textToByteString_def fromBytes_map)
  have "uint (of_int (uint x AND 0xff) :: 16 word) < 256"
    unfolding and_255 by (simp only: unsigned_of_int take_bit_eq_mod) (use uint_lt2p [of x] in simp)
  then show "c < 256" unfolding x word_less_def by simp
qed

end
