(* ===== verification/Md5.thy ===== *)
theory Md5
  imports Prelude
begin

section \<open>MD5\<close>

text \<open>
  \<open>md5.ts\<close>, the checksum of the schema bundle. 32-bit integers are words: \<open>| 0\<close> after a sum of four
  of them is addition of words. Lengths are those of arrays below \<open>2 ^ 31\<close> bytes, where the shifts of the padded
  length are exact. The table \<open>K\<close> holds the values of \<open>floor(2 ^ 32 * |sin(i + 1)|)\<close>.
\<close>

subsection \<open>Tables\<close>

definition md5_S :: "nat list" where
  "md5_S =
    [7, 12, 17, 22, 7, 12, 17, 22, 7, 12, 17, 22, 7, 12, 17, 22,
     5, 9, 14, 20, 5, 9, 14, 20, 5, 9, 14, 20, 5, 9, 14, 20,
     4, 11, 16, 23, 4, 11, 16, 23, 4, 11, 16, 23, 4, 11, 16, 23,
     6, 10, 15, 21, 6, 10, 15, 21, 6, 10, 15, 21, 6, 10, 15, 21]"

definition md5_K :: "32 word list" where
  "md5_K = [
    0xd76aa478, 0xe8c7b756, 0x242070db, 0xc1bdceee,
    0xf57c0faf, 0x4787c62a, 0xa8304613, 0xfd469501,
    0x698098d8, 0x8b44f7af, 0xffff5bb1, 0x895cd7be,
    0x6b901122, 0xfd987193, 0xa679438e, 0x49b40821,
    0xf61e2562, 0xc040b340, 0x265e5a51, 0xe9b6c7aa,
    0xd62f105d, 0x02441453, 0xd8a1e681, 0xe7d3fbc8,
    0x21e1cde6, 0xc33707d6, 0xf4d50d87, 0x455a14ed,
    0xa9e3e905, 0xfcefa3f8, 0x676f02d9, 0x8d2a4c8a,
    0xfffa3942, 0x8771f681, 0x6d9d6122, 0xfde5380c,
    0xa4beea44, 0x4bdecfa9, 0xf6bb4b60, 0xbebfbc70,
    0x289b7ec6, 0xeaa127fa, 0xd4ef3085, 0x04881d05,
    0xd9d4d039, 0xe6db99e5, 0x1fa27cf8, 0xc4ac5665,
    0xf4292244, 0x432aff97, 0xab9423a7, 0xfc93a039,
    0x655b59c3, 0x8f0ccc92, 0xffeff47d, 0x85845dd1,
    0x6fa87e4f, 0xfe2ce6e0, 0xa3014314, 0x4e0811a1,
    0xf7537e82, 0xbd3af235, 0x2ad7d2bb, 0xeb86d391]"

subsection \<open>Padding\<close>

text \<open>\<open>view.setUint32\<close>, \<open>view.getInt32\<close> and \<open>ov.setInt32\<close>, little endian.\<close>

definition set_u32 :: "byte list \<Rightarrow> nat \<Rightarrow> 32 word \<Rightarrow> byte list" where
  "set_u32 m off x =
     m[off := ucast x, off + 1 := ucast (drop_bit 8 x), off + 2 := ucast (drop_bit 16 x), off + 3 := ucast (drop_bit 24 x)]"

definition get_i32 :: "byte list \<Rightarrow> nat \<Rightarrow> 32 word" where
  "get_i32 m off =
     ucast (m ! off) OR push_bit 8 (ucast (m ! (off + 1))) OR push_bit 16 (ucast (m ! (off + 2))) OR
     push_bit 24 (ucast (m ! (off + 3)))"

definition padded_len :: "nat \<Rightarrow> nat" where
  "padded_len origLen = ((origLen + 8) div 64 + 1) * 64"

definition md5_padded :: "byte list \<Rightarrow> byte list" where
  "md5_padded data =
     (let origLen = length data; paddedLen = padded_len origLen;
          m = data @ drop origLen (replicate paddedLen 0);
          m1 = m[origLen := 0x80];
          m2 = set_u32 m1 (paddedLen - 8) (of_int (int origLen * 8))
      in set_u32 m2 (paddedLen - 4) (of_int (int origLen div 0x20000000)))"

subsection \<open>Blocks\<close>

type_synonym registers = "32 word \<times> 32 word \<times> 32 word \<times> 32 word"

definition md5_f :: "nat \<Rightarrow> 32 word \<Rightarrow> 32 word \<Rightarrow> 32 word \<Rightarrow> 32 word" where
  "md5_f i b c d =
     (if i < 16 then (b AND c) OR (NOT b AND d)
      else if i < 32 then (d AND b) OR (NOT d AND c)
      else if i < 48 then b XOR c XOR d
      else c XOR (b OR NOT d))"

definition md5_g :: "nat \<Rightarrow> nat" where
  "md5_g i =
     (if i < 16 then i
      else if i < 32 then (5 * i + 1) mod 16
      else if i < 48 then (3 * i + 5) mod 16
      else (7 * i) mod 16)"

definition md5_step :: "32 word list \<Rightarrow> nat \<Rightarrow> registers \<Rightarrow> registers" where
  "md5_step w i r =
     (case r of (a, b, c, d) \<Rightarrow>
        let f = md5_f i b c d + a + md5_K ! i + w ! md5_g i;
            s = md5_S ! i
        in (d, b + (push_bit s f OR drop_bit (32 - s) f), b, c))"

definition md5_block :: "byte list \<Rightarrow> nat \<Rightarrow> registers \<Rightarrow> registers" where
  "md5_block m off r0 =
     (let w = map (\<lambda>i. get_i32 m (off + i * 4)) [0..<16]
      in case (r0, fold (md5_step w) [0..<64] r0) of
           ((a0, b0, c0, d0), (a, b, c, d)) \<Rightarrow> (a0 + a, b0 + b, c0 + c, d0 + d))"

function md5_blocks :: "byte list \<Rightarrow> nat \<Rightarrow> registers \<Rightarrow> registers" where
  "md5_blocks m off r = (if off < length m then md5_blocks m (off + 64) (md5_block m off r) else r)"
  by pat_completeness auto
termination by (relation "measure (\<lambda>(m, off, r). length m - off)") auto

declare md5_blocks.simps [simp del]

definition md5 :: "byte list \<Rightarrow> byte list" where
  "md5 data =
     (case md5_blocks (md5_padded data) 0 (0x67452301, 0xefcdab89, 0x98badcfe, 0x10325476) of
        (a0, b0, c0, d0) \<Rightarrow>
          set_u32 (set_u32 (set_u32 (set_u32 (replicate 16 0) 0 a0) 4 b0) 8 c0) 12 d0)"

text \<open>\<open>toString(16).padStart(2, "0")\<close>\<close>

definition hex_digit :: "int \<Rightarrow> 16 word" where
  "hex_digit n = of_int (if n < 10 then 48 + n else 87 + n)"

definition hex_byte :: "byte \<Rightarrow> jsstr" where
  "hex_byte b = [hex_digit (uint b div 16), hex_digit (uint b mod 16)]"

definition hex_string :: "byte list \<Rightarrow> jsstr" where
  "hex_string digest = concat (map (\<lambda>i. hex_byte (digest ! i)) [0..<16])"

definition md5Hex :: "byte list \<Rightarrow> jsstr" where
  "md5Hex data = hex_string (md5 data)"

end
