(* ===== verification/Codec.thy ===== *)
theory Codec
  imports Session SprotoHost Bin Md5
begin

section \<open>The codec\<close>

text \<open>
  \<open>codec.ts\<close>: the codec the session layer uses, a sproto host behind conversions between text and
  byte strings. Its state is the host; \<open>loadCodec\<close> is the constructor. The last section fits it into
  the interface \<open>codec\<close> of \<open>Session\<close>.
\<close>

subsection \<open>Deep conversion\<close>

text \<open>API to wire: text becomes UTF-8 byte strings, byte arrays become arrays of numbers.\<close>

fun encodeDeep :: "jsval \<Rightarrow> jsval" where
  "encodeDeep (JStr s) = JStr (textToByteString s)"
| "encodeDeep (JU8 bs) = JArr (map JNum (toNumberArray bs))"
| "encodeDeep (JArr vs) = JArr (map encodeDeep vs)"
| "encodeDeep (JObj kvs) = JObj (map (\<lambda>kv. (fst kv, encodeDeep (snd kv))) kvs)"
| "encodeDeep v = v"

text \<open>Wire to API.\<close>

fun decodeDeep :: "jsval \<Rightarrow> jsval" where
  "decodeDeep (JStr s) = JStr (byteStringToText s)"
| "decodeDeep (JArr vs) = JArr (map decodeDeep vs)"
| "decodeDeep (JObj kvs) = JObj (map (\<lambda>kv. (fst kv, decodeDeep (snd kv))) kvs)"
| "decodeDeep v = v"

subsection \<open>Loading\<close>

definition PACKAGE_NAME :: jsstr where
  "PACKAGE_NAME = js ''base.package''"

text \<open>The codec state and its checksum; \<open>None\<close>: the schema is broken, \<open>loadCodec\<close> throws.\<close>

definition loadCodec :: "byte list \<Rightarrow> (sproto_host \<times> jsstr) option" where
  "loadCodec spb =
     (case createNew (map Some spb) of
        Loaded s \<Rightarrow> Some (host_attach (sp_host (new_api s) (Some PACKAGE_NAME)), md5Hex spb)
      | _ \<Rightarrow> None)"

subsection \<open>Operations\<close>

definition codec_pack :: "sproto_host \<Rightarrow> jsstr \<Rightarrow> jsval \<Rightarrow> int option \<Rightarrow> (host_error + byte list) \<times> sproto_host" where
  "codec_pack h name args session =
     (let encoded = (if args = JUndef then JUndef else encodeDeep args) in
      case attach_pack h name encoded session of
        (r, h') \<Rightarrow> (map_sum id uint8array_from r, h'))"

datatype codec_msg =
    MRequest jsstr jsval jsval "responder option"
  | MResponse jsval jsval

text \<open>A packet \<open>dispatch\<close> throws on may still be a response nobody waits for: its header says so.\<close>

definition recoverDispatch :: "sproto_host \<Rightarrow> buf \<Rightarrow> codec_msg option \<times> sproto_host" where
  "recoverDispatch h arr =
     (case sp_decode (h_proto h) (h_package h) (api_unpack arr) of
        (DOk (Some kvs), sp) \<Rightarrow>
          (let header = JObj kvs; session = prop_of header (js ''session'') in
           if \<not> truthy (prop_of header (js ''type'')) \<and> is_number session
           then Some (MResponse session JUndef) else None,
           h\<lparr>h_proto := sp\<rparr>)
      | (_, sp) \<Rightarrow> (None, h\<lparr>h_proto := sp\<rparr>))"

text \<open>\<open>r.result ? decodeDeep(r.result) : undefined\<close>\<close>

definition decode_result :: "jsval \<Rightarrow> jsval" where
  "decode_result v = (if truthy v then decodeDeep v else JUndef)"

definition codec_dispatch :: "sproto_host \<Rightarrow> byte list \<Rightarrow> codec_msg option \<times> sproto_host" where
  "codec_dispatch h data =
     (let arr = map Some data in
      case dispatch h arr of
        (None, h') \<Rightarrow> recoverDispatch h' arr
      | (Some (DRequest name result rf), h') \<Rightarrow>
          (Some (MRequest name (decode_result result) (case rf of None \<Rightarrow> JUndef | Some r \<Rightarrow> snd r) rf), h')
      | (Some (DResponse session result), h') \<Rightarrow>
          (if is_number session then Some (MResponse session (decode_result result)) else None, h'))"

text \<open>The function \<open>respond\<close> of a request with a session.\<close>

definition codec_respond :: "sproto_host \<Rightarrow> responder \<Rightarrow> jsval \<Rightarrow> (failure + byte list) \<times> sproto_host" where
  "codec_respond h r a =
     (case genResponse h r (if truthy a then encodeDeep a else JObj []) of
        (res, h') \<Rightarrow> (map_sum id uint8array_from res, h'))"

subsection \<open>The codec of the session layer\<close>

text \<open>
  The session layer passes whole numbers as ids and drops what the codec cannot make sense of. A
  response whose id is not whole, which an integer header field without a scale never gives, counts as such.
\<close>

definition session_view :: "codec_msg option \<Rightarrow> codec_result option" where
  "session_view m =
     (case m of
        None \<Rightarrow> None
      | Some (MRequest name args session rf) \<Rightarrow> Some (CRequest name args)
      | Some (MResponse session args) \<Rightarrow> (case session of JNum n \<Rightarrow> Some (CResponse n args) | _ \<Rightarrow> None))"

definition sproto_codec :: "sproto_host codec" where
  "sproto_codec =
     \<lparr>cpack = (\<lambda>h name args n. case codec_pack h name args (Some n) of
         (r, h') \<Rightarrow> (h', case r of Inl e \<Rightarrow> None | Inr b \<Rightarrow> Some b)),
      cdispatch = (\<lambda>h data. case codec_dispatch h data of (m, h') \<Rightarrow> (h', session_view m))\<rparr>"

end
