(* ===== verification/SprotoHost_Correct.thy ===== *)
theory SprotoHost_Correct
  imports SprotoHost SprotoDecode_Correct SprotoPack_Correct
begin

section \<open>sproto: what one host sends, another reads\<close>

text \<open>
  The framing is undone by dispatch: packing may add zeros, decoding of the header does not mind
  what follows it, \<open>objlen\<close> cuts where the body begins, and the caches of both hosts answer as the
  schema does.
\<close>

subsection \<open>Encoded values have no holes\<close>

definition full :: "buf \<Rightarrow> bool" where
  "full b \<longleftrightarrow> None \<notin> set b"

lemma full_simps [simp]:
  "full []" "full (x # b) \<longleftrightarrow> None \<noteq> x \<and> full b" "full (a @ b) \<longleftrightarrow> full a \<and> full b"
  "full (map Some bs)" "full (concat bss) \<longleftrightarrow> (\<forall>b \<in> set bss. full b)"
  by (auto simp: full_def)

lemma full_words [simp]: "full (word16 n)" "full (dword n)" "full (qword n)" "full (sized b) \<longleftrightarrow> full b"
    "full (wide v)" "full (extended n)"
  by (auto simp: full_def word16_def dword_def qword_def sized_def wide_def extended_def split: jsval.split)

lemma full_map: "full b \<Longrightarrow> \<exists>xs. b = map Some xs"
proof (induction b)
  case (Cons x b)
  then obtain y xs where "x = Some y" "b = map Some xs" by (cases x) auto
  then show ?case by (intro exI [of _ "y # xs"]) simp
qed simp

lemma collect_source: "collect f xs = Inr ys \<Longrightarrow> y \<in> set ys \<Longrightarrow> \<exists>x \<in> set xs. f x = Inr y"
proof (induction xs arbitrary: ys)
  case (Cons x xs)
  then show ?case by (cases "f x"; cases "collect f xs") auto
qed simp

lemma binary_full:
  assumes "binary_ok v" "binary_bytes v = Inr bs"
  shows "full bs"
proof -
  have r: "JArr (map js_byte bs) = read_binary v" using read_binary_bytes [OF assms(1)] assms(2) by simp
  have "e \<noteq> JUndef" if "read_binary v = JArr es" "e \<in> set es" for e es
    using assms(1) that by (cases v) (auto simp: binary_ok_def read_binary_def list_all_iff)
  then have "js_byte b \<noteq> JUndef" if "b \<in> set bs" for b
    using r [symmetric] that by (metis imageI list.set_map)
  from this [of None] show ?thesis by (auto simp: full_def js_byte_def)
qed

definition writes_full :: "sproto_instance \<Rightarrow> (sproto_type \<Rightarrow> jsval \<Rightarrow> bool) \<Rightarrow> struct_format \<Rightarrow> bool" where
  "writes_full sp ok fmt \<longleftrightarrow> (\<forall>st v bs. encodable sp st \<longrightarrow> ok st v \<longrightarrow> fmt st v = Inr bs \<longrightarrow> full bs)"

lemma field_elements_ok:
  assumes "field_value_ok sp ok indata f" "is_array f"
  shows "\<forall>e \<in> set (elements (field_value indata f)). value_ok ok (base_type f) (f_extra f) (field_subtype sp f) e"
proof (cases "nullish (field_value indata f)")
  case True
  then show ?thesis by (cases "field_value indata f") simp_all
next
  case False
  then obtain vs where "field_value indata f = JArr vs" "list_all (value_ok ok (base_type f) (f_extra f) (field_subtype sp f)) vs"
    using assms by (auto simp: field_value_ok_def Let_def split: jsval.splits)
  then show ?thesis by (auto simp: list_all_iff dest: set_takeWhileD)
qed

lemma object_full:
  assumes "writes_full sp ok fmt" "subtype_ok sp type subtype" "value_ok ok type extra subtype v"
    and "object_format fmt type extra subtype v = Inr bs"
  shows "full bs"
proof (cases "type = SPROTO_TSTRING")
  case True
  show ?thesis
  proof (cases "extra = 0")
    case plain: True
    then show ?thesis using assms True
      by (auto simp: object_format_def string2bytes_def full_def split: jsval.splits)
  next
    case False
    then have "binary_ok v" using assms(3) True by (simp add: value_ok_def type_codes)
    with binary_full show ?thesis using assms(4) True False by (simp add: object_format_def)
  qed
next
  case False
  then show ?thesis
    using assms by (auto simp: object_format_def value_ok_def writes_full_def subtype_ok_def type_codes split: option.splits)
qed

lemma array_full:
  assumes "writes_full sp ok fmt" "array_ok sp type subtype" "\<forall>v \<in> set (elements target). value_ok ok type extra subtype v"
    and "array_format fmt type extra subtype target = Inr bs"
  shows "full bs"
proof -
  consider "type = SPROTO_TINTEGER" | "type = SPROTO_TBOOLEAN"
    | "subtype_ok sp type subtype" "type \<noteq> SPROTO_TINTEGER" "type \<noteq> SPROTO_TBOOLEAN"
    using assms(2) by (auto simp: array_ok_def)
  then show ?thesis
  proof cases
    case 1
    then show ?thesis using assms(4)
      by (auto simp: array_format_def integers_format_def map_sum_def split: sum.splits if_splits prod.splits)
  next
    case 2
    then show ?thesis using assms(4) by (auto simp: array_format_def full_def type_codes)
  next
    case 3
    then have "type = SPROTO_TSTRING \<or> type = SPROTO_TSTRUCT" by (auto simp: subtype_ok_def)
    with 3 obtain bss where bss: "collect (object_format fmt type extra subtype) (elements target) = Inr bss"
        "bs = concat (map sized bss)"
      using assms(4) by (cases "collect (object_format fmt type extra subtype) (elements target)") (auto simp: array_format_def)
    have "full b" if "b \<in> set bss" for b
      using collect_source [OF bss(1) that] object_full [OF assms(1) 3(1)] assms(3) by blast
    then show ?thesis using bss(2) by simp
  qed
qed

lemma field_full:
  assumes "writes_full sp ok fmt" "schema_encodable sp" "field_ok sp f" "field_value_ok sp ok indata f"
    and "field_format sp left fmt indata f = Inr (Some (h, d))"
  shows "full d"
  using assms(3)
proof (cases rule: field_kinds)
  case (2 t)
  then have t: "base_type f = t" "is_array f" by simp_all
  have aok: "array_ok sp t (field_subtype sp f)"
    using 2(2) field_subtype_ok [OF assms(2)] by (auto simp: array_ok_def subtype_ok_def)
  have els: "\<forall>e \<in> set (elements (field_value indata f)). value_ok ok t (f_extra f) (field_subtype sp f) e"
    using field_elements_ok [OF assms(4) t(2)] t(1) by simp
  from array_full [OF assms(1) aok els] t assms(5) show ?thesis
    by (auto simp: field_format_def Let_def map_sum_def split: sum.splits if_splits)
next
  case 1
  then have base: "base_type f = f_type f" "\<not> is_array f" by (auto simp: type_codes)
  have nn: "\<not> nullish (field_value indata f)" using assms(5) base by (auto simp: field_format_def Let_def split: if_splits)
  then have v: "value_ok ok (f_type f) (f_extra f) (field_subtype sp f) (field_value indata f)"
    using assms(4) base by (simp add: field_value_ok_def Let_def)
  consider "f_type f = SPROTO_TSTRING \<or> f_type f = SPROTO_TSTRUCT" | "f_type f = SPROTO_TINTEGER" | "f_type f = SPROTO_TBOOLEAN"
    | "f_type f = SPROTO_TDOUBLE" using 1 by auto
  then show ?thesis
  proof cases
    case 1
    then have "subtype_ok sp (f_type f) (field_subtype sp f)"
      using field_subtype_ok [OF assms(2)] by (auto simp: subtype_ok_def)
    from object_full [OF assms(1) this v] assms(5) base nn 1 show ?thesis
      by (auto simp: field_format_def Let_def map_sum_def type_codes split: sum.splits if_splits)
  next
    case 2
    then show ?thesis using assms(5) base nn
      by (auto simp: field_format_def Let_def number_piece_def map_sum_def split: sum.splits if_splits prod.splits)
  next
    case 3
    then show ?thesis using assms(5) base nn
      by (auto simp: field_format_def Let_def type_codes split: if_splits)
  next
    case 4
    then show ?thesis using assms(5) base nn
      by (auto simp: field_format_def double_piece_def Let_def type_codes map_sum_def split: sum.splits if_splits jsval.splits option.splits)
  qed
qed

lemma fields_full:
  assumes "writes_full sp ok fmt" "schema_encodable sp"
  shows "\<forall>f \<in> set fs. field_ok sp f \<and> field_value_ok sp ok indata f \<Longrightarrow>
    fields_format sp left fmt indata fs last' = Inr (ws, ds) \<Longrightarrow> full ds"
proof (induction fs arbitrary: last' ws ds)
  case (Cons f fs)
  show ?case
  proof (cases "field_format sp left fmt indata f")
    case (Inl e)
    then show ?thesis using Cons.prems(2) by simp
  next
    case (Inr p)
    show ?thesis
    proof (cases p)
      case None
      then show ?thesis using Cons Inr by simp
    next
      case (Some q)
      obtain h d where q: "q = (h, d)" by (cases q)
      then obtain ws' ds' where "fields_format sp left fmt indata fs (f_tag f) = Inr (ws', ds')" "ds = d @ ds'"
        using Cons.prems(2) Inr Some by (cases "fields_format sp left fmt indata fs (f_tag f)") (auto simp: Let_def split: if_splits)
      moreover have "full d" using field_full [OF assms, of f indata left h d] Cons.prems(1) Inr Some q by simp
      ultimately show ?thesis using Cons.IH [of "f_tag f" ws' ds'] Cons.prems(1) by simp
    qed
  qed
qed simp

lemma format_full:
  assumes "schema_encodable sp" "encodable sp st" "object_ok sp left st v" "sproto_format sp left st v = Inr bs"
  shows "full bs"
proof -
  have "\<forall>st v bs. encodable sp st \<longrightarrow> object_ok sp left st v \<longrightarrow> sproto_format sp left st v = Inr bs \<longrightarrow> full bs"
  proof (induction left)
    case (Suc left)
    then have w: "writes_full sp (object_ok sp left) (sproto_format sp left)" by (simp add: writes_full_def)
    have "full bs" if st: "encodable sp st" and ok: "object_ok sp (Suc left) st v" and fmt: "sproto_format sp (Suc left) st v = Inr bs" for st v bs
    proof -
      obtain ws ds where ds: "fields_format sp (Suc left) (sproto_format sp left) v (type_fields st) (-1) = Inr (ws, ds)"
          "bs = struct_bytes ws ds"
        using fmt by (cases "fields_format sp (Suc left) (sproto_format sp left) v (type_fields st) (-1)") (auto simp: struct_format_def)
      have "\<forall>f \<in> set (type_fields st). field_ok sp f \<and> field_value_ok sp (object_ok sp left) v f"
        using encodable_fields(1) [OF st] ok by (auto simp: list_all_iff)
      from fields_full [OF w assms(1) this ds(1)] show ?thesis by (simp add: ds(2) struct_bytes_def)
    qed
    then show ?case by blast
  qed simp
  then show ?thesis using assms by blast
qed

subsection \<open>Packets on the wire\<close>

text \<open>What the other side gets of the bytes one side packs: \<open>Uint8Array.from\<close> and back to an array.\<close>

definition delivered :: "buf \<Rightarrow> buf" where
  "delivered b = map Some (uint8array_from b)"

lemma unpack_delivered:
  assumes "full b" "length b \<le> 2 ^ 29"
  shows "\<exists>z. api_unpack (delivered (api_pack b)) = b @ z"
proof -
  obtain xs where xs: "b = map Some xs" using full_map [OF assms(1)] by blast
  then obtain k where "sprotoUnpack (map Some (uint8array_from (api_pack (map Some xs)))) = (map Some (xs @ replicate k 0), True)"
    using unpack_pack [of xs] assms(2) by auto
  with xs show ?thesis by (intro exI [of _ "map Some (replicate k 0)"]) (simp add: api_unpack_def delivered_def)
qed

subsection \<open>The package header\<close>

definition header_field :: "sproto_type \<Rightarrow> string \<Rightarrow> bool" where
  "header_field P k \<longleftrightarrow> (\<exists>f \<in> set (type_fields P). f_name f = Some (js k) \<and> f_type f = SPROTO_TINTEGER \<and> f_extra f = 0)"

definition package_ok :: "sproto_instance \<Rightarrow> sproto_type \<Rightarrow> bool" where
  "package_ok sp P \<longleftrightarrow> encodable sp P \<and> names_ok P \<and> header_field P ''type'' \<and> header_field P ''session''"

definition header_value :: "jsval \<Rightarrow> bool" where
  "header_value v \<longleftrightarrow> nullish v \<or> integer_ok v"

lemma headerTemp_value:
  "field_value (headerTemp ty session) f =
    (if tagname f = js ''type'' then ty else if tagname f = js ''session'' then session else JUndef)"
  by (simp add: field_value_def headerTemp_def)

lemma package_field:
  assumes "package_ok sp P" "f \<in> set (type_fields P)" "tagname f = js k" "k = ''type'' \<or> k = ''session''"
  shows "f_name f = Some (js k) \<and> f_type f = SPROTO_TINTEGER \<and> f_extra f = 0"
proof -
  obtain g where g: "g \<in> set (type_fields P)" "f_name g = Some (js k)" "f_type g = SPROTO_TINTEGER" "f_extra g = 0"
    using assms(1,4) by (auto simp: package_ok_def header_field_def)
  have names: "distinct (map f_name (type_fields P))" "f_name f \<noteq> Some []" "f_name f \<noteq> None"
    using assms(1,2) encodable_found(1) [of sp P] by (auto simp: package_ok_def names_ok_def)
  then have "f_name f = Some (js k)" using assms(3) by (auto simp: tagname_def)
  with g(2) have "f = g" using names(1) assms(2) g(1) by (metis distinct_map inj_onD)
  with g show ?thesis by simp
qed

lemma header_ok:
  assumes "package_ok sp P" "header_value ty" "header_value session"
  shows "object_ok sp ENCODE_DEEPLEVEL P (headerTemp ty session)"
proof -
  have "field_value_ok sp ok (headerTemp ty session) f" if f: "f \<in> set (type_fields P)" for f ok
  proof -
    consider k where "tagname f = js k" "k = ''type'' \<or> k = ''session''"
      | "tagname f \<noteq> js ''type''" "tagname f \<noteq> js ''session''" by blast
    then show ?thesis
    proof cases
      case 1
      from package_field [OF assms(1) f 1] assms(2,3) show ?thesis
        by (auto simp: field_value_ok_def headerTemp_value header_value_def value_ok_def type_codes Let_def)
    next
      case 2
      then show ?thesis by (simp add: field_value_ok_def headerTemp_value Let_def)
    qed
  qed
  then show ?thesis
    using assms(1) by (simp add: ENCODE_DEEPLEVEL_def eval_nat_numeral package_ok_def list_all_iff headerTemp_def)
qed

lemma read_fields_lookup:
  assumes "distinct (map f_name fs)" "\<forall>f \<in> set fs. f_name f \<noteq> None \<and> f_name f \<noteq> Some []" "f \<in> set fs" "f_name f = Some k"
  shows "map_of (concat (map (read_field sp rb v) fs)) k = map_of (read_field sp rb v f) k"
  using assms
proof (induction fs)
  case (Cons g fs)
  have key: "map_of (read_field sp rb v h) k = None" if "f_name h \<noteq> Some k" "f_name h \<noteq> None" "f_name h \<noteq> Some []" for h
    using read_field_key [of sp rb v h] that by (auto simp: map_of_eq_None_iff tagname_def split: option.splits if_splits)
  show ?case
  proof (cases "f = g")
    case True
    have "map_of (concat (map (read_field sp rb v) fs)) k = None"
    proof -
      have "map_of (read_field sp rb v h) k = None" if "h \<in> set fs" for h
        using that Cons.prems True by (intro key) (auto simp: image_iff)
      then show ?thesis by (auto simp: map_of_eq_None_iff)
    qed
    then show ?thesis using True by (simp add: map_add_def split: option.splits)
  next
    case False
    then have "f \<in> set fs" using Cons.prems(3) by simp
    moreover have "f_name g \<noteq> Some k" using Cons.prems(1,4) calculation by (auto simp: image_iff)
    ultimately show ?thesis using Cons key [of g] by (simp add: map_add_def)
  qed
qed simp

lemma header_read:
  assumes "package_ok sp P" "k = ''type'' \<or> k = ''session''" "header_value ty" "header_value session"
  shows "prop_of (read_back sp ENCODE_DEEPLEVEL P (headerTemp ty session)) (js k) =
    (let v = (if k = ''type'' then ty else session) in if nullish v then JUndef else read_int (int_of v))"
proof -
  obtain f where f: "f \<in> set (type_fields P)" "f_name f = Some (js k)" "f_type f = SPROTO_TINTEGER" "f_extra f = 0"
    using assms(1,2) by (auto simp: package_ok_def header_field_def)
  have names: "distinct (map f_name (type_fields P))" "\<forall>f \<in> set (type_fields P). f_name f \<noteq> None \<and> f_name f \<noteq> Some []"
    using assms(1) encodable_found(1) [of sp P] by (auto simp: package_ok_def names_ok_def)
  have k: "js k \<noteq> []" using assms(2) by (auto simp: js_def)
  let ?h = "headerTemp ty session"
  have "read_back sp ENCODE_DEEPLEVEL P ?h = JObj (concat (map (read_field sp (read_back sp 63) ?h) (type_fields P)))"
    by (simp add: ENCODE_DEEPLEVEL_def eval_nat_numeral)
  moreover have "map_of (read_field sp rb ?h f) (js k) =
      (let v = (if k = ''type'' then ty else session) in if nullish v then None else Some (read_int (int_of v)))" for rb
    using f assms(2) tagname_simp [OF f(2) k]
    by (auto simp: read_field_def headerTemp_value read_value_def type_codes Let_def)
  ultimately show ?thesis
    using read_fields_lookup [OF names f(1,2)] by (simp add: Let_def)
qed

definition header_back :: "jsval \<Rightarrow> jsval" where
  "header_back v = (if nullish v then JUndef else read_int (int_of v))"

lemma read_int_number: "0 \<le> n \<Longrightarrow> n \<le> 9007199254740991 \<Longrightarrow> read_int n = JNum n"
  by (simp add: read_int_def read_wide_def)

text \<open>A header as it is written, and as it is read back in front of anything.\<close>

lemma header_roundtrip:
  assumes "schema_encodable sp" "package_ok sp P" "header_value ty" "header_value session"
  shows "\<exists>hb kvs. sproto_format sp ENCODE_DEEPLEVEL P (headerTemp ty session) = Inr hb \<and>
    api_encode sp P (headerTemp ty session) = Inr (Some hb) \<and> full hb \<and>
    prop_of (JObj kvs) (js ''type'') = header_back ty \<and> prop_of (JObj kvs) (js ''session'') = header_back session \<and>
    (int (length hb) < 2 ^ 32 \<longrightarrow> (\<forall>rest. api_decode sp (Some P) (hb @ rest) = DOk (Some kvs) \<and>
       api_objlen sp (Some P) (hb @ rest) = DOk (int (length hb))))"
proof -
  have enc: "encodable sp P" using assms(2) by (simp add: package_ok_def)
  have ok: "object_ok sp ENCODE_DEEPLEVEL P (headerTemp ty session)" by (rule header_ok) (fact assms)+
  obtain hb kvs where hb: "sproto_format sp ENCODE_DEEPLEVEL P (headerTemp ty session) = Inr hb"
      "api_encode sp P (headerTemp ty session) = Inr (Some hb)"
      "read_back sp ENCODE_DEEPLEVEL P (headerTemp ty session) = JObj kvs"
      "int (length hb) < 2 ^ 32 \<longrightarrow> (\<forall>rest. api_decode sp (Some P) (hb @ rest) = DOk (Some kvs) \<and>
         api_objlen sp (Some P) (hb @ rest) = DOk (int (length hb)))"
    using api_roundtrip [OF assms(1) enc ok] by blast
  have "prop_of (JObj kvs) (js ''type'') = header_back ty" "prop_of (JObj kvs) (js ''session'') = header_back session"
    using header_read [OF assms(2) _ assms(3,4), of "''type''"] header_read [OF assms(2) _ assms(3,4), of "''session''"] hb(3)
    by (simp_all add: header_back_def Let_def)
  with hb format_full [OF assms(1) enc ok hb(1)] show ?thesis by blast
qed

subsection \<open>Hosts\<close>

definition host_ok :: "sproto_instance \<Rightarrow> sproto_type \<Rightarrow> sproto_host \<Rightarrow> bool" where
  "host_ok sp P h \<longleftrightarrow> sp_schema (h_proto h) = sp \<and> h_package h = TypeOf P \<and> h_attached h \<and>
     proto_cache.sound sp (sp_pcache (h_proto h))"

lemma host_ok_session [simp]: "host_ok sp P (h\<lparr>h_session := m\<rparr>) \<longleftrightarrow> host_ok sp P h"
  by (simp add: host_ok_def)

lemma host_ok_update:
  "host_ok sp P h \<Longrightarrow> sp_schema api = sp \<Longrightarrow> proto_cache.sound sp (sp_pcache api) \<Longrightarrow> host_ok sp P (h\<lparr>h_proto := api\<rparr>)"
  by (simp add: host_ok_def)

lemma queryproto_sound:
  assumes "protocols_ordered sp" "sp_schema api = sp" "proto_cache.sound sp (sp_pcache api)"
  shows "\<exists>api'. sp_queryproto api key = (protocol sp key, api') \<and> sp_schema api' = sp \<and> proto_cache.sound sp (sp_pcache api')"
  using proto_cache.lookup_sound [OF assms(1,3), of key] assms(2)
  by (cases "queryProtoFunc sp key (sp_pcache api)") (auto simp: sp_queryproto_def)

lemma attach_sends:
  assumes "schema_encodable sp" "package_ok sp P" "protocols_ordered sp" "host_ok sp P h"
    and proto: "protocol sp (ByName name) = Some p" "i_request p = Some req" "header_value (JNum (i_tag p))"
    and args: "encodable sp req" "object_ok sp ENCODE_DEEPLEVEL req args" and session: "integer_ok (JNum n)"
  shows "\<exists>hb db h'. sproto_format sp ENCODE_DEEPLEVEL P (headerTemp (JNum (i_tag p)) (JNum n)) = Inr hb \<and>
    sproto_format sp ENCODE_DEEPLEVEL req args = Inr db \<and>
    attach_pack h name args (Some n) = (Inr (api_pack (hb @ db)), h') \<and> host_ok sp P h' \<and>
    h_session h' = (h_session h)(n \<mapsto> (case i_response p of None \<Rightarrow> AnyResponse | Some t \<Rightarrow> ResponseOf t))"
proof -
  have h: "sp_schema (h_proto h) = sp" "h_package h = TypeOf P" "proto_cache.sound sp (sp_pcache (h_proto h))"
    using assms(4) by (simp_all add: host_ok_def)
  obtain api where api: "sp_queryproto (h_proto h) (ByName name) = (Some p, api)" "sp_schema api = sp"
      "proto_cache.sound sp (sp_pcache api)"
    using queryproto_sound [OF assms(3) h(1,3), of "ByName name"] proto(1) by auto
  obtain hb where hb: "sproto_format sp ENCODE_DEEPLEVEL P (headerTemp (JNum (i_tag p)) (JNum n)) = Inr hb"
      "api_encode sp P (headerTemp (JNum (i_tag p)) (JNum n)) = Inr (Some hb)"
    using header_roundtrip [OF assms(1,2) proto(3), of "JNum n"] session by (auto simp: header_value_def)
  obtain db where db: "sproto_format sp ENCODE_DEEPLEVEL req args = Inr db" "api_encode sp req args = Inr (Some db)"
    using api_roundtrip [OF assms(1) args] by blast
  have "truthy args" using args(2) by (cases args) (simp_all add: ENCODE_DEEPLEVEL_def eval_nat_numeral)
  then have "attach_pack h name args (Some n) =
      (Inr (api_pack (hb @ db)), register (Some n) p (h\<lparr>h_proto := api\<rparr>))"
    using api hb db h proto(2)
    by (simp add: attach_pack_def attach_data_def sp_encode_def register_def)
  moreover have "host_ok sp P (h\<lparr>h_proto := api\<rparr>)" by (rule host_ok_update) (fact assms(4) api)+
  ultimately show ?thesis using hb(1) db(1) by (simp add: register_def)
qed

text \<open>A packet whose header and body came back, and what dispatch makes of it.\<close>

lemma header_unpacked:
  assumes "schema_encodable sp" "package_ok sp P" "header_value ty" "header_value session"
    and "sproto_format sp ENCODE_DEEPLEVEL P (headerTemp ty session) = Inr hb" "full db" "length hb + length db \<le> 2 ^ 29"
  shows "\<exists>kvs z. api_unpack (delivered (api_pack (hb @ db))) = hb @ (db @ z) \<and>
    prop_of (JObj kvs) (js ''type'') = header_back ty \<and> prop_of (JObj kvs) (js ''session'') = header_back session \<and>
    api_decode sp (Some P) (hb @ (db @ z)) = DOk (Some kvs) \<and>
    api_objlen sp (Some P) (hb @ (db @ z)) = DOk (int (length hb))"
proof -
  obtain kvs where kvs: "full hb" "prop_of (JObj kvs) (js ''type'') = header_back ty"
      "prop_of (JObj kvs) (js ''session'') = header_back session"
    and rd: "int (length hb) < 2 ^ 32 \<longrightarrow> (\<forall>rest. api_decode sp (Some P) (hb @ rest) = DOk (Some kvs) \<and>
       api_objlen sp (Some P) (hb @ rest) = DOk (int (length hb)))"
    using header_roundtrip [OF assms(1-4)] assms(5) by (auto simp del: prop_of.simps)
  obtain z where z: "api_unpack (delivered (api_pack (hb @ db))) = hb @ (db @ z)"
    using unpack_delivered [of "hb @ db"] kvs(1) assms(6,7) by auto
  have "int (length hb) < 2 ^ 32" using assms(7) by simp
  with rd kvs z show ?thesis by blast
qed

lemma dispatch_header:
  assumes "schema_encodable sp" "package_ok sp P" "host_ok sp P h" "header_value ty" "header_value session"
    and "sproto_format sp ENCODE_DEEPLEVEL P (headerTemp ty session) = Inr hb" "full db" "length hb + length db \<le> 2 ^ 29"
  shows "\<exists>z. dispatch h (delivered (api_pack (hb @ db))) =
    (if truthy (header_back ty) then dispatch_request h (header_back ty) (header_back session) (db @ z)
     else dispatch_response h (header_back session) (db @ z))"
proof -
  obtain kvs z where z: "api_unpack (delivered (api_pack (hb @ db))) = hb @ (db @ z)"
      "prop_of (JObj kvs) (js ''type'') = header_back ty" "prop_of (JObj kvs) (js ''session'') = header_back session"
      "api_decode sp (Some P) (hb @ (db @ z)) = DOk (Some kvs)" "api_objlen sp (Some P) (hb @ (db @ z)) = DOk (int (length hb))"
    using header_unpacked [OF assms(1,2,4-8)] by blast
  have "h\<lparr>h_proto := h_proto h\<rparr> = h" by simp
  with assms(3) z show ?thesis
    by (intro exI [of _ z])
      (simp add: dispatch_def host_ok_def sp_decode_def sp_objlen_def slice_from_def Let_def del: append_assoc prop_of.simps)
qed

lemma protocol_name: "protocol sp (ByName name) = Some p \<Longrightarrow> i_name p = name"
  by (auto simp: protocol_def Let_def split: if_splits)

lemma request_received:
  assumes "protocols_ordered sp" "host_ok sp P h" "protocol sp (ByName name) = Some p" "i_request p = Some req"
    and "api_decode sp (Some req) body = DOk (Some kvs)" "truthy session" "is_number session"
  shows "\<exists>h'. dispatch_request h (JNum (i_tag p)) session body =
    (Some (DRequest name (JObj kvs) (Some (i_response p, session))), h') \<and> host_ok sp P h' \<and> h_session h' = h_session h"
proof -
  have h: "sp_schema (h_proto h) = sp" "proto_cache.sound sp (sp_pcache (h_proto h))"
    using assms(2) by (simp_all add: host_ok_def)
  have "protocol sp (ByTag (i_tag p)) = Some p"
    using proto_cache.keys_sound [OF assms(1,3)] by simp
  then obtain api where api: "sp_queryproto (h_proto h) (ByTag (i_tag p)) = (Some p, api)" "sp_schema api = sp"
      "proto_cache.sound sp (sp_pcache api)"
    using queryproto_sound [OF assms(1) h, of "ByTag (i_tag p)"] by auto
  have "host_ok sp P (h\<lparr>h_proto := api\<rparr>)" by (rule host_ok_update) (fact assms(2) api)+
  then show ?thesis
    using api assms(4-7) protocol_name [OF assms(3)]
    by (simp add: dispatch_request_def type_key_def sp_decode_def decoded_def)
qed

definition number_ok53 :: "int \<Rightarrow> bool" where
  "number_ok53 n \<longleftrightarrow> 0 < n \<and> n \<le> 9007199254740991"

lemma number_ok53D:
  assumes "number_ok53 n"
  shows "header_value (JNum n)" "integer_ok (JNum n)" "header_back (JNum n) = JNum n" "truthy (JNum n)" "is_number (JNum n)"
  using assms read_int_number [of n]
  by (simp_all add: number_ok53_def header_value_def integer_ok_def header_back_def is_number_def)

lemma host_request:
  assumes sp: "schema_encodable sp" "package_ok sp P" "protocols_ordered sp" and hosts: "host_ok sp P c" "host_ok sp P d"
    and proto: "protocol sp (ByName name) = Some p" "i_request p = Some req" "number_ok53 (i_tag p)"
    and args: "encodable sp req" "object_ok sp ENCODE_DEEPLEVEL req args" and n: "number_ok53 n"
    and small: "\<And>hb db. sproto_format sp ENCODE_DEEPLEVEL P (headerTemp (JNum (i_tag p)) (JNum n)) = Inr hb \<Longrightarrow>
      sproto_format sp ENCODE_DEEPLEVEL req args = Inr db \<Longrightarrow> length hb + length db \<le> 2 ^ 29"
  shows "\<exists>b c' d' kvs. attach_pack c name args (Some n) = (Inr b, c') \<and> host_ok sp P c' \<and>
    h_session c' = (h_session c)(n \<mapsto> (case i_response p of None \<Rightarrow> AnyResponse | Some t \<Rightarrow> ResponseOf t)) \<and>
    read_back sp ENCODE_DEEPLEVEL req args = JObj kvs \<and>
    dispatch d (delivered b) = (Some (DRequest name (JObj kvs) (Some (i_response p, JNum n))), d') \<and>
    host_ok sp P d' \<and> h_session d' = h_session d"
proof -
  note tag = number_ok53D [OF proto(3)] and num = number_ok53D [OF n]
  obtain hb db c' where sent: "sproto_format sp ENCODE_DEEPLEVEL P (headerTemp (JNum (i_tag p)) (JNum n)) = Inr hb"
      "sproto_format sp ENCODE_DEEPLEVEL req args = Inr db"
      "attach_pack c name args (Some n) = (Inr (api_pack (hb @ db)), c')" "host_ok sp P c'"
      "h_session c' = (h_session c)(n \<mapsto> (case i_response p of None \<Rightarrow> AnyResponse | Some t \<Rightarrow> ResponseOf t))"
    using attach_sends [OF sp hosts(1) proto(1,2) tag(1) args num(2)] by blast
  note len = small [OF sent(1,2)]
  obtain z where z: "dispatch d (delivered (api_pack (hb @ db))) = dispatch_request d (JNum (i_tag p)) (JNum n) (db @ z)"
    using dispatch_header [OF sp(1,2) hosts(2) tag(1) num(1) sent(1) format_full [OF sp(1) args sent(2)] len]
    unfolding tag(3) num(3) using tag(4) by auto
  obtain kvs where kvs: "read_back sp ENCODE_DEEPLEVEL req args = JObj kvs" "api_decode sp (Some req) (db @ z) = DOk (Some kvs)"
    using api_roundtrip [OF sp(1) args] sent(2) len by auto
  obtain d' where "dispatch_request d (JNum (i_tag p)) (JNum n) (db @ z) =
      (Some (DRequest name (JObj kvs) (Some (i_response p, JNum n))), d')" "host_ok sp P d'" "h_session d' = h_session d"
    using request_received [OF sp(3) hosts(2) proto(1,2) kvs(2) num(4,5)] by blast
  with sent z kvs show ?thesis by (intro exI [of _ "api_pack (hb @ db)"]) auto
qed

text \<open>The response, to a host that waits for it; the entry is gone afterwards.\<close>

lemma genResponse_sends:
  assumes "schema_encodable sp" "package_ok sp P" "host_ok sp P h" "header_value session"
    and "encodable sp t" "object_ok sp ENCODE_DEEPLEVEL t args"
  shows "\<exists>hb db. sproto_format sp ENCODE_DEEPLEVEL P (headerTemp JNull session) = Inr hb \<and>
    sproto_format sp ENCODE_DEEPLEVEL t args = Inr db \<and> genResponse h (Some t, session) args = (Inr (api_pack (hb @ db)), h)"
proof -
  obtain hb where hb: "sproto_format sp ENCODE_DEEPLEVEL P (headerTemp JNull session) = Inr hb"
      "api_encode sp P (headerTemp JNull session) = Inr (Some hb)"
    using header_roundtrip [OF assms(1,2), of JNull session] assms(4) by (auto simp: header_value_def)
  obtain db where db: "sproto_format sp ENCODE_DEEPLEVEL t args = Inr db" "api_encode sp t args = Inr (Some db)"
    using api_roundtrip [OF assms(1,5,6)] by blast
  have "h\<lparr>h_proto := h_proto h\<rparr> = h" by simp
  with assms(3) hb db show ?thesis by (simp add: genResponse_def sp_encode_def host_ok_def)
qed

lemma host_response:
  assumes sp: "schema_encodable sp" "package_ok sp P" and hosts: "host_ok sp P d" "host_ok sp P c"
    and n: "number_ok53 n" "h_session c n = Some (ResponseOf t)" and args: "encodable sp t" "object_ok sp ENCODE_DEEPLEVEL t args"
    and small: "\<And>hb db. sproto_format sp ENCODE_DEEPLEVEL P (headerTemp JNull (JNum n)) = Inr hb \<Longrightarrow>
      sproto_format sp ENCODE_DEEPLEVEL t args = Inr db \<Longrightarrow> length hb + length db \<le> 2 ^ 29"
  shows "\<exists>b kvs. genResponse d (Some t, JNum n) args = (Inr b, d) \<and> read_back sp ENCODE_DEEPLEVEL t args = JObj kvs \<and>
    dispatch c (delivered b) = (Some (DResponse (JNum n) (JObj kvs)), c\<lparr>h_session := (h_session c)(n := None)\<rparr>)"
proof -
  note num = number_ok53D [OF n(1)]
  obtain hb db where sent: "sproto_format sp ENCODE_DEEPLEVEL P (headerTemp JNull (JNum n)) = Inr hb"
      "sproto_format sp ENCODE_DEEPLEVEL t args = Inr db"
      "genResponse d (Some t, JNum n) args = (Inr (api_pack (hb @ db)), d)"
    using genResponse_sends [OF sp hosts(1) num(1) args] by blast
  note len = small [OF sent(1,2)]
  have hv: "header_value JNull" "header_back JNull = JUndef" by (simp_all add: header_value_def header_back_def)
  obtain z where z: "dispatch c (delivered (api_pack (hb @ db))) = dispatch_response c (JNum n) (db @ z)"
    using dispatch_header [OF sp hosts(2) hv(1) num(1) sent(1) format_full [OF sp(1) args sent(2)] len]
    unfolding hv(2) num(3) by auto
  obtain kvs where kvs: "read_back sp ENCODE_DEEPLEVEL t args = JObj kvs" "api_decode sp (Some t) (db @ z) = DOk (Some kvs)"
    using api_roundtrip [OF sp(1) args] sent(2) len by auto
  have "c\<lparr>h_session := m, h_proto := h_proto c\<rparr> = c\<lparr>h_session := m\<rparr>" for m by simp
  then have "dispatch_response c (JNum n) (db @ z) = (Some (DResponse (JNum n) (JObj kvs)), c\<lparr>h_session := (h_session c)(n := None)\<rparr>)"
    using hosts(2) n(2) kvs(2) by (simp add: dispatch_response_def session_slot_def sp_decode_def host_ok_def decoded_def)
  with sent(3) kvs(1) z show ?thesis by auto
qed

end
