(* ===== verification/Session_Codec.thy ===== *)
theory Session_Codec
  imports Session
begin

section \<open>The codec as the session layer sees it\<close>

text \<open>
  What the session layer relies on when an answer comes: while the codec still awaits the answer to a request it
  reads it with its value; afterwards, when the answer comes again, it still tells whose it is. A codec that keeps
  these laws has every answer settle its request exactly once.
\<close>

locale answer_codec =
  fixes cd :: "'c codec"
    and awaiting :: "'c \<Rightarrow> int \<Rightarrow> bool"
    and spent :: "'c \<Rightarrow> int \<Rightarrow> bool"
    and answer :: "byte list \<Rightarrow> int \<Rightarrow> jsval \<Rightarrow> bool"
  assumes first: "awaiting c i \<Longrightarrow> answer b i v \<Longrightarrow> \<exists>c'. cdispatch cd c b = (c', Some (CResponse i v)) \<and> spent c' i"
    and again: "spent c i \<Longrightarrow> answer b i v \<Longrightarrow> \<exists>u. cdispatch cd c b = (c, Some (CResponse i u))"
begin

lemma unclaimed:
  assumes "spent (codec_st s) i" and "answer b i v" and "map_of (pendings s) i = None"
  shows "handle cd b s = s\<lparr>recv := recv s + 1\<rparr>"
  using again [OF assms(1,2)] assms(3) by (auto simp: handle_def count_def)

lemma claimed:
  assumes "awaiting (codec_st s) i" and "answer b i v" and "map_of (pendings s) i = Some p"
  shows "\<exists>c'. spent c' i \<and> handle cd b s =
    resolve i (coalesce v JNull) ((if uncounted (pname p) then id else count) (forget i (s\<lparr>codec_st := c'\<rparr>)))"
  using first [OF assms(1,2)] assms(3) by (auto simp: handle_def count_def forget_def Let_def)

lemma answered_once:
  assumes "awaiting (codec_st s) i" and "answer b i v" and "map_of (pendings s) i = Some p"
  defines "s1 \<equiv> handle cd b s"
  shows "out s1 = out s @ [Settled i (coalesce v JNull)] \<and> map_of (pendings s1) i = None \<and>
    recv s1 = recv s + (if uncounted (pname p) then 0 else 1) \<and> handle cd b s1 = s1\<lparr>recv := recv s1 + 1\<rparr>"
proof -
  obtain c' where c': "spent c' i"
      "s1 = resolve i (coalesce v JNull) ((if uncounted (pname p) then id else count) (forget i (s\<lparr>codec_st := c'\<rparr>)))"
    using claimed [OF assms(1-3)] by (auto simp: s1_def)
  have gone: "map_of (pendings s1) i = None" by (auto simp: c'(2) session_defs map_of_eq_None_iff)
  moreover have "codec_st s1 = c'" by (simp add: c'(2) session_defs)
  ultimately have "handle cd b s1 = s1\<lparr>recv := recv s1 + 1\<rparr>" using unclaimed [of s1 i b v] c'(1) assms(2) by simp
  moreover have "out s1 = out s @ [Settled i (coalesce v JNull)]" "recv s1 = recv s + (if uncounted (pname p) then 0 else 1)"
    by (simp_all add: c'(2) session_defs)
  ultimately show ?thesis using gone by blast
qed

end

end
