(* ===== verification/Codec_Correct.thy ===== *)
theory Codec_Correct
  imports Codec SprotoHost_Correct Session_Codec
begin

section \<open>The codec at both ends of a connection\<close>

text \<open>
  A request packed by one codec is dispatched by another on the same schema under its name and
  id; the response comes back to the id; a response that comes again is still recognised as a
  response to that id. The values are those the wire types allow, after the deep conversion.
\<close>

subsection \<open>Loading\<close>

lemma loadCodec_ok:
  assumes "loadCodec spb = Some (h, ck)" "sprotoType s PACKAGE_NAME = Some P" "createNew (map Some spb) = Loaded s"
  shows "host_ok s P h \<and> h_session h = (\<lambda>n. None) \<and> ck = md5Hex spb"
  using assms
  by (auto simp: loadCodec_def sp_host_def new_api_def host_attach_def host_ok_def queryType_def PACKAGE_NAME_def
      proto_cache.sound_empty js_def split: option.splits)

subsection \<open>Requests and responses\<close>

text \<open>
  What an argument object becomes on the other side: converted, laid out by the type, read back,
  converted. The sizes stay below what the packing model covers.
\<close>

definition carried :: "sproto_instance \<Rightarrow> sproto_type \<Rightarrow> jsval \<Rightarrow> jsval" where
  "carried sp t v = decodeDeep (read_back sp ENCODE_DEEPLEVEL t (encodeDeep v))"

definition fits_type :: "sproto_instance \<Rightarrow> sproto_type \<Rightarrow> jsval \<Rightarrow> bool" where
  "fits_type sp t v \<longleftrightarrow> encodable sp t \<and> object_ok sp ENCODE_DEEPLEVEL t (encodeDeep v)"

definition small_packet :: "sproto_instance \<Rightarrow> sproto_type \<Rightarrow> jsval \<Rightarrow> sproto_type \<Rightarrow> jsval \<Rightarrow> bool" where
  "small_packet sp P header t v \<longleftrightarrow>
     (case (sproto_format sp ENCODE_DEEPLEVEL P header, sproto_format sp ENCODE_DEEPLEVEL t (encodeDeep v)) of
        (Inr hb, Inr db) \<Rightarrow> length hb + length db \<le> 2 ^ 29
      | _ \<Rightarrow> True)"

lemma small_packetD:
  assumes "small_packet sp P header t v" "sproto_format sp ENCODE_DEEPLEVEL P header = Inr hb"
    "sproto_format sp ENCODE_DEEPLEVEL t (encodeDeep v) = Inr db"
  shows "length hb + length db \<le> 2 ^ 29"
  using assms by (simp add: small_packet_def)

lemma delivered_map: "delivered b = map Some (uint8array_from b)"
  by (simp add: delivered_def)

lemma decode_result_object: "decode_result (JObj kvs) = decodeDeep (JObj kvs)"
  by (simp add: decode_result_def)

lemma fits_type_object:
  assumes "fits_type sp t v"
  obtains kvs where "v = JObj kvs"
  using assms by (cases v) (auto simp: fits_type_def ENCODE_DEEPLEVEL_def eval_nat_numeral)

lemma codec_request:
  assumes sp: "schema_encodable sp" "package_ok sp P" "protocols_ordered sp" and hosts: "host_ok sp P c" "host_ok sp P d"
    and proto: "protocol sp (ByName name) = Some p" "i_request p = Some req" "number_ok53 (i_tag p)"
    and args: "fits_type sp req args" and n: "number_ok53 n"
    and small: "small_packet sp P (headerTemp (JNum (i_tag p)) (JNum n)) req args"
  shows "\<exists>b c' d'. codec_pack c name args (Some n) = (Inr b, c') \<and> host_ok sp P c' \<and>
    h_session c' = (h_session c)(n \<mapsto> (case i_response p of None \<Rightarrow> AnyResponse | Some t \<Rightarrow> ResponseOf t)) \<and>
    codec_dispatch d b = (Some (MRequest name (carried sp req args) (JNum n) (Some (i_response p, JNum n))), d') \<and>
    host_ok sp P d' \<and> h_session d' = h_session d"
proof -
  have ok: "encodable sp req" "object_ok sp ENCODE_DEEPLEVEL req (encodeDeep args)" using args by (simp_all add: fits_type_def)
  obtain b c' d' kvs where b: "attach_pack c name (encodeDeep args) (Some n) = (Inr b, c')" "host_ok sp P c'"
      "h_session c' = (h_session c)(n \<mapsto> (case i_response p of None \<Rightarrow> AnyResponse | Some t \<Rightarrow> ResponseOf t))"
      "read_back sp ENCODE_DEEPLEVEL req (encodeDeep args) = JObj kvs"
      "dispatch d (delivered b) = (Some (DRequest name (JObj kvs) (Some (i_response p, JNum n))), d')"
      "host_ok sp P d'" "h_session d' = h_session d"
    using host_request [OF sp hosts proto ok n small_packetD [OF small]] by blast
  obtain akvs where "args = JObj akvs" using fits_type_object [OF args] .
  then have pack: "codec_pack c name args (Some n) = (Inr (uint8array_from b), c')"
    using b(1) by (simp add: codec_pack_def Let_def)
  have "codec_dispatch d (uint8array_from b) =
      (Some (MRequest name (carried sp req args) (JNum n) (Some (i_response p, JNum n))), d')"
    using b(4,5) by (simp add: codec_dispatch_def delivered_map carried_def decode_result_def Let_def del: decodeDeep.simps)
  with pack b show ?thesis by blast
qed

lemma codec_response:
  assumes sp: "schema_encodable sp" "package_ok sp P" and hosts: "host_ok sp P d" "host_ok sp P c"
    and n: "number_ok53 n" "h_session c n = Some (ResponseOf t)" and args: "fits_type sp t args"
    and small: "small_packet sp P (headerTemp JNull (JNum n)) t args"
  shows "\<exists>b. codec_respond d (Some t, JNum n) args = (Inr b, d) \<and>
    codec_dispatch c b = (Some (MResponse (JNum n) (carried sp t args)), c\<lparr>h_session := (h_session c)(n := None)\<rparr>)"
proof -
  have ok: "encodable sp t" "object_ok sp ENCODE_DEEPLEVEL t (encodeDeep args)" using args by (simp_all add: fits_type_def)
  obtain b kvs where b: "genResponse d (Some t, JNum n) (encodeDeep args) = (Inr b, d)"
      "read_back sp ENCODE_DEEPLEVEL t (encodeDeep args) = JObj kvs"
      "dispatch c (delivered b) = (Some (DResponse (JNum n) (JObj kvs)), c\<lparr>h_session := (h_session c)(n := None)\<rparr>)"
    using host_response [OF sp hosts n ok small_packetD [OF small]] by blast
  obtain akvs where "args = JObj akvs" using fits_type_object [OF args] .
  then have resp: "codec_respond d (Some t, JNum n) args = (Inr (uint8array_from b), d)"
    using b(1) by (simp add: codec_respond_def)
  have "codec_dispatch c (uint8array_from b) =
      (Some (MResponse (JNum n) (carried sp t args)), c\<lparr>h_session := (h_session c)(n := None)\<rparr>)"
    using b(2,3) by (simp add: codec_dispatch_def delivered_map carried_def decode_result_def is_number_def Let_def del: decodeDeep.simps)
  with resp show ?thesis by blast
qed

subsection \<open>Responses that come again\<close>

text \<open>Without a type nothing is read: the body is empty, too short, or decoding throws.\<close>

lemma fields_untyped:
  "fields_loop_dec sp sub None stream i k tag data left ud \<in> {DThrow, DFail} \<or>
    (\<exists>left'. fields_loop_dec sp sub None stream i k tag data left ud = DOk (left', ud))"
proof (induction k arbitrary: i tag data left)
  case (Suc k)
  show ?case
  proof (cases "toWord (drop (i * 2) stream) mod 2 \<noteq> 0")
    case True
    then show ?thesis using Suc by (simp add: Let_def)
  next
    case False
    then show ?thesis by (simp add: Let_def find_field_def)
  qed
qed simp

lemma decode_untyped: "api_decode sp None b \<in> {DThrow, DOk None, DOk (Some [])}"
proof -
  have struct: "decode_struct sp sub None b (int (length b)) \<in> {DThrow, DFail} \<or>
      (\<exists>r. decode_struct sp sub None b (int (length b)) = DOk (r, []))" for sub
    using fields_untyped [of sp sub "drop 2 b" 0 "nat (toWord b)" "-1"
        "drop (nat (toWord b * 2)) (drop 2 b)" "int (length b) - 2 - toWord b * 2" new_ud]
    by (auto simp: decode_struct_def new_ud_def Let_def simp del: fields_loop_dec.simps)
  have all: "decode_all sp None b = decode_struct sp (decoder sp) None b (int (length b))"
    unfolding decode_all_decoder by (rule decoder_unfold)
  show ?thesis using struct [of "decoder sp"] unfolding api_decode_def all by auto
qed

lemma dispatch_untyped:
  assumes "host_ok sp P h" "session = JNum n" "h_session h n = None"
  shows "\<exists>r. dispatch_response h session body = (r, h\<lparr>h_session := (h_session h)(n := None)\<rparr>) \<and>
    r \<in> {None, Some (DResponse session JUndef), Some (DResponse session (JObj []))}"
proof -
  have "h\<lparr>h_session := m, h_proto := h_proto h\<rparr> = h\<lparr>h_session := m\<rparr>" for m by simp
  then show ?thesis
    using assms decode_untyped [of sp body]
    by (auto simp: dispatch_response_def session_slot_def sp_decode_def host_ok_def decoded_def)
qed

lemma codec_duplicate:
  assumes sp: "schema_encodable sp" "package_ok sp P" and hosts: "host_ok sp P d" "host_ok sp P c"
    and n: "number_ok53 n" "h_session c n = None" and args: "fits_type sp t args"
    and small: "small_packet sp P (headerTemp JNull (JNum n)) t args"
    and b: "codec_respond d (Some t, JNum n) args = (Inr b, d')"
  shows "\<exists>u. codec_dispatch c b = (Some (MResponse (JNum n) u), c) \<and> u \<in> {JUndef, JObj []}"
proof -
  note num = number_ok53D [OF n(1)]
  have hv: "header_value JNull" "header_back JNull = JUndef" by (simp_all add: header_value_def header_back_def)
  have ok: "encodable sp t" "object_ok sp ENCODE_DEEPLEVEL t (encodeDeep args)" using args by (simp_all add: fits_type_def)
  obtain hb db where sent: "sproto_format sp ENCODE_DEEPLEVEL P (headerTemp JNull (JNum n)) = Inr hb"
      "sproto_format sp ENCODE_DEEPLEVEL t (encodeDeep args) = Inr db"
      "genResponse d (Some t, JNum n) (encodeDeep args) = (Inr (api_pack (hb @ db)), d)"
    using genResponse_sends [OF sp hosts(1) num(1) ok] by blast
  obtain akvs where "args = JObj akvs" using fits_type_object [OF args] .
  then have bytes: "b = uint8array_from (api_pack (hb @ db))" using b sent(3) by (simp add: codec_respond_def)
  note full = format_full [OF sp(1) ok sent(2)] and len = small_packetD [OF small sent(1,2)]
  have same: "c\<lparr>h_session := (h_session c)(n := None)\<rparr> = c" using n(2) by (simp add: fun_upd_idem)
  obtain z where "dispatch c (delivered (api_pack (hb @ db))) = dispatch_response c (JNum n) (db @ z)"
    using dispatch_header [OF sp hosts(2) hv(1) num(1) sent(1) full len] unfolding hv(2) num(3) by auto
  then obtain r where r: "dispatch c (map Some b) = (r, c)"
      "r \<in> {None, Some (DResponse (JNum n) JUndef), Some (DResponse (JNum n) (JObj []))}"
    using dispatch_untyped [OF hosts(2) refl n(2), of "db @ z"] by (auto simp: same bytes delivered_map)
  obtain kvs z' where k: "api_unpack (map Some b) = hb @ (db @ z')" "prop_of (JObj kvs) (js ''type'') = JUndef"
      "prop_of (JObj kvs) (js ''session'') = JNum n" "api_decode sp (Some P) (hb @ (db @ z')) = DOk (Some kvs)"
    using header_unpacked [OF sp hv(1) num(1) sent(1) full len] unfolding hv(2) num(3) by (auto simp: bytes delivered_map)
  have "c\<lparr>h_proto := h_proto c\<rparr> = c" by simp
  with k hosts(2) have "recoverDispatch c (map Some b) = (Some (MResponse (JNum n) JUndef), c)"
    by (simp add: recoverDispatch_def sp_decode_def host_ok_def is_number_def Let_def del: append_assoc prop_of.simps)
  with r show ?thesis
    by (auto simp: codec_dispatch_def Let_def decode_result_def is_number_def)
qed

subsection \<open>The contract of the session layer\<close>

definition awaits_type :: "sproto_instance \<Rightarrow> sproto_type \<Rightarrow> sproto_type \<Rightarrow> sproto_host \<Rightarrow> int \<Rightarrow> bool" where
  "awaits_type sp P t c i \<longleftrightarrow> schema_encodable sp \<and> package_ok sp P \<and> host_ok sp P c \<and> number_ok53 i \<and>
     h_session c i = Some (ResponseOf t)"

definition spent_type :: "sproto_instance \<Rightarrow> sproto_type \<Rightarrow> sproto_host \<Rightarrow> int \<Rightarrow> bool" where
  "spent_type sp P c i \<longleftrightarrow> schema_encodable sp \<and> package_ok sp P \<and> host_ok sp P c \<and> number_ok53 i \<and> h_session c i = None"

text \<open>A packet with which a codec on the same schema answers a request.\<close>

definition answer_of :: "sproto_instance \<Rightarrow> sproto_type \<Rightarrow> sproto_type \<Rightarrow> byte list \<Rightarrow> int \<Rightarrow> jsval \<Rightarrow> bool" where
  "answer_of sp P t b i v \<longleftrightarrow>
     (\<exists>d d' a. host_ok sp P d \<and> fits_type sp t a \<and> small_packet sp P (headerTemp JNull (JNum i)) t a \<and>
       codec_respond d (Some t, JNum i) a = (Inr b, d') \<and> v = carried sp t a)"

interpretation sproto_answers: answer_codec sproto_codec "awaits_type sp P t" "spent_type sp P" "answer_of sp P t" for sp P t
proof unfold_locales
  fix c i b v
  assume c: "awaits_type sp P t c i" and "answer_of sp P t b i v"
  then obtain d d' a where a: "host_ok sp P d" "fits_type sp t a" "small_packet sp P (headerTemp JNull (JNum i)) t a"
      "codec_respond d (Some t, JNum i) a = (Inr b, d')" "v = carried sp t a"
    by (auto simp: answer_of_def)
  have "codec_dispatch c b = (Some (MResponse (JNum i) v), c\<lparr>h_session := (h_session c)(i := None)\<rparr>)"
    using codec_response [of sp P d c i t a] c a by (auto simp: awaits_type_def)
  moreover have "spent_type sp P (c\<lparr>h_session := (h_session c)(i := None)\<rparr>) i"
    using c by (simp add: awaits_type_def spent_type_def)
  ultimately show "\<exists>c'. cdispatch sproto_codec c b = (c', Some (CResponse i v)) \<and> spent_type sp P c' i"
    by (auto simp: sproto_codec_def session_view_def)
next
  fix c i b v
  assume c: "spent_type sp P c i" and "answer_of sp P t b i v"
  then obtain d d' a where a: "host_ok sp P d" "fits_type sp t a" "small_packet sp P (headerTemp JNull (JNum i)) t a"
      "codec_respond d (Some t, JNum i) a = (Inr b, d')"
    by (auto simp: answer_of_def)
  obtain u where "codec_dispatch c b = (Some (MResponse (JNum i) u), c)"
    using codec_duplicate [of sp P d c i t a b d'] c a by (auto simp: spent_type_def)
  then show "\<exists>u. cdispatch sproto_codec c b = (c, Some (CResponse i u))"
    by (auto simp: sproto_codec_def session_view_def)
qed

end
