(* ===== verification/Md5_Correct.thy ===== *)
theory Md5_Correct
  imports Md5
begin

section \<open>MD5 against RFC 1321\<close>

text \<open>
  The algorithm as the RFC describes it: the message with its padding, the four registers updated
  in place in the order ABCD, DABC, CDAB, BCDA with the tables of word indices and shifts it
  prints, circular shifts. The code instead renames the registers after each step and computes the
  indices.
\<close>

subsection \<open>The reference\<close>

definition le_bytes :: "nat \<Rightarrow> int \<Rightarrow> byte list" where
  "le_bytes n x = map (\<lambda>k. of_int (x div 256 ^ k)) [0..<n]"

definition rfc_pad :: "byte list \<Rightarrow> byte list" where
  "rfc_pad msg =
     msg @ [0x80] @ replicate (nat ((55 - int (length msg)) mod 64)) 0 @ le_bytes 8 (8 * int (length msg))"

definition rfc_index :: "nat list" where
  "rfc_index =
    [0, 1, 2, 3, 4, 5, 6, 7, 8, 9, 10, 11, 12, 13, 14, 15,
     1, 6, 11, 0, 5, 10, 15, 4, 9, 14, 3, 8, 13, 2, 7, 12,
     5, 8, 11, 14, 1, 4, 7, 10, 13, 0, 3, 6, 9, 12, 15, 2,
     0, 7, 14, 5, 12, 3, 10, 1, 8, 15, 6, 13, 4, 11, 2, 9]"

definition rfc_shift :: "nat \<Rightarrow> nat" where
  "rfc_shift i = [[7, 12, 17, 22], [5, 9, 14, 20], [4, 11, 16, 23], [6, 10, 15, 21]] ! (i div 16) ! (i mod 4)"

definition rfc_F :: "32 word \<Rightarrow> 32 word \<Rightarrow> 32 word \<Rightarrow> 32 word" where
  "rfc_F x y z = (x AND y) OR (NOT x AND z)"

definition rfc_G :: "32 word \<Rightarrow> 32 word \<Rightarrow> 32 word \<Rightarrow> 32 word" where
  "rfc_G x y z = (x AND z) OR (y AND NOT z)"

definition rfc_H :: "32 word \<Rightarrow> 32 word \<Rightarrow> 32 word \<Rightarrow> 32 word" where
  "rfc_H x y z = x XOR y XOR z"

definition rfc_I :: "32 word \<Rightarrow> 32 word \<Rightarrow> 32 word \<Rightarrow> 32 word" where
  "rfc_I x y z = y XOR (x OR NOT z)"

text \<open>Step \<open>i\<close> updates register A, D, C, B, A, ...; the three behind it are its operands.\<close>

definition rfc_target :: "nat \<Rightarrow> nat" where
  "rfc_target i = [0, 3, 2, 1] ! (i mod 4)"

definition rfc_op :: "32 word list \<Rightarrow> nat \<Rightarrow> 32 word list \<Rightarrow> 32 word list" where
  "rfc_op X i regs =
     (let t = rfc_target i;
          b = regs ! ((t + 1) mod 4); c = regs ! ((t + 2) mod 4); d = regs ! ((t + 3) mod 4);
          f = [rfc_F, rfc_G, rfc_H, rfc_I] ! (i div 16)
      in regs[t := b + word_rotl (rfc_shift i) (regs ! t + f b c d + X ! (rfc_index ! i) + md5_K ! i)])"

definition rfc_block :: "byte list \<Rightarrow> 32 word list \<Rightarrow> 32 word list" where
  "rfc_block block regs =
     map2 (+) regs (fold (rfc_op (map (\<lambda>i. get_i32 block (4 * i)) [0..<16])) [0..<64] regs)"

definition rfc_md5 :: "byte list \<Rightarrow> byte list" where
  "rfc_md5 msg =
     (let m = rfc_pad msg;
          blocks = map (\<lambda>j. take 64 (drop (64 * j) m)) [0..<length m div 64]
      in concat (map (\<lambda>x. le_bytes 4 (uint x))
           (fold rfc_block blocks [0x67452301, 0xefcdab89, 0x98badcfe, 0x10325476])))"

subsection \<open>Padding\<close>

lemma padded_len_gap: "padded_len n = n + 1 + nat ((55 - int n) mod 64) + 8"
proof -
  have "int (padded_len n) = ((int n + 8) div 64 + 1) * 64" by (simp add: padded_len_def zdiv_int)
  also have "\<dots> = int n + 9 + (55 - int n) mod 64"
  proof -
    let ?q = "(int n + 8) div 64" and ?r = "(int n + 8) mod 64"
    have "55 - int n = (63 - ?r) + 64 * (- ?q)" using mult_div_mod_eq [of 64 "int n + 8"] by linarith
    then have "(55 - int n) mod 64 = (63 - ?r) mod 64" by (simp only: mod_mult_self2)
    then have "(55 - int n) mod 64 = 63 - (int n + 8) mod 64" by simp
    moreover have "(int n + 8) div 64 * 64 = int n + 8 - (int n + 8) mod 64" by (rule minus_mod_eq_div_mult [symmetric])
    ultimately show ?thesis by (simp add: distrib_right)
  qed
  finally show ?thesis by simp
qed

lemma update_behind: "(xs @ ys)[length xs + k := v] = xs @ ys[k := v]"
  by (simp add: list_update_append)

lemma set_u32_append:
  assumes "length ys = 4"
  shows "set_u32 (xs @ ys @ zs) (length xs) x =
    xs @ [ucast x, ucast (drop_bit 8 x), ucast (drop_bit 16 x), ucast (drop_bit 24 x)] @ zs"
proof -
  obtain y0 y1 y2 y3 where "ys = [y0, y1, y2, y3]"
    using assms by (auto simp: numeral_eq_Suc length_Suc_conv)
  then show ?thesis
    unfolding set_u32_def
    using update_behind [of xs _ 0] by (simp only: update_behind add_0_right) (simp add: numeral_eq_Suc)
qed

lemma le_bytes_drop: "le_bytes n x = map (\<lambda>k. of_int (drop_bit (8 * k) x)) [0..<n]"
  by (simp add: le_bytes_def drop_bit_eq_div power_mult)

lemma byte_of_drop: "(ucast (drop_bit j (x :: 32 word)) :: byte) = of_int (drop_bit j (uint x))"
  by (rule bit_word_eqI) (auto simp: bit_simps)

lemma u32_bytes:
  "[ucast x, ucast (drop_bit 8 x), ucast (drop_bit 16 x), ucast (drop_bit 24 (x :: 32 word))] = le_bytes 4 (uint x)"
  using byte_of_drop [of 0 x] byte_of_drop [of 8 x] byte_of_drop [of 16 x] byte_of_drop [of 24 x]
  by (simp add: le_bytes_drop upt_rec)

lemma le_bytes_8:
  "le_bytes 8 n = le_bytes 4 (uint (of_int n :: 32 word)) @ le_bytes 4 (uint (of_int (n div 2 ^ 32) :: 32 word))"
proof -
  have low: "(of_int (drop_bit j (uint (of_int n :: 32 word))) :: byte) = of_int (drop_bit j n)" if "j \<le> 24" for j n
    by (rule bit_word_eqI) (use that in \<open>auto simp: bit_simps\<close>)
  have high: "drop_bit (32 + j) n = drop_bit j (n div 2 ^ 32)" for j
    by (simp add: drop_bit_eq_div power_add zdiv_zmult2_eq)
  show ?thesis
    using low [of 0] low [of 8] low [of 16] low [of 24] high [of 0] high [of 8] high [of 16] high [of 24]
    by (simp add: le_bytes_drop upt_rec del: drop_bit_numeral_bit0 of_int_numeral)
qed

subsection \<open>Steps\<close>

lemma rotate_shifts:
  assumes "0 < s" "s < 32"
  shows "push_bit s f OR drop_bit (32 - s) f = word_rotl s (f :: 32 word)"
proof (rule bit_word_eqI)
  fix n assume "n < LENGTH(32)"
  then have n: "n < 32" by simp
  then have "(n + 32 - s) mod 32 = (if s \<le> n then n - s else n + 32 - s)" using assms by (simp add: mod_if)
  with n assms show "bit (push_bit s f OR drop_bit (32 - s) f) n \<longleftrightarrow> bit (word_rotl s f) n"
    by (auto simp: bit_simps add.commute [of 32 n] dest: bit_imp_le_length)
qed

lemma tables:
  "i < 64 \<Longrightarrow> md5_g i = rfc_index ! i \<and> md5_S ! i = rfc_shift i \<and> 0 < md5_S ! i \<and> md5_S ! i < 32"
proof -
  have "list_all (\<lambda>i. md5_g i = rfc_index ! i \<and> md5_S ! i = rfc_shift i \<and> 0 < md5_S ! i \<and> md5_S ! i < 32) [0..<64]"
    by code_simp
  moreover assume "i < 64"
  then have "i \<in> set [0..<64]" by simp
  ultimately show ?thesis unfolding list_all_iff by blast
qed

lemma md5_f_rfc:
  assumes "i < 64"
  shows "md5_f i b c d = ([rfc_F, rfc_G, rfc_H, rfc_I] ! (i div 16)) b c d"
proof -
  consider "i < 16" | "16 \<le> i" "i < 32" | "32 \<le> i" "i < 48" | "48 \<le> i" by linarith
  then show ?thesis
  proof cases
    case 2
    then have "i div 16 = 1" by simp
    with 2 show ?thesis by (simp add: md5_f_def rfc_G_def and.commute)
  next
    case 3
    then have "i div 16 = 2" by simp
    with 3 show ?thesis by (simp add: md5_f_def rfc_H_def)
  next
    case 4
    then have "i div 16 = 3" using assms by simp
    with 4 show ?thesis by (simp add: md5_f_def rfc_I_def)
  qed (simp add: md5_f_def rfc_F_def)
qed

text \<open>Before step \<open>i\<close> the variables of the code are the registers, read from the one step \<open>i\<close> updates.\<close>

definition renamed :: "nat \<Rightarrow> registers \<Rightarrow> 32 word list \<Rightarrow> bool" where
  "renamed i r regs \<longleftrightarrow> length regs = 4 \<and>
     (let t = rfc_target i in r = (regs ! t, regs ! ((t + 1) mod 4), regs ! ((t + 2) mod 4), regs ! ((t + 3) mod 4)))"

lemma renamed_step:
  assumes "i < 64" "renamed i r regs"
  shows "renamed (Suc i) (md5_step X i r) (rfc_op X i regs)"
proof -
  have "length regs = 4" using assms(2) by (simp add: renamed_def)
  then obtain A B C D where regs: "regs = [A, B, C, D]" by (auto simp: numeral_eq_Suc length_Suc_conv)
  note tab = tables [OF assms(1)]
  have rot: "push_bit (rfc_shift i) f OR drop_bit (32 - rfc_shift i) f = word_rotl (rfc_shift i) f" for f :: "32 word"
    using rotate_shifts [of "rfc_shift i" f] tab by simp
  define f where "f = [rfc_F, rfc_G, rfc_H, rfc_I] ! (i div 16)"
  define k where "k = X ! (rfc_index ! i) + md5_K ! i"
  have step: "md5_step X i (a, b, c, d) = (d, b + word_rotl (rfc_shift i) (a + f b c d + k), b, c)" for a b c d
    using tab by (simp add: md5_step_def md5_f_rfc [OF assms(1)] rot Let_def f_def k_def ac_simps)
  have op: "rfc_op X i regs = (let t = rfc_target i; b = regs ! ((t + 1) mod 4); c = regs ! ((t + 2) mod 4); d = regs ! ((t + 3) mod 4)
      in regs[t := b + word_rotl (rfc_shift i) (regs ! t + f b c d + k)])"
    by (simp add: rfc_op_def f_def k_def Let_def ac_simps)
  consider "i mod 4 = 0" | "i mod 4 = 1" | "i mod 4 = 2" | "i mod 4 = 3" by linarith
  then show ?thesis
    by cases (use assms(2) step in \<open>simp_all add: renamed_def op [unfolded regs] regs rfc_target_def mod_Suc Let_def\<close>)
qed

lemma renamed_steps:
  assumes "renamed 0 r regs"
  shows "n \<le> 64 \<Longrightarrow> renamed n (fold (md5_step X) [0..<n] r) (fold (rfc_op X) [0..<n] regs)"
proof (induction n)
  case (Suc n)
  then show ?case using renamed_step [of n "fold (md5_step X) [0..<n] r" "fold (rfc_op X) [0..<n] regs" X] by simp
qed (simp add: assms)

subsection \<open>The whole algorithm\<close>

lemma md5_padded_rfc: "md5_padded msg = rfc_pad msg"
proof -
  let ?n = "length msg" and ?z = "nat ((55 - int (length msg)) mod 64)"
  note len = padded_len_gap [of ?n]
  have m0: "msg @ drop ?n (replicate (padded_len ?n) 0) = msg @ 0 # replicate ?z 0 @ replicate 4 0 @ replicate 4 0"
  proof -
    have "padded_len ?n - ?n = 1 + (?z + (4 + 4))" unfolding len by simp
    then have "drop ?n (replicate (padded_len ?n) (0 :: byte)) = replicate (1 + (?z + (4 + 4))) 0" by simp
    also have "\<dots> = 0 # replicate ?z 0 @ replicate 4 0 @ replicate 4 0" unfolding replicate_add by simp
    finally show ?thesis by (rule arg_cong)
  qed
  have pos: "padded_len ?n - 8 = length (msg @ 0x80 # replicate ?z 0)" "padded_len ?n - 4 = length (msg @ 0x80 # replicate ?z 0 @ le_bytes 4 x)" for x
    unfolding len by (simp_all add: le_bytes_def)
  let ?lo = "of_int (int ?n * 8) :: 32 word" and ?hi = "of_int (int ?n div 0x20000000) :: 32 word"
  have m1: "(msg @ 0 # replicate ?z 0 @ replicate 4 0 @ replicate 4 0)[?n := 0x80] =
      (msg @ 0x80 # replicate ?z 0) @ replicate 4 0 @ replicate 4 (0 :: byte)"
    using update_behind [of msg "0 # replicate ?z 0 @ replicate 4 0 @ replicate 4 0" 0] by simp
  have m2: "set_u32 ((msg @ 0x80 # replicate ?z 0) @ replicate 4 0 @ replicate 4 0) (padded_len ?n - 8) ?lo =
      (msg @ 0x80 # replicate ?z 0) @ le_bytes 4 (uint ?lo) @ replicate 4 0"
    unfolding pos(1) by (subst set_u32_append) (simp_all only: u32_bytes length_replicate)
  have m3: "set_u32 ((msg @ 0x80 # replicate ?z 0 @ le_bytes 4 (uint ?lo)) @ replicate 4 0 @ []) (padded_len ?n - 4) ?hi =
      (msg @ 0x80 # replicate ?z 0 @ le_bytes 4 (uint ?lo)) @ le_bytes 4 (uint ?hi) @ []"
    unfolding pos(2) [of "uint ?lo"] by (subst set_u32_append) (simp_all only: u32_bytes length_replicate)
  have hi: "int ?n div 0x20000000 = 8 * int ?n div 2 ^ 32" by simp
  have assoc: "(msg @ 0x80 # replicate ?z 0) @ le_bytes 4 x @ y = (msg @ 0x80 # replicate ?z 0 @ le_bytes 4 x) @ y @ []" for x y
    by simp
  have "md5_padded msg = (msg @ 0x80 # replicate ?z 0 @ le_bytes 4 (uint ?lo)) @ le_bytes 4 (uint ?hi) @ []"
    unfolding md5_padded_def Let_def m0 m1 m2 assoc by (rule m3)
  also have "\<dots> = rfc_pad msg"
    unfolding rfc_pad_def le_bytes_8 [of "8 * int ?n"] hi mult.commute [of "int ?n" 8] by (simp only: append_assoc append_Cons append_Nil append_Nil2)
  finally show ?thesis .
qed

lemma length_rfc_pad: "length (rfc_pad msg) = 64 * (padded_len (length msg) div 64)"
proof -
  have "length (rfc_pad msg) = padded_len (length msg)"
    unfolding padded_len_gap by (simp add: rfc_pad_def le_bytes_def)
  then show ?thesis by (simp add: padded_len_def)
qed

definition register_list :: "registers \<Rightarrow> 32 word list" where
  "register_list r = (case r of (a, b, c, d) \<Rightarrow> [a, b, c, d])"

lemma renamed_list:
  assumes "renamed i r regs" "i mod 4 = 0"
  shows "regs = register_list r"
proof -
  have "length regs = 4" using assms(1) by (simp add: renamed_def)
  then obtain A B C D where regs: "regs = [A, B, C, D]" by (auto simp: numeral_eq_Suc length_Suc_conv)
  show ?thesis using assms by (simp add: renamed_def regs rfc_target_def register_list_def)
qed

lemma block_rfc:
  assumes "64 * (j + 1) \<le> length m"
  shows "register_list (md5_block m (64 * j) r) = rfc_block (take 64 (drop (64 * j) m)) (register_list r)"
proof -
  let ?b = "take 64 (drop (64 * j) m)"
  have nth: "?b ! k = m ! (64 * j + k)" if "k < 64" for k
    using assms that by simp
  have "get_i32 ?b (4 * i) = get_i32 m (64 * j + i * 4)" if "i < 16" for i
    unfolding get_i32_def using that by (simp add: nth add.assoc mult.commute [of i 4] del: nth_take)
  then have words: "map (\<lambda>i. get_i32 m (64 * j + i * 4)) [0..<16] = map (\<lambda>i. get_i32 ?b (4 * i)) [0..<16]"
    by (simp del: upt_rec_numeral)
  obtain a b c d where r: "r = (a, b, c, d)" by (cases r)
  have "renamed 0 r (register_list r)" by (simp add: renamed_def r register_list_def rfc_target_def)
  then have "renamed 64 (fold (md5_step w) [0..<64] r) (fold (rfc_op w) [0..<64] (register_list r))" for w
    by (rule renamed_steps) simp
  then have "fold (rfc_op w) [0..<64] (register_list r) = register_list (fold (md5_step w) [0..<64] r)" for w
    by (rule renamed_list) simp
  then show ?thesis
    unfolding md5_block_def rfc_block_def Let_def words by (simp add: r register_list_def split: prod.split)
qed

lemma blocks_rfc:
  assumes "length m = 64 * n" "k \<le> n"
  shows "register_list (md5_blocks m (64 * (n - k)) r) =
    fold rfc_block (map (\<lambda>j. take 64 (drop (64 * j) m)) [n - k..<n]) (register_list r)"
  using assms(2)
proof (induction k arbitrary: r)
  case 0
  then show ?case by (simp add: md5_blocks.simps assms(1))
next
  case (Suc k)
  let ?j = "n - Suc k"
  have j: "?j < n" "Suc ?j = n - k" "64 * ?j + 64 = 64 * (n - k)" using Suc.prems by simp_all
  have "md5_blocks m (64 * ?j) r = md5_blocks m (64 * (n - k)) (md5_block m (64 * ?j) r)"
    using j by (subst md5_blocks.simps) (simp add: assms(1))
  moreover have "[?j..<n] = ?j # [n - k..<n]" using upt_conv_Cons [OF j(1)] unfolding j(2) .
  moreover have "register_list (md5_block m (64 * ?j) r) = rfc_block (take 64 (drop (64 * ?j) m)) (register_list r)"
    using j by (intro block_rfc) (simp add: assms(1))
  ultimately show ?case using Suc by simp
qed

lemma digest_bytes:
  "set_u32 (set_u32 (set_u32 (set_u32 (replicate 16 0) 0 a) 4 b) 8 c) 12 d =
    concat (map (\<lambda>x. le_bytes 4 (uint x)) [a, b, c, d])"
proof -
  have z: "replicate 16 (0 :: byte) = replicate 4 0 @ replicate 4 0 @ replicate 4 0 @ replicate 4 0"
    by (simp add: eval_nat_numeral)
  have set4: "set_u32 (xs @ replicate 4 0 @ zs) n x = xs @ le_bytes 4 (uint x) @ zs" if "length xs = n" for xs zs n x
    using set_u32_append [of "replicate 4 0" xs zs x] that by (simp only: u32_bytes length_replicate)
  have len: "length (le_bytes 4 x) = 4" for x by (simp add: le_bytes_def)
  have "set_u32 (replicate 16 0) 0 a = le_bytes 4 (uint a) @ replicate 4 0 @ replicate 4 0 @ replicate 4 0"
    using set4 [of "[]" 0] z by simp
  moreover have "set_u32 (le_bytes 4 (uint a) @ replicate 4 0 @ replicate 4 0 @ replicate 4 0) 4 b =
      le_bytes 4 (uint a) @ le_bytes 4 (uint b) @ replicate 4 0 @ replicate 4 0"
    by (rule set4) (rule len)
  moreover have "set_u32 ((le_bytes 4 (uint a) @ le_bytes 4 (uint b)) @ replicate 4 0 @ replicate 4 0) 8 c =
      (le_bytes 4 (uint a) @ le_bytes 4 (uint b)) @ le_bytes 4 (uint c) @ replicate 4 0"
    by (rule set4) (simp add: len)
  moreover have "set_u32 ((le_bytes 4 (uint a) @ le_bytes 4 (uint b) @ le_bytes 4 (uint c)) @ replicate 4 0 @ []) 12 d =
      (le_bytes 4 (uint a) @ le_bytes 4 (uint b) @ le_bytes 4 (uint c)) @ le_bytes 4 (uint d) @ []"
    by (rule set4) (simp add: len)
  ultimately show ?thesis by (simp only: append_assoc append_Nil2 list.map concat.simps)
qed

lemma md5_rfc: "md5 data = rfc_md5 data"
proof -
  let ?m = "rfc_pad data" and ?n = "length (rfc_pad data) div 64"
  let ?r = "(0x67452301, 0xefcdab89, 0x98badcfe, 0x10325476) :: registers"
  obtain a b c d where r: "md5_blocks ?m 0 ?r = (a, b, c, d)" by (cases "md5_blocks ?m 0 ?r")
  have "length ?m = 64 * ?n" by (simp add: length_rfc_pad)
  from blocks_rfc [OF this, of ?n ?r] have "fold rfc_block (map (\<lambda>j. take 64 (drop (64 * j) ?m)) [0..<?n])
      [0x67452301, 0xefcdab89, 0x98badcfe, 0x10325476] = [a, b, c, d]"
    by (simp add: r register_list_def)
  then show ?thesis
    unfolding md5_def rfc_md5_def Let_def md5_padded_rfc r prod.case digest_bytes by (simp only:)
qed

end
