(* ===== verification/Stack_Props.thy ===== *)
theory Stack_Props
  imports Codec_Correct SprotoDemo Md5_Correct
begin

section \<open>Properties of the layers together\<close>

text \<open>
  What the codec, the sproto host under it and the session layer above it do together: requests
  and responses between two ends of a connection, responses that come again, text, and the checksum
  the login sends.
\<close>

lemma demo_package: "package_ok demo_schema package_type"
proof -
  have "names_ok package_type \<and> header_field package_type ''type'' \<and> header_field package_type ''session''"
    unfolding names_ok_def header_field_def by code_simp
  then show ?thesis using demo_encodable(3) by (simp add: package_ok_def)
qed

definition demo_host :: sproto_host where
  "demo_host = \<lparr>h_proto = new_api demo_schema, h_package = TypeOf package_type, h_session = (\<lambda>n. None), h_attached = True\<rparr>"

lemma demo_host_ok: "host_ok demo_schema package_type demo_host"
  by (simp add: host_ok_def demo_host_def new_api_def proto_cache.sound_empty)

definition demo_info :: proto_info where
  "demo_info = \<lparr>i_tag = 1, i_name = js ''bag.get'', i_request = Some item_type, i_response = Some bag_type\<rparr>"

lemma demo_info: "protocol demo_schema (ByName (js ''bag.get'')) = Some demo_info"
  unfolding demo_info_def by code_simp

definition demo_args :: jsval where
  "demo_args = JObj [(js ''id'', JBig 70067467908940524), (js ''tag'', JStr [0x94B1, 0x41])]"

definition demo_reply :: jsval where
  "demo_reply = JObj [(js ''items'', JArr [JObj [(js ''id'', JNum 3)]]), (js ''open'', JBool True)]"

lemma demo_fits: "fits_type demo_schema item_type demo_args" "fits_type demo_schema bag_type demo_reply"
proof -
  have "object_ok demo_schema ENCODE_DEEPLEVEL item_type (encodeDeep demo_args)"
    "object_ok demo_schema ENCODE_DEEPLEVEL bag_type (encodeDeep demo_reply)"
    by code_simp+
  then show "fits_type demo_schema item_type demo_args" "fits_type demo_schema bag_type demo_reply"
    using demo_encodable by (simp_all add: fits_type_def)
qed

lemma small_packetI:
  assumes "map_sum id length (sproto_format sp ENCODE_DEEPLEVEL P header) = Inr k"
    "map_sum id length (sproto_format sp ENCODE_DEEPLEVEL t (encodeDeep v)) = Inr l" "k + l \<le> 2 ^ 29"
  shows "small_packet sp P header t v"
  using assms by (auto simp: small_packet_def split: sum.split)

lemma demo_small:
  "small_packet demo_schema package_type (headerTemp (JNum 1) (JNum 5)) item_type demo_args"
  "small_packet demo_schema package_type (headerTemp JNull (JNum 5)) bag_type demo_reply"
proof -
  have len: "map_sum id length (sproto_format demo_schema ENCODE_DEEPLEVEL package_type (headerTemp (JNum 1) (JNum 5))) = Inr 6"
      "map_sum id length (sproto_format demo_schema ENCODE_DEEPLEVEL package_type (headerTemp JNull (JNum 5))) = Inr 6"
      "map_sum id length (sproto_format demo_schema ENCODE_DEEPLEVEL item_type (encodeDeep demo_args)) = Inr 30"
      "map_sum id length (sproto_format demo_schema ENCODE_DEEPLEVEL bag_type (encodeDeep demo_reply)) = Inr 30"
    by code_simp+
  show "small_packet demo_schema package_type (headerTemp (JNum 1) (JNum 5)) item_type demo_args"
    by (rule small_packetI [OF len(1,3)]) simp
  show "small_packet demo_schema package_type (headerTemp JNull (JNum 5)) bag_type demo_reply"
    by (rule small_packetI [OF len(2,4)]) simp
qed

lemma demo_carried:
  "carried demo_schema item_type demo_args = demo_args"
  "carried demo_schema bag_type demo_reply =
    JObj [(js ''items'', JArr [JObj [(js ''id'', JNum 3)]]), (js ''nums'', JArr []), (js ''open'', JBool True)]"
  by code_simp+

subsection \<open>Requests and responses between two codecs\<close>

text \<open>
  C3. A request packed by one codec and dispatched by another one on the same schema arrives under
  its protocol name and its id, with the arguments as the request type carries them (text as text,
  integers by value), and the packing side waits for a response of the protocol's type. Both codecs
  keep their caches coherent. This holds whatever either codec has done before.
\<close>

theorem codec_request_arrives:
  assumes "schema_encodable sp" and "package_ok sp P" and "protocols_ordered sp" and "host_ok sp P c" and "host_ok sp P d"
    and "protocol sp (ByName name) = Some p" and "i_request p = Some req" and "number_ok53 (i_tag p)"
    and "fits_type sp req args" and "number_ok53 n" and "small_packet sp P (headerTemp (JNum (i_tag p)) (JNum n)) req args"
  shows "\<exists>b c' d'. codec_pack c name args (Some n) = (Inr b, c') \<and> host_ok sp P c' \<and>
    h_session c' = (h_session c)(n \<mapsto> (case i_response p of None \<Rightarrow> AnyResponse | Some t \<Rightarrow> ResponseOf t)) \<and>
    codec_dispatch d b = (Some (MRequest name (carried sp req args) (JNum n) (Some (i_response p, JNum n))), d') \<and>
    host_ok sp P d' \<and> h_session d' = h_session d"
  by (rule codec_request) (fact assms)+

theorem codec_request_arrives_witness:
  "\<exists>b c' d'. codec_pack demo_host (js ''bag.get'') demo_args (Some 5) = (Inr b, c') \<and>
    h_session c' 5 = Some (ResponseOf bag_type) \<and>
    codec_dispatch demo_host b = (Some (MRequest (js ''bag.get'') demo_args (JNum 5) (Some (Some bag_type, JNum 5))), d')"
proof -
  have "number_ok53 (i_tag demo_info)" "number_ok53 5" "i_request demo_info = Some item_type"
    by (simp_all add: number_ok53_def demo_info_def)
  moreover have "small_packet demo_schema package_type (headerTemp (JNum (i_tag demo_info)) (JNum 5)) item_type demo_args"
    using demo_small(1) by (simp add: demo_info_def)
  ultimately show ?thesis
    using codec_request_arrives [OF demo_encodable(1) demo_package demo_ordered demo_host_ok demo_host_ok demo_info _ _ demo_fits(1)]
    by (fastforce simp: demo_info_def demo_carried(1))
qed

text \<open>
  C4. A response that comes a second time, after the first has used up the type it was awaited with,
  is never taken for a broken packet: the codec still names its id, with no body or an empty one,
  and its state stays as it is. (The host's dispatch may throw on it; the codec reads the header again.)
\<close>

theorem repeated_response_recognised:
  assumes "schema_encodable sp" and "package_ok sp P" and "host_ok sp P d" and "host_ok sp P c"
    and "number_ok53 n" and "h_session c n = None" and "fits_type sp t args"
    and "small_packet sp P (headerTemp JNull (JNum n)) t args" and "codec_respond d (Some t, JNum n) args = (Inr b, d')"
  shows "\<exists>u. codec_dispatch c b = (Some (MResponse (JNum n) u), c) \<and> u \<in> {JUndef, JObj []}"
  by (rule codec_duplicate) (fact assms)+

theorem repeated_response_recognised_witness:
  "\<exists>b u. codec_respond demo_host (Some bag_type, JNum 5) demo_reply = (Inr b, demo_host) \<and>
    codec_dispatch demo_host b = (Some (MResponse (JNum 5) u), demo_host) \<and> u \<in> {JUndef, JObj []}"
proof -
  have n: "number_ok53 5" "h_session demo_host 5 = None" by (simp_all add: number_ok53_def demo_host_def)
  have "host_ok demo_schema package_type (demo_host\<lparr>h_session := (\<lambda>n. Some (ResponseOf bag_type))\<rparr>)"
    using demo_host_ok by simp
  from codec_response [OF demo_encodable(1) demo_package demo_host_ok this n(1) _ demo_fits(2) demo_small(2)]
  obtain b where b: "codec_respond demo_host (Some bag_type, JNum 5) demo_reply = (Inr b, demo_host)" by auto
  from repeated_response_recognised [OF demo_encodable(1) demo_package demo_host_ok demo_host_ok n demo_fits(2) demo_small(2) b] b
  show ?thesis by blast
qed

subsection \<open>Text and checksum\<close>

fun texts_ok :: "jsval \<Rightarrow> bool" where
  "texts_ok (JStr s) = (well_formed s \<and> (s = [] \<or> hd s \<noteq> 0xFEFF))"
| "texts_ok (JArr vs) = (\<forall>v \<in> set vs. texts_ok v)"
| "texts_ok (JObj kvs) = (\<forall>kv \<in> set kvs. texts_ok (snd kv))"
| "texts_ok v = True"

fun bytes_as_numbers :: "jsval \<Rightarrow> jsval" where
  "bytes_as_numbers (JU8 bs) = JArr (map (\<lambda>b. JNum (uint b)) bs)"
| "bytes_as_numbers (JArr vs) = JArr (map bytes_as_numbers vs)"
| "bytes_as_numbers (JObj kvs) = JObj (map (\<lambda>kv. (fst kv, bytes_as_numbers (snd kv))) kvs)"
| "bytes_as_numbers v = v"

text \<open>
  C8. The deep conversions undo each other: an API value whose texts have no lone surrogate and do not
  begin with a byte order mark comes back from the wire form as it was, byte arrays as arrays of numbers,
  at any depth of nesting.
\<close>

theorem deep_conversion_roundtrip: "texts_ok v \<Longrightarrow> decodeDeep (encodeDeep v) = bytes_as_numbers v"
  by (induction v rule: encodeDeep.induct)
    (simp_all add: byteStringToText_textToByteString toNumberArray_def)

theorem deep_conversion_roundtrip_witness:
  "decodeDeep (encodeDeep (JArr [JStr [0x94B1, 0xD83D, 0xDE00], JU8 [7]])) = JArr [JStr [0x94B1, 0xD83D, 0xDE00], JArr [JNum 7]]"
proof -
  have "texts_ok (JArr [JStr [0x94B1, 0xD83D, 0xDE00], JU8 [7]])" by code_simp
  from deep_conversion_roundtrip [OF this] show ?thesis by simp
qed


lemma md5_vector: "md5Hex (map (\<lambda>n. of_int n) [97, 98, 99]) = js ''900150983cd24fb0d6963f7d28e17f72''"
  by code_simp

end
