(* ===== verification/Json.thy ===== *)
theory Json
  imports Ieee
begin

section \<open>JSON with exact integers\<close>

text \<open>
  \<open>json.ts\<close>: \<open>quoteUnsafeIntegers\<close>, which scans a text by index and puts integers a double cannot
  hold between sentinels, and \<open>parseJson\<close>, which lets \<open>JSON.parse\<close> read the result and turns
  the sentinel strings into bigints. \<open>JSON.parse\<close> with its reviver is modelled from the language
  standard. An object is its properties in order of insertion (JavaScript lists keys that look
  like array indices first; nothing here depends on it).
\<close>

subsection \<open>Numbers as text\<close>

definition SENTINEL :: "16 word" where
  "SENTINEL = 0xE000"

definition isDigit :: "16 word \<Rightarrow> bool" where
  "isDigit c \<longleftrightarrow> 0x30 \<le> c \<and> c \<le> 0x39"

definition digits_val :: "jsstr \<Rightarrow> int" where
  "digits_val ds = foldl (\<lambda>n d. 10 * n + (uint d - 0x30)) 0 ds"

definition without_sign :: "jsstr \<Rightarrow> jsstr" where
  "without_sign tok = (case tok of [] \<Rightarrow> [] | c # cs \<Rightarrow> if c = 0x2D then cs else tok)"

definition negative :: "jsstr \<Rightarrow> bool" where
  "negative tok \<longleftrightarrow> tok \<noteq> [] \<and> hd tok = 0x2D"

text \<open>\<open>-?\d+\<close>, and the \<open>BigInt\<close> of such a text.\<close>

definition int_token :: "jsstr \<Rightarrow> bool" where
  "int_token tok \<longleftrightarrow> without_sign tok \<noteq> [] \<and> list_all isDigit (without_sign tok)"

definition token_int :: "jsstr \<Rightarrow> int" where
  "token_int tok = (if negative tok then - digits_val (without_sign tok) else digits_val (without_sign tok))"

text \<open>\<open>Number.isSafeInteger(Number(token))\<close> of a token without fraction and exponent; \<open>"-"\<close> is NaN.\<close>

definition safe_token :: "jsstr \<Rightarrow> bool" where
  "safe_token tok \<longleftrightarrow> int_token tok \<and> \<bar>token_int tok\<bar> \<le> 9007199254740991"

subsection \<open>\<open>quoteUnsafeIntegers\<close>\<close>

text \<open>The loops \<open>while (i < n && isDigit(text[i])) i++\<close>.\<close>

function skip_digits :: "jsstr \<Rightarrow> nat \<Rightarrow> nat" where
  "skip_digits text i = (if i < length text \<and> isDigit (text ! i) then skip_digits text (i + 1) else i)"
  by pat_completeness auto
termination by (relation "measure (\<lambda>(text, i). length text - i)") auto

declare skip_digits.simps [simp del]

text \<open>The end of the number that starts at an index, and whether it has a fraction or an exponent.\<close>

definition frac_end :: "jsstr \<Rightarrow> nat \<Rightarrow> nat \<times> bool" where
  "frac_end text i = (if i < length text \<and> text ! i = 0x2E then (skip_digits text (i + 1), True) else (i, False))"

definition exp_end :: "jsstr \<Rightarrow> nat \<Rightarrow> bool \<Rightarrow> nat \<times> bool" where
  "exp_end text i isFloat =
     (if i < length text \<and> (text ! i = 0x65 \<or> text ! i = 0x45) then
        let i = i + 1;
            i = (if i < length text \<and> (text ! i = 0x2B \<or> text ! i = 0x2D) then i + 1 else i)
        in (skip_digits text i, True)
      else (i, isFloat))"

definition number_end :: "jsstr \<Rightarrow> nat \<Rightarrow> nat \<times> bool" where
  "number_end text start =
     (let intEnd = skip_digits text (if text ! start = 0x2D then start + 1 else start)
      in case frac_end text intEnd of (i, isFloat) \<Rightarrow> exp_end text i isFloat)"

text \<open>The inner loop that copies a string literal: the index behind it and the output.\<close>

function copy_string :: "jsstr \<Rightarrow> nat \<Rightarrow> jsstr \<Rightarrow> nat \<times> jsstr" where
  "copy_string text i out =
     (if i < length text then
        let sc = text ! i; out = out @ [sc]; i = i + 1 in
        if sc = 0x5C then
          (if i < length text then copy_string text (i + 1) (out @ [text ! i]) else copy_string text i out)
        else if sc = 0x22 then (i, out)
        else copy_string text i out
      else (i, out))"
  by pat_completeness auto
termination by (relation "measure (\<lambda>(text, i, out). length text - i)") auto

declare copy_string.simps [simp del]

lemma skip_digits_le: "i \<le> skip_digits t i"
  by (induction t i rule: skip_digits.induct) (subst skip_digits.simps, auto)

lemma copy_string_le: "i \<le> fst (copy_string t i out)"
proof (induction t i out rule: copy_string.induct)
  case (1 t i out)
  then show ?case by (subst copy_string.simps) (auto simp: Let_def intro: Suc_leD Suc_leD [OF Suc_leD])
qed

lemma frac_end_le: "i \<le> fst (frac_end t i)"
  using skip_digits_le [of "i + 1" t] by (simp add: frac_end_def)

lemma exp_end_le: "i \<le> fst (exp_end t i b)"
  using skip_digits_le [of "i + 1" t] skip_digits_le [of "i + 2" t] by (auto simp: exp_end_def Let_def)

lemma number_end_less:
  assumes "t ! start = 0x2D \<or> isDigit (t ! start)" "start < length t"
  shows "start < fst (number_end t start)"
proof -
  let ?i = "skip_digits t (if t ! start = 0x2D then start + 1 else start)"
  have "start < ?i"
    using assms skip_digits_le [of "start + 1" t] by (auto simp: skip_digits.simps [of t start])
  also have "?i \<le> fst (frac_end t ?i)" by (rule frac_end_le)
  also have "\<dots> \<le> fst (number_end t start)" using exp_end_le by (simp add: number_end_def split: prod.split)
  finally show ?thesis .
qed

text \<open>The main loop.\<close>

function quote_loop :: "jsstr \<Rightarrow> nat \<Rightarrow> jsstr \<Rightarrow> jsstr" where
  "quote_loop text i out =
     (if i < length text then
        let c = text ! i in
        if c = 0x22 then (case copy_string text (i + 1) (out @ [c]) of (i', out') \<Rightarrow> quote_loop text i' out')
        else if c = 0x2D \<or> isDigit c then
          (case number_end text i of (i', isFloat) \<Rightarrow>
             let token = take (i' - i) (drop i text) in
             quote_loop text i'
               (out @ (if \<not> isFloat \<and> \<not> safe_token token then [0x22, SENTINEL] @ token @ [SENTINEL, 0x22] else token)))
        else quote_loop text (i + 1) (out @ [c])
      else out)"
  by pat_completeness auto
termination
proof (relation "measure (\<lambda>(text, i, out). length text - i)", goal_cases)
  case (2 t i out c i' out')
  then show ?case using copy_string_le [of "i + 1" t "out @ [c]"] by (auto split: prod.splits)
next
  case (3 t i out c i' isFloat token)
  then show ?case using number_end_less [of t i] by (cases "number_end t i") auto
qed auto

declare quote_loop.simps [simp del]

definition quoteUnsafeIntegers :: "jsstr \<Rightarrow> jsstr" where
  "quoteUnsafeIntegers text = quote_loop text 0 []"

subsection \<open>\<open>JSON.parse\<close>\<close>

definition json_space :: "16 word \<Rightarrow> bool" where
  "json_space c \<longleftrightarrow> c = 0x20 \<or> c = 0x09 \<or> c = 0x0A \<or> c = 0x0D"

definition skip_space :: "jsstr \<Rightarrow> jsstr" where
  "skip_space s = dropWhile json_space s"

definition hex_val :: "16 word \<Rightarrow> int option" where
  "hex_val c =
     (if isDigit c then Some (uint c - 0x30)
      else if 0x41 \<le> c \<and> c \<le> 0x46 then Some (uint c - 0x37)
      else if 0x61 \<le> c \<and> c \<le> 0x66 then Some (uint c - 0x57)
      else None)"

definition hex4 :: "16 word \<Rightarrow> 16 word \<Rightarrow> 16 word \<Rightarrow> 16 word \<Rightarrow> 16 word option" where
  "hex4 a b c d =
     (case (hex_val a, hex_val b, hex_val c, hex_val d) of
        (Some p, Some q, Some r, Some s) \<Rightarrow> Some (of_int (((p * 16 + q) * 16 + r) * 16 + s))
      | _ \<Rightarrow> None)"

definition json_escape :: "16 word \<Rightarrow> 16 word option" where
  "json_escape c =
     (if c = 0x22 \<or> c = 0x5C \<or> c = 0x2F then Some c
      else if c = 0x62 then Some 0x08
      else if c = 0x66 then Some 0x0C
      else if c = 0x6E then Some 0x0A
      else if c = 0x72 then Some 0x0D
      else if c = 0x74 then Some 0x09
      else None)"

definition more_string :: "16 word \<Rightarrow> (jsstr \<times> jsstr) option \<Rightarrow> (jsstr \<times> jsstr) option" where
  "more_string u r = map_option (\<lambda>(str, rest). (u # str, rest)) r"

text \<open>A string literal behind its opening quote: the string and the rest of the text.\<close>

fun json_string :: "jsstr \<Rightarrow> (jsstr \<times> jsstr) option" where
  "json_string [] = None"
| "json_string (c # cs) =
     (if c = 0x22 then Some ([], cs)
      else if c = 0x5C then
        (case cs of
           [] \<Rightarrow> None
         | e # cs' \<Rightarrow>
             if e = 0x75 then
               (case cs' of
                  h1 # h2 # h3 # h4 # cs'' \<Rightarrow>
                    (case hex4 h1 h2 h3 h4 of None \<Rightarrow> None | Some u \<Rightarrow> more_string u (json_string cs''))
                | _ \<Rightarrow> None)
             else (case json_escape e of None \<Rightarrow> None | Some u \<Rightarrow> more_string u (json_string cs')))
      else if c < 0x20 then None
      else more_string c (json_string cs))"

text \<open>
  The longest run of characters that could belong to a number, cut into its parts: whether it has
  a sign, the digits, the fraction, the exponent. A number followed by a character
  it could not go on with is one only if its parts have digits and no leading zero.
\<close>

record number_parts =
  np_neg :: bool
  np_int :: jsstr
  np_frac :: "jsstr option"
  np_exp :: "(bool \<times> jsstr) option"

definition scan_int :: "jsstr \<Rightarrow> (bool \<times> jsstr) \<times> jsstr" where
  "scan_int s = (let s' = without_sign s in ((negative s, takeWhile isDigit s'), dropWhile isDigit s'))"

definition scan_frac :: "jsstr \<Rightarrow> jsstr option \<times> jsstr" where
  "scan_frac s =
     (case s of
        [] \<Rightarrow> (None, s)
      | c # cs \<Rightarrow> if c = 0x2E then (Some (takeWhile isDigit cs), dropWhile isDigit cs) else (None, s))"

definition scan_exp :: "jsstr \<Rightarrow> (bool \<times> jsstr) option \<times> jsstr" where
  "scan_exp s =
     (case s of
        [] \<Rightarrow> (None, s)
      | c # cs \<Rightarrow>
          if c = 0x65 \<or> c = 0x45 then
            let cs' = (case cs of [] \<Rightarrow> [] | d # ds \<Rightarrow> if d = 0x2B \<or> d = 0x2D then ds else cs)
            in (Some (negative cs, takeWhile isDigit cs'), dropWhile isDigit cs')
          else (None, s))"

definition scan_number :: "jsstr \<Rightarrow> number_parts \<times> jsstr" where
  "scan_number s =
     (case scan_int s of ((neg, ip), s1) \<Rightarrow>
      case scan_frac s1 of (fr, s2) \<Rightarrow>
      case scan_exp s2 of (ex, s3) \<Rightarrow>
        (\<lparr>np_neg = neg, np_int = ip, np_frac = fr, np_exp = ex\<rparr>, s3))"

definition number_ok_parts :: "number_parts \<Rightarrow> bool" where
  "number_ok_parts p \<longleftrightarrow>
     np_int p \<noteq> [] \<and> (hd (np_int p) = 0x30 \<longrightarrow> length (np_int p) = 1) \<and>
     np_frac p \<noteq> Some [] \<and> (case np_exp p of None \<Rightarrow> True | Some (_, ds) \<Rightarrow> ds \<noteq> [])"

definition whole_parts :: "number_parts \<Rightarrow> bool" where
  "whole_parts p \<longleftrightarrow> np_frac p = None \<and> np_exp p = None"

definition parts_int :: "number_parts \<Rightarrow> int" where
  "parts_int p = (if np_neg p then - digits_val (np_int p) else digits_val (np_int p))"

text \<open>The number: a safe integer exactly, anything else rounded to a double. Zero keeps its sign.\<close>

definition parts_rat :: "number_parts \<Rightarrow> rat" where
  "parts_rat p =
     (let fr = (case np_frac p of None \<Rightarrow> [] | Some ds \<Rightarrow> ds);
          m = of_int (digits_val (np_int p @ fr)) / 10 ^ length fr;
          q = (case np_exp p of
                 None \<Rightarrow> m
               | Some (neg, ds) \<Rightarrow> if neg then m / 10 ^ nat (digits_val ds) else m * 10 ^ nat (digits_val ds))
      in if np_neg p then - q else q)"

definition parts_number :: "number_parts \<Rightarrow> jsval" where
  "parts_number p =
     (if whole_parts p \<and> \<bar>parts_int p\<bar> \<le> 9007199254740991 \<and> \<not> (np_neg p \<and> parts_int p = 0) then JNum (parts_int p)
      else if np_neg p \<and> parts_rat p = 0 then JDbl 0x8000000000000000
      else num_of_dbl (dbl_of (parts_rat p)))"

text \<open>
  Values, the elements of an array and the members of an object behind their opening bracket. The
  first parameter is how a number becomes a value; the fuel bounds the depth and the number of
  elements (\<open>json_fuel\<close>).
\<close>

definition keyword :: "string \<Rightarrow> jsval \<Rightarrow> jsstr \<Rightarrow> (jsval \<times> jsstr) option" where
  "keyword w v s = (if take (length w) s = js w then Some (v, drop (length w) s) else None)"

definition json_keyword :: "jsstr \<Rightarrow> (jsval \<times> jsstr) option" where
  "json_keyword s =
     (case keyword ''true'' (JBool True) s of
        Some r \<Rightarrow> Some r
      | None \<Rightarrow>
          (case keyword ''false'' (JBool False) s of
             Some r \<Rightarrow> Some r
           | None \<Rightarrow> keyword ''null'' JNull s))"

definition json_number :: "(number_parts \<Rightarrow> jsval) \<Rightarrow> jsstr \<Rightarrow> (jsval \<times> jsstr) option" where
  "json_number num s =
     (case scan_number s of (p, rest) \<Rightarrow> if number_ok_parts p then Some (num p, rest) else None)"

text \<open>The closing bracket, or a comma and more.\<close>

definition json_more :: "16 word \<Rightarrow> jsstr \<Rightarrow> (jsstr \<Rightarrow> ('a list \<times> jsstr) option) \<Rightarrow> ('a list \<times> jsstr) option" where
  "json_more close s k =
     (case skip_space s of
        [] \<Rightarrow> None
      | c # cs \<Rightarrow> if c = close then Some ([], cs) else if c = 0x2C then k cs else None)"

definition json_object :: "jsobj \<Rightarrow> jsobj" where
  "json_object kvs = fold (\<lambda>(k, v) ob. obj_put ob k v) kvs []"

definition json_open :: "16 word \<Rightarrow> jsstr \<Rightarrow> (jsstr \<Rightarrow> ('a list \<times> jsstr) option) \<Rightarrow> ('a list \<times> jsstr) option" where
  "json_open close s k =
     (case skip_space s of [] \<Rightarrow> None | c # cs \<Rightarrow> if c = close then Some ([], cs) else k s)"

definition json_key :: "jsstr \<Rightarrow> (jsstr \<times> jsstr) option" where
  "json_key s =
     (case skip_space s of
        [] \<Rightarrow> None
      | c # cs \<Rightarrow>
          if c = 0x22 then
            (case json_string cs of
               None \<Rightarrow> None
             | Some (key, r) \<Rightarrow>
                 (case skip_space r of [] \<Rightarrow> None | d # ds \<Rightarrow> if d = 0x3A then Some (key, ds) else None))
          else None)"

fun json_value :: "(number_parts \<Rightarrow> jsval) \<Rightarrow> nat \<Rightarrow> jsstr \<Rightarrow> (jsval \<times> jsstr) option"
and json_elements :: "(number_parts \<Rightarrow> jsval) \<Rightarrow> nat \<Rightarrow> jsstr \<Rightarrow> (jsval list \<times> jsstr) option"
and json_members :: "(number_parts \<Rightarrow> jsval) \<Rightarrow> nat \<Rightarrow> jsstr \<Rightarrow> (jsobj \<times> jsstr) option" where
  "json_value num 0 s = None"
| "json_elements num 0 s = None"
| "json_members num 0 s = None"
| "json_value num (Suc n) s =
     (case skip_space s of
        [] \<Rightarrow> None
      | c # cs \<Rightarrow>
          if c = 0x22 then map_option (map_prod JStr id) (json_string cs)
          else if c = 0x5B then map_option (map_prod JArr id) (json_open 0x5D cs (json_elements num n))
          else if c = 0x7B then map_option (map_prod (\<lambda>kvs. JObj (json_object kvs)) id) (json_open 0x7D cs (json_members num n))
          else if c = 0x2D \<or> isDigit c then json_number num (c # cs)
          else json_keyword (c # cs))"
| "json_elements num (Suc n) s =
     (case json_value num n s of
        None \<Rightarrow> None
      | Some (v, r) \<Rightarrow> map_option (map_prod ((#) v) id) (json_more 0x5D r (json_elements num n)))"
| "json_members num (Suc n) s =
     (case json_key s of
        None \<Rightarrow> None
      | Some (key, r) \<Rightarrow>
          (case json_value num n r of
             None \<Rightarrow> None
           | Some (v, r') \<Rightarrow> map_option (map_prod ((#) (key, v)) id) (json_more 0x7D r' (json_members num n))))"

definition json_text :: "(number_parts \<Rightarrow> jsval) \<Rightarrow> jsstr \<Rightarrow> jsval option" where
  "json_text num s =
     (case json_value num (2 * length s + 2) s of
        None \<Rightarrow> None
      | Some (v, rest) \<Rightarrow> if skip_space rest = [] then Some v else None)"

subsection \<open>\<open>parseJson\<close>\<close>

text \<open>The match of \<open>SENTINEL_RE\<close>: the integer between the sentinels.\<close>

definition sentinel_match :: "jsstr \<Rightarrow> int option" where
  "sentinel_match s =
     (case s of
        [] \<Rightarrow> None
      | c # r \<Rightarrow>
          if c = SENTINEL \<and> r \<noteq> [] \<and> last r = SENTINEL \<and> int_token (butlast r) then Some (token_int (butlast r))
          else None)"

fun reviver :: "jsval \<Rightarrow> jsval" where
  "reviver (JStr s) = (case sentinel_match s of None \<Rightarrow> JStr s | Some n \<Rightarrow> JBig n)"
| "reviver v = v"

text \<open>\<open>JSON.parse\<close> applies the reviver from the leaves up.\<close>

fun revive :: "(jsval \<Rightarrow> jsval) \<Rightarrow> jsval \<Rightarrow> jsval" where
  "revive f (JArr vs) = f (JArr (map (revive f) vs))"
| "revive f (JObj kvs) = f (JObj (map (\<lambda>kv. (fst kv, revive f (snd kv))) kvs))"
| "revive f v = f v"

text \<open>\<open>None\<close>: the text is no JSON, \<open>JSON.parse\<close> throws.\<close>

definition parseJson :: "jsstr \<Rightarrow> jsval option" where
  "parseJson text = map_option (revive reviver) (json_text parts_number (quoteUnsafeIntegers text))"

end
