(* ===== verification/Account.thy ===== *)
theory Account
  imports Json Bin
begin

section \<open>The account service over HTTP\<close>

text \<open>
  \<open>account.ts\<close>: the client of the account service, which tries its hosts in turn. \<open>fetch\<close> and the text of its
  response are the environment: the outcome of the \<open>i\<close>-th attempt of a call is \<open>outs i\<close>. A call answers with its
  result, the HTTP requests it made in order, and the client with its cursor moved. A
  promise that rejects is \<open>None\<close>; \<open>null\<close> is \<open>JNull\<close>.
\<close>

subsection \<open>Text that goes out\<close>

text \<open>\<open>JSON.stringify\<close> of a string: quotes, backslashes, control characters and lone surrogates are escaped.\<close>

definition hex_lower :: "int \<Rightarrow> 16 word" where
  "hex_lower n = of_int (if n < 10 then 0x30 + n else 0x57 + n)"

definition u_escape :: "16 word \<Rightarrow> jsstr" where
  "u_escape c = (let n = uint c in
     [0x5C, 0x75, hex_lower (n div 0x1000), hex_lower (n div 0x100 mod 16), hex_lower (n div 16 mod 16), hex_lower (n mod 16)])"

definition json_char :: "16 word \<Rightarrow> jsstr" where
  "json_char c =
     (if c = 0x22 \<or> c = 0x5C then [0x5C, c]
      else if c = 0x08 then [0x5C, 0x62]
      else if c = 0x0C then [0x5C, 0x66]
      else if c = 0x0A then [0x5C, 0x6E]
      else if c = 0x0D then [0x5C, 0x72]
      else if c = 0x09 then [0x5C, 0x74]
      else if c < 0x20 then u_escape c
      else [c])"

fun json_chars :: "jsstr \<Rightarrow> jsstr" where
  "json_chars [] = []"
| "json_chars [c] = (if high_surrogate c \<or> low_surrogate c then u_escape c else json_char c)"
| "json_chars (c # d # s) =
     (if high_surrogate c \<and> low_surrogate d then c # d # json_chars s
      else (if high_surrogate c \<or> low_surrogate c then u_escape c else json_char c) @ json_chars (d # s))"

definition stringify_string :: "jsstr \<Rightarrow> jsstr" where
  "stringify_string s = [0x22] @ json_chars s @ [0x22]"

text \<open>\<open>JSON.stringify\<close> of an object whose properties are strings, as the bodies here are.\<close>

fun stringify_members :: "(jsstr \<times> jsstr) list \<Rightarrow> jsstr" where
  "stringify_members [] = []"
| "stringify_members [(k, v)] = stringify_string k @ [0x3A] @ stringify_string v"
| "stringify_members ((k, v) # m # ms) = stringify_string k @ [0x3A] @ stringify_string v @ [0x2C] @ stringify_members (m # ms)"

definition stringify :: "(jsstr \<times> jsstr) list \<Rightarrow> jsstr" where
  "stringify body = [0x7B] @ stringify_members body @ [0x7D]"

text \<open>\<open>encodeURIComponent\<close>; it throws on a lone surrogate.\<close>

definition uri_unreserved :: "int \<Rightarrow> bool" where
  "uri_unreserved n \<longleftrightarrow>
     (0x41 \<le> n \<and> n \<le> 0x5A) \<or> (0x61 \<le> n \<and> n \<le> 0x7A) \<or> (0x30 \<le> n \<and> n \<le> 0x39) \<or>
     n \<in> {0x2D, 0x5F, 0x2E, 0x21, 0x7E, 0x2A, 0x27, 0x28, 0x29}"

definition hex_upper :: "int \<Rightarrow> 16 word" where
  "hex_upper n = of_int (if n < 10 then 0x30 + n else 0x37 + n)"

definition uri_byte :: "byte \<Rightarrow> jsstr" where
  "uri_byte b = [0x25, hex_upper (uint b div 16), hex_upper (uint b mod 16)]"

definition uri_char :: "int \<Rightarrow> jsstr" where
  "uri_char n = (if uri_unreserved n then [of_int n] else concat (map uri_byte (utf8_bytes n)))"

definition encodeURIComponent :: "jsstr \<Rightarrow> jsstr option" where
  "encodeURIComponent s = (if well_formed s then Some (concat (map uri_char (scalars s))) else None)"

subsection \<open>The client\<close>

record account_client =
  ac_hosts :: "jsstr list"
  ac_cursor :: nat

text \<open>The constructor; \<open>random\<close> is the value of \<open>Math.random()\<close>.\<close>

definition new_account :: "jsstr list \<Rightarrow> rat \<Rightarrow> account_client option" where
  "new_account hosts random =
     (if hosts = [] then None
      else Some \<lparr>ac_hosts = hosts, ac_cursor = nat \<lfloor>random * of_nat (length hosts)\<rfloor>\<rparr>)"

text \<open>What \<open>fetch\<close> and \<open>resp.text()\<close> come to: a rejection, or a status with a text (or its rejection).\<close>

datatype fetch_outcome = Fetch_rejects | Responds int "jsstr option"

record http_request =
  rq_method :: jsstr
  rq_url :: jsstr
  rq_headers :: "(jsstr \<times> jsstr) list"
  rq_body :: "jsstr option"

text \<open>A text that is no JSON is handed to the caller as it is.\<close>

definition response_value :: "jsstr \<Rightarrow> jsval" where
  "response_value t = (case parseJson t of Some v \<Rightarrow> v | None \<Rightarrow> JStr t)"

definition usable :: "fetch_outcome \<Rightarrow> jsval option" where
  "usable r = (case r of Responds status (Some t) \<Rightarrow> if status = 200 then Some (response_value t) else None | _ \<Rightarrow> None)"

definition request_headers :: "jsstr option \<Rightarrow> (jsstr \<times> jsstr) list option \<Rightarrow> (jsstr \<times> jsstr) list" where
  "request_headers token body =
     (case token of None \<Rightarrow> [] | Some t \<Rightarrow> if t = [] then [] else [(js ''authorization'', js ''Bearer '' @ t)]) @
     (case body of None \<Rightarrow> [] | Some _ \<Rightarrow> [(js ''content-type'', js ''application/json'')])"

definition http_of :: "jsstr \<Rightarrow> jsstr \<Rightarrow> jsstr option \<Rightarrow> (jsstr \<times> jsstr) list option \<Rightarrow> jsstr \<Rightarrow> http_request" where
  "http_of verb path token body host =
     \<lparr>rq_method = verb, rq_url = host @ path, rq_headers = request_headers token body, rq_body = map_option stringify body\<rparr>"

text \<open>The loop over the hosts, from attempt \<open>i\<close> on.\<close>

function request_loop :: "(nat \<Rightarrow> fetch_outcome) \<Rightarrow> (jsstr \<Rightarrow> http_request) \<Rightarrow> jsstr list \<Rightarrow> nat \<Rightarrow> nat \<Rightarrow> jsval \<times> http_request list" where
  "request_loop outs http hosts start i =
     (if i < length hosts then
        let rq = http (hosts ! ((start + i) mod length hosts)) in
        case usable (outs i) of
          Some v \<Rightarrow> (v, [rq])
        | None \<Rightarrow> (case request_loop outs http hosts start (i + 1) of (v, rqs) \<Rightarrow> (v, rq # rqs))
      else (JNull, []))"
  by pat_completeness auto
termination by (relation "measure (\<lambda>(outs, http, hosts, start, i). length hosts - i)") auto

declare request_loop.simps [simp del]

definition account_request ::
  "(nat \<Rightarrow> fetch_outcome) \<Rightarrow> jsstr \<Rightarrow> jsstr \<Rightarrow> jsstr option \<Rightarrow> (jsstr \<times> jsstr) list option \<Rightarrow> account_client \<Rightarrow>
    jsval \<times> http_request list \<times> account_client" where
  "account_request outs verb path token body ac =
     (let n = length (ac_hosts ac); start = ac_cursor ac; ac' = ac\<lparr>ac_cursor := (ac_cursor ac + 1) mod n\<rparr> in
      case request_loop outs (http_of verb path token body) (ac_hosts ac) start 0 of (v, rqs) \<Rightarrow> (v, rqs, ac'))"

subsection \<open>The calls\<close>

text \<open>\<open>!res || res.code !== ErrCode.OK\<close>, with \<open>-0 === 0\<close>.\<close>

definition answered :: "jsval \<Rightarrow> bool" where
  "answered res \<longleftrightarrow> truthy res \<and> (prop_of res (js ''code'') = JNum 0 \<or> prop_of res (js ''code'') = JDbl 0x8000000000000000)"

text \<open>An array, or the empty object an empty Lua table becomes; \<open>None\<close> is \<open>null\<close>.\<close>

definition asArray :: "jsval \<Rightarrow> jsval list option" where
  "asArray v =
     (case v of JArr vs \<Rightarrow> Some vs | JObj kvs \<Rightarrow> if kvs = [] then Some [] else None | _ \<Rightarrow> None)"

definition list_call ::
  "(nat \<Rightarrow> fetch_outcome) \<Rightarrow> jsstr \<Rightarrow> jsstr option \<Rightarrow> string \<Rightarrow> account_client \<Rightarrow>
    jsval list option \<times> http_request list \<times> account_client" where
  "list_call outs path token field ac =
     (case account_request outs (js ''GET'') path token None ac of
        (res, rqs, ac') \<Rightarrow> (if answered res then asArray (prop_of res (js field)) else None, rqs, ac'))"

definition item_call ::
  "(nat \<Rightarrow> fetch_outcome) \<Rightarrow> jsstr \<Rightarrow> jsstr option \<Rightarrow> (jsstr \<times> jsstr) list \<Rightarrow> string \<Rightarrow> account_client \<Rightarrow>
    jsval \<times> http_request list \<times> account_client" where
  "item_call outs path token body field ac =
     (case account_request outs (js ''POST'') path token (Some body) ac of
        (res, rqs, ac') \<Rightarrow>
          (let v = prop_of res (js field) in if answered res \<and> truthy v then v else JNull, rqs, ac'))"

definition devLogin :: "(nat \<Rightarrow> fetch_outcome) \<Rightarrow> jsstr \<Rightarrow> account_client \<Rightarrow> jsval \<times> http_request list \<times> account_client" where
  "devLogin outs account ac = item_call outs (js ''/dev_login'') None [(js ''account'', account)] ''token'' ac"

definition servers :: "(nat \<Rightarrow> fetch_outcome) \<Rightarrow> account_client \<Rightarrow> jsval list option \<times> http_request list \<times> account_client" where
  "servers outs ac = list_call outs (js ''/servers'') None ''servers'' ac"

text \<open>The loop over the servers throws on an entry that is \<open>null\<close>: outer \<open>None\<close>. The inner one: no entry is recommended.\<close>

fun find_recommended :: "jsval list \<Rightarrow> jsval option option" where
  "find_recommended [] = Some None"
| "find_recommended (e # es) =
     (if nullish e then None
      else if truthy (prop_of e (js ''recommended'')) then Some (Some (prop_of e (js ''server'')))
      else find_recommended es)"

definition pick_of :: "jsval list \<Rightarrow> jsval option" where
  "pick_of entries =
     (case find_recommended entries of
        None \<Rightarrow> None
      | Some (Some v) \<Rightarrow> Some v
      | Some None \<Rightarrow> Some (case entries of [] \<Rightarrow> JNull | e # _ \<Rightarrow> coalesce (prop_of e (js ''server'')) JNull))"

definition pickRecommendedServer ::
  "(nat \<Rightarrow> fetch_outcome) \<Rightarrow> account_client \<Rightarrow> jsval option \<times> http_request list \<times> account_client" where
  "pickRecommendedServer outs ac =
     (case servers outs ac of (r, rqs, ac') \<Rightarrow> (case r of None \<Rightarrow> Some JNull | Some es \<Rightarrow> pick_of es, rqs, ac'))"

text \<open>\<open>server\<close> is \<open>undefined\<close> or a string; an empty one counts as missing.\<close>

definition roles_path :: "jsstr option \<Rightarrow> jsstr option" where
  "roles_path server =
     (case server of
        None \<Rightarrow> Some (js ''/roles'')
      | Some s \<Rightarrow> if s = [] then Some (js ''/roles'') else map_option (\<lambda>e. js ''/roles?server='' @ e) (encodeURIComponent s))"

definition roles ::
  "(nat \<Rightarrow> fetch_outcome) \<Rightarrow> jsstr \<Rightarrow> jsstr option \<Rightarrow> account_client \<Rightarrow>
    jsval list option option \<times> http_request list \<times> account_client" where
  "roles outs token server ac =
     (case roles_path server of
        None \<Rightarrow> (None, [], ac)
      | Some path \<Rightarrow> (case list_call outs path (Some token) ''roles'' ac of (r, rqs, ac') \<Rightarrow> (Some r, rqs, ac')))"

definition createRole ::
  "(nat \<Rightarrow> fetch_outcome) \<Rightarrow> jsstr \<Rightarrow> jsstr \<Rightarrow> jsstr \<Rightarrow> account_client \<Rightarrow> jsval \<times> http_request list \<times> account_client" where
  "createRole outs token server name ac =
     item_call outs (js ''/create_role'') (Some token) [(js ''server'', server), (js ''name'', name)] ''role'' ac"

text \<open>\<open>ensureRole\<close>: the outcomes of its two calls. Its own \<open>roles(token)\<close> has no server, so it does not throw.\<close>

definition ensureRole ::
  "(nat \<Rightarrow> fetch_outcome) \<Rightarrow> (nat \<Rightarrow> fetch_outcome) \<Rightarrow> jsstr \<Rightarrow> jsstr \<Rightarrow> jsstr \<Rightarrow> account_client \<Rightarrow>
    jsval option \<times> http_request list \<times> account_client" where
  "ensureRole outs outs' token name server ac =
     (case roles outs token None ac of
        (None, rqs, ac1) \<Rightarrow> (None, rqs, ac1)
      | (Some None, rqs, ac1) \<Rightarrow> (Some JNull, rqs, ac1)
      | (Some (Some rs), rqs, ac1) \<Rightarrow>
          if rs \<noteq> [] \<and> truthy (hd rs) then (Some (hd rs), rqs, ac1)
          else (case createRole outs' token server name ac1 of (v, rqs', ac2) \<Rightarrow> (Some v, rqs @ rqs', ac2)))"

definition gates :: "(nat \<Rightarrow> fetch_outcome) \<Rightarrow> account_client \<Rightarrow> jsval list option \<times> http_request list \<times> account_client" where
  "gates outs ac = list_call outs (js ''/gates'') None ''gates'' ac"

end
