(* ===== verification/Json_Correct.thy ===== *)
theory Json_Correct
  imports Json
begin

section \<open>JSON with exact integers: correctness\<close>

text \<open>
  The scanner of \<open>quoteUnsafeIntegers\<close> on the rest of the text instead of an index (\<open>quote\<close>),
  what it does to strings, numbers and punctuation, and the simulation: where a parser
  with exact integers reads a value, \<open>JSON.parse\<close> reads one from the quoted text that the
  reviver turns into the same value.
\<close>

subsection \<open>The scanner on lists\<close>

fun copy_lit :: "jsstr \<Rightarrow> jsstr \<times> jsstr" where
  "copy_lit [] = ([], [])"
| "copy_lit (c # cs) =
     (if c = 0x5C then
        (case cs of [] \<Rightarrow> ([c], []) | d # ds \<Rightarrow> (case copy_lit ds of (l, r) \<Rightarrow> (c # d # l, r)))
      else if c = 0x22 then ([c], cs)
      else (case copy_lit cs of (l, r) \<Rightarrow> (c # l, r)))"

lemma copy_lit_append: "copy_lit s = (l, r) \<Longrightarrow> s = l @ r"
  by (induction s arbitrary: l r rule: copy_lit.induct) (auto split: if_splits list.splits prod.splits)

lemma skip_digits_drop: "drop (skip_digits t i) t = dropWhile isDigit (drop i t)"
proof (induction t i rule: skip_digits.induct)
  case (1 t i)
  show ?case
  proof (cases "i < length t")
    case True
    then show ?thesis using 1 by (subst skip_digits.simps) (simp flip: Cons_nth_drop_Suc)
  qed (subst skip_digits.simps, simp)
qed

lemma skip_digits_bound: "i \<le> length t \<Longrightarrow> skip_digits t i \<le> length t"
  by (induction t i rule: skip_digits.induct) (subst skip_digits.simps, simp)

lemma nth_drop_hd: "i < length t \<Longrightarrow> drop i t = t ! i # drop (i + 1) t"
  by (simp add: Cons_nth_drop_Suc)

lemma frac_end_drop:
  "frac_end t i = (e, fl) \<Longrightarrow> scan_frac (drop i t) = (fr, r) \<Longrightarrow> drop e t = r \<and> fl = (fr \<noteq> None)"
  by (cases "i < length t")
    (auto simp: frac_end_def scan_frac_def nth_drop_hd skip_digits_drop split: if_splits)

lemma exp_end_drop:
  assumes "exp_end t i fl = (e, fl')" "scan_exp (drop i t) = (ex, r)"
  shows "drop e t = r \<and> fl' = (fl \<or> ex \<noteq> None)"
proof (cases "i < length t \<and> (t ! i = 0x65 \<or> t ! i = 0x45)")
  case True
  then show ?thesis using assms skip_digits_le [of "Suc i" t]
    by (cases "i + 1 < length t")
      (auto simp: exp_end_def scan_exp_def nth_drop_hd skip_digits_drop Let_def split: if_splits)
next
  case False
  then show ?thesis using assms
    by (cases "i < length t") (auto simp: exp_end_def scan_exp_def nth_drop_hd split: if_splits)
qed

lemma copy_string_list:
  "copy_lit (drop i t) = (l, r) \<Longrightarrow> copy_string t i out = (i + length l, out @ l)"
proof (induction t i out arbitrary: l rule: copy_string.induct)
  case (1 t i out)
  show ?case
  proof (cases "i < length t")
    case True
    have d: "drop i t = t ! i # drop (Suc i) t" using True by (simp add: Cons_nth_drop_Suc)
    show ?thesis
    proof (cases "t ! i = 0x5C")
      case bs: True
      show ?thesis
      proof (cases "Suc i < length t")
        case True
        then have "drop (Suc i) t = t ! Suc i # drop (Suc (Suc i)) t" by (simp add: Cons_nth_drop_Suc)
        with d bs "1.prems" obtain l' where l: "l = t ! i # t ! Suc i # l'" "copy_lit (drop (Suc (Suc i)) t) = (l', r)"
          by (auto split: prod.splits)
        then show ?thesis using "1.IH"(1) [OF \<open>i < length t\<close>, of _ _ "Suc i" l'] bs True \<open>i < length t\<close>
          by (subst copy_string.simps) simp
      next
        case False
        then have "copy_string t (Suc i) x = (Suc i, x)" for x by (simp add: copy_string.simps [of t "Suc i"])
        then show ?thesis using d bs "1.prems" False \<open>i < length t\<close> by (subst copy_string.simps) auto
      qed
    next
      case nb: False
      show ?thesis
      proof (cases "t ! i = 0x22")
        case False
        with d nb "1.prems" obtain l' where l: "l = t ! i # l'" "copy_lit (drop (Suc i) t) = (l', r)"
          by (auto split: prod.splits)
        then show ?thesis using "1.IH"(3) [OF \<open>i < length t\<close>, of _ _ "Suc i" l'] nb False \<open>i < length t\<close>
          by (subst copy_string.simps) simp
      qed (use d nb "1.prems" True in \<open>subst copy_string.simps, auto\<close>)
    qed
  next
    case False
    then show ?thesis using "1.prems" by (simp add: copy_string.simps [of t i])
  qed
qed

definition token_of :: "jsstr \<Rightarrow> jsstr" where
  "token_of s = take (length s - length (snd (scan_number s))) s"

lemma number_end_drop:
  assumes "number_end t i = (e, fl)" "scan_number (drop i t) = (p, r)" "i < length t"
  shows "drop e t = r \<and> fl = (\<not> whole_parts p)"
proof -
  have "drop (skip_digits t (if t ! i = 0x2D then i + 1 else i)) t = snd (scan_int (drop i t))"
    using assms(3) by (auto simp: scan_int_def without_sign_def nth_drop_hd skip_digits_drop Let_def)
  then show ?thesis using assms(1,2)
    by (auto simp: number_end_def scan_number_def whole_parts_def Let_def split: prod.splits
      dest!: frac_end_drop exp_end_drop)
qed

lemma dropWhile_tail: "\<exists>n. dropWhile P s = drop n s"
  by (metis dropWhile_eq_drop)

lemma without_sign_tail: "\<exists>n. without_sign t = drop n t"
  by (cases t) (auto simp: without_sign_def intro: exI [of _ 0] exI [of _ 1])

lemma scan_int_tail: "\<exists>n. snd (scan_int t) = drop n t"
  using without_sign_tail [of t] dropWhile_tail [of isDigit "without_sign t"] by (auto simp: scan_int_def Let_def)

lemma scan_frac_tail: "\<exists>n. snd (scan_frac t) = drop n t"
  using dropWhile_tail [of isDigit "tl t"]
  by (cases t) (auto simp: scan_frac_def intro: exI [of _ 0] exI [of _ "Suc _"])

lemma scan_exp_tail: "\<exists>n. snd (scan_exp t) = drop n t"
proof (cases t)
  case (Cons c cs)
  then show ?thesis using dropWhile_tail [of isDigit cs] dropWhile_tail [of isDigit "tl cs"]
    by (cases cs) (auto simp: scan_exp_def Let_def intro: exI [of _ 0] exI [of _ "Suc _"] exI [of _ "Suc (Suc _)"])
qed (simp add: scan_exp_def)

lemma scan_number_tail: "\<exists>n. snd (scan_number t) = drop n (snd (scan_int t))"
proof -
  obtain n where n: "snd (scan_frac (snd (scan_int t))) = drop n (snd (scan_int t))" using scan_frac_tail by blast
  obtain m where "snd (scan_exp (drop n (snd (scan_int t)))) = drop m (drop n (snd (scan_int t)))" using scan_exp_tail by blast
  with n have "snd (scan_number t) = drop (m + n) (snd (scan_int t))"
    by (auto simp: scan_number_def split: prod.split)
  then show ?thesis by blast
qed

lemma scan_number_suffix: "scan_number s = (p, r) \<Longrightarrow> s = token_of s @ r"
proof -
  assume a: "scan_number s = (p, r)"
  then obtain n where "r = drop n s"
    using scan_number_tail [of s] scan_int_tail [of s] by auto
  then show ?thesis using a by (cases "n \<le> length s") (simp_all add: token_of_def)
qed

lemma token_of_pos:
  assumes "c = 0x2D \<or> isDigit c"
  shows "token_of (c # cs) \<noteq> []"
proof -
  have "length (snd (scan_number (c # cs))) \<le> length (snd (scan_int (c # cs)))"
    using scan_number_tail [of "c # cs"] by auto
  also have "\<dots> < length (c # cs)"
    using assms length_dropWhile_le [of isDigit cs] by (auto simp: scan_int_def without_sign_def Let_def le_imp_less_Suc)
  finally show ?thesis by (simp add: token_of_def)
qed

lemma scan_number_shorter:
  assumes "c = 0x2D \<or> isDigit c" and "scan_number (c # cs) = (p, r)"
  shows "length r < length (c # cs)"
proof -
  have "length (c # cs) = length (token_of (c # cs)) + length r" using scan_number_suffix [OF assms(2)] by (metis length_append)
  then show ?thesis using token_of_pos [OF assms(1), of cs] by (cases "token_of (c # cs)") auto
qed

definition quoted :: "number_parts \<Rightarrow> jsstr \<Rightarrow> jsstr" where
  "quoted p tok = (if whole_parts p \<and> \<not> safe_token tok then [0x22, SENTINEL] @ tok @ [SENTINEL, 0x22] else tok)"

function quote :: "jsstr \<Rightarrow> jsstr" where
  "quote [] = []"
| "quote (c # cs) =
     (if c = 0x22 then (case copy_lit cs of (l, r) \<Rightarrow> c # l @ quote r)
      else if c = 0x2D \<or> isDigit c then (case scan_number (c # cs) of (p, r) \<Rightarrow> quoted p (token_of (c # cs)) @ quote r)
      else c # quote cs)"
  by pat_completeness auto
termination
proof (relation "measure length", goal_cases)
  case (2 c cs l r)
  then show ?case using copy_lit_append [of cs l r] by simp
next
  case (3 c cs p r)
  then show ?case using scan_number_shorter [of c cs p r] by simp
qed simp_all

lemma quote_loop_list: "quote_loop t i out = out @ quote (drop i t)"
proof (induction t i out rule: quote_loop.induct)
  case (1 t i out)
  show ?case
  proof (cases "i < length t")
    case True
    have d: "drop i t = t ! i # drop (i + 1) t" by (rule nth_drop_hd [OF True])
    consider "t ! i = 0x22" | "t ! i \<noteq> 0x22" "t ! i = 0x2D \<or> isDigit (t ! i)"
      | "t ! i \<noteq> 0x22" "\<not> (t ! i = 0x2D \<or> isDigit (t ! i))" by blast
    then show ?thesis
    proof cases
      case a: 1
      obtain l r where l: "copy_lit (drop (i + 1) t) = (l, r)" by fastforce
      have "drop (i + 1 + length l) t = r" using copy_lit_append [OF l] by (metis append_eq_conv_conj drop_drop add.commute)
      then show ?thesis using "1.IH"(1) [OF True refl a, of "i + 1 + length l" "out @ [t ! i] @ l"]
          copy_string_list [OF l, of "out @ [t ! i]"] l a True d
        by (subst quote_loop.simps) simp
    next
      case a: 2
      obtain e fl where e: "number_end t i = (e, fl)" by fastforce
      obtain p r where p: "scan_number (drop i t) = (p, r)" by fastforce
      have r: "drop e t = r" "fl = (\<not> whole_parts p)" using number_end_drop [OF e p True] by auto
      have tok: "take (e - i) (drop i t) = token_of (drop i t)"
      proof -
        have "i < e" using number_end_less [OF a(2) True] e by simp
        then have "length (drop i t) - length r = min (e - i) (length t - i)" using r(1) True by auto
        then show ?thesis using p by (simp add: token_of_def min_def)
      qed
      have "quote (drop i t) = quoted p (token_of (drop i t)) @ quote r" using a p unfolding d by simp
      moreover have "quote_loop t i out = quote_loop t e (out @ quoted p (token_of (drop i t)))"
        using a True e r(2) by (subst quote_loop.simps) (simp add: tok Let_def quoted_def)
      ultimately show ?thesis
        using "1.IH"(2) [OF True refl a e [symmetric] refl] by (simp only: tok r quoted_def not_not append_assoc)
    next
      case a: 3
      then show ?thesis using "1.IH"(3) [OF True refl a(1)] True d by (subst quote_loop.simps) simp
    qed
  qed (simp add: quote_loop.simps)
qed

lemma quoteUnsafeIntegers_list: "quoteUnsafeIntegers t = quote t"
  by (simp add: quoteUnsafeIntegers_def quote_loop_list)

lemma length_quote: "length s \<le> length (quote s)"
proof (induction s rule: quote.induct)
  case (2 c cs)
  obtain l r where l: "copy_lit cs = (l, r)" by fastforce
  obtain p t where p: "scan_number (c # cs) = (p, t)" by fastforce
  have "length cs = length l + length r" using copy_lit_append [OF l] by simp
  moreover have "length (c # cs) = length (token_of (c # cs)) + length t" using scan_number_suffix [OF p] by (metis length_append)
  ultimately show ?case using "2.IH"(1) [OF _ l [symmetric]] "2.IH"(2) [OF _ _ p [symmetric]] "2.IH"(3) l p
    by (auto simp: quoted_def)
qed simp

subsection \<open>Strings\<close>

definition plain :: "16 word \<Rightarrow> bool" where
  "plain c \<longleftrightarrow> c \<noteq> 0x22 \<and> c \<noteq> 0x2D \<and> \<not> isDigit c"

lemma quote_plain [simp]: "plain c \<Longrightarrow> quote (c # cs) = c # quote cs"
  by (simp add: plain_def)

lemma quote_plain_append: "list_all plain xs \<Longrightarrow> quote (xs @ ys) = xs @ quote ys"
  by (induction xs) (simp_all del: quote.simps)

lemma hex_val_bounds: "hex_val c = Some n \<Longrightarrow> c \<noteq> 0x22 \<and> c \<noteq> 0x5C"
  by (auto simp: hex_val_def isDigit_def split: if_splits)

lemma hex4_bounds:
  "hex4 a b c d = Some u \<Longrightarrow> a \<noteq> 0x22 \<and> a \<noteq> 0x5C \<and> b \<noteq> 0x22 \<and> b \<noteq> 0x5C \<and> c \<noteq> 0x22 \<and> c \<noteq> 0x5C \<and> d \<noteq> 0x22 \<and> d \<noteq> 0x5C"
  using hex_val_bounds by (auto simp: hex4_def split: option.splits)

lemma more_string_Some [simp]: "more_string u r = Some (str, rest) \<longleftrightarrow> (\<exists>str'. r = Some (str', rest) \<and> str = u # str')"
  by (auto simp: more_string_def)

text \<open>The literal that is copied is the one \<open>JSON.parse\<close> reads, whatever follows it.\<close>

lemma json_string_copy:
  "json_string s = Some (str, rest) \<Longrightarrow>
    \<exists>l. copy_lit s = (l, rest) \<and> s = l @ rest \<and> (\<forall>r. json_string (l @ r) = Some (str, r))"
proof (induction s arbitrary: str rest rule: length_induct)
  case (1 s)
  then obtain c cs where s: "s = c # cs" by (cases s) auto
  consider "c = 0x22" | "c = 0x5C" | "c \<noteq> 0x22" "c \<noteq> 0x5C" by blast
  then show ?case
  proof cases
    case a: 2
    with s "1.prems" obtain e cs' where cs: "cs = e # cs'" by (auto split: list.splits)
    show ?thesis
    proof (cases "e = 0x75")
      case True
      with s a cs "1.prems" obtain h1 h2 h3 h4 cs'' u str' where h: "cs' = h1 # h2 # h3 # h4 # cs''" "hex4 h1 h2 h3 h4 = Some u"
          "json_string cs'' = Some (str', rest)" "str = u # str'"
        by (auto split: list.splits option.splits)
      have "length cs'' < length s" using s cs h(1) by simp
      from "1.IH" [rule_format, OF this h(3)]
      obtain l where "copy_lit cs'' = (l, rest)" "cs'' = l @ rest" "\<forall>r. json_string (l @ r) = Some (str', r)" by blast
      then show ?thesis using s a cs True h hex4_bounds [OF h(2)] by auto
    next
      case False
      with s a cs "1.prems" obtain u str' where h: "json_escape e = Some u" "json_string cs' = Some (str', rest)" "str = u # str'"
        by (auto split: option.splits)
      have "length cs' < length s" using s cs by simp
      from "1.IH" [rule_format, OF this h(2)]
      obtain l where "copy_lit cs' = (l, rest)" "cs' = l @ rest" "\<forall>r. json_string (l @ r) = Some (str', r)" by blast
      then show ?thesis using s a cs False h by auto
    qed
  next
    case a: 3
    with s "1.prems" obtain str' where h: "\<not> c < 0x20" "json_string cs = Some (str', rest)" "str = c # str'"
      by (auto split: if_splits)
    have "length cs < length s" using s by simp
    from "1.IH" [rule_format, OF this h(2)]
    obtain l where "copy_lit cs = (l, rest)" "cs = l @ rest" "\<forall>r. json_string (l @ r) = Some (str', r)" by blast
    then show ?thesis using s a h by auto
  qed (use s "1.prems" in auto)
qed

lemma json_string_quote:
  assumes "json_string cs = Some (str, rest)"
  shows "\<exists>cs'. quote (0x22 # cs) = 0x22 # cs' \<and> json_string cs' = Some (str, quote rest)"
  using json_string_copy [OF assms] by auto

lemma json_string_plain:
  "\<forall>c \<in> set xs. 0x20 \<le> c \<and> c \<noteq> 0x22 \<and> c \<noteq> 0x5C \<Longrightarrow> json_string (xs @ 0x22 # r) = Some (xs, r)"
  by (induction xs) (auto simp: more_string_def)

subsection \<open>Numbers\<close>

text \<open>What may follow a token without becoming part of it: what did, or a quote.\<close>

definition same_head :: "jsstr \<Rightarrow> jsstr \<Rightarrow> bool" where
  "same_head r s \<longleftrightarrow> r = [] \<or> hd r = 0x22 \<or> (s \<noteq> [] \<and> hd r = hd s)"

lemma same_head_append: "same_head r s \<Longrightarrow> same_head (t @ r) (t @ s)"
  by (cases t) (auto simp: same_head_def)

lemma same_head_quote: "same_head (quote s) s"
proof (cases s)
  case (Cons c cs)
  consider "plain c" | "c = 0x22" | "c \<noteq> 0x22" "c = 0x2D \<or> isDigit c" by (auto simp: plain_def)
  then show ?thesis
  proof cases
    case 1
    then show ?thesis using Cons by (simp add: same_head_def del: quote.simps)
  next
    case 3
    obtain p r where p: "scan_number s = (p, r)" by fastforce
    obtain t where "token_of s = c # t"
      using scan_number_suffix [OF p] token_of_pos [OF 3(2), of cs] Cons by (cases "token_of s") auto
    then show ?thesis using p 3 Cons by (auto simp: same_head_def quoted_def)
  qed (auto simp: same_head_def Cons split: prod.split)
qed (simp add: same_head_def)

lemma isDigit_quote [simp]: "\<not> isDigit 0x22" "\<not> isDigit 0x2D" "\<not> isDigit 0x2E" "\<not> isDigit 0x65" "\<not> isDigit 0x45" "\<not> isDigit 0x2B"
  by (simp_all add: isDigit_def)

lemma digits_stop:
  assumes "same_head r (dropWhile isDigit s)"
  shows "takeWhile isDigit (takeWhile isDigit s @ r) = takeWhile isDigit s" "dropWhile isDigit (takeWhile isDigit s @ r) = r"
proof -
  have "r = [] \<or> \<not> isDigit (hd r)" using assms hd_dropWhile isDigit_quote(1) unfolding same_head_def by metis
  moreover have "\<And>x. x \<in> set (takeWhile isDigit s) \<Longrightarrow> isDigit x" by (rule set_takeWhileD [THEN conjunct2])
  ultimately show "takeWhile isDigit (takeWhile isDigit s @ r) = takeWhile isDigit s" "dropWhile isDigit (takeWhile isDigit s @ r) = r"
    by (cases r; simp add: takeWhile_append dropWhile_append)+
qed

lemma scan_int_stop:
  assumes "scan_int s = (x, s1)"
  shows "\<exists>t. s = t @ s1 \<and> (\<forall>r. same_head r s1 \<longrightarrow> scan_int (t @ r) = (x, r))"
proof -
  let ?u = "without_sign s"
  have x: "x = (negative s, takeWhile isDigit ?u)" "s1 = dropWhile isDigit ?u" using assms by (auto simp: scan_int_def Let_def)
  show ?thesis
  proof (cases "negative s")
    case True
    then have "s = 0x2D # ?u" by (cases s) (auto simp: negative_def without_sign_def)
    then have "s = (0x2D # takeWhile isDigit ?u) @ s1" unfolding x by simp
    moreover have "scan_int ((0x2D # takeWhile isDigit ?u) @ r) = (x, r)" if "same_head r s1" for r
      using True digits_stop [OF that [unfolded x]] by (simp add: scan_int_def without_sign_def negative_def x)
    ultimately show ?thesis by blast
  next
    case False
    then have u: "?u = s" by (cases s) (auto simp: negative_def without_sign_def)
    have "scan_int (takeWhile isDigit s @ r) = (x, r)" if "same_head r s1" for r
    proof -
      note st = digits_stop [OF that [unfolded x u]]
      have "hd (takeWhile isDigit s @ r) \<noteq> 0x2D \<or> takeWhile isDigit s @ r = []"
      proof (cases "takeWhile isDigit s")
        case Nil
        then have "s1 = s" by (metis u x(2) append_Nil takeWhile_dropWhile_id)
        then show ?thesis using that False Nil by (auto simp: same_head_def negative_def)
      next
        case (Cons d ds)
        then have "isDigit d" by (metis list.set_intros(1) set_takeWhileD)
        then show ?thesis using Cons by auto
      qed
      then have "without_sign (takeWhile isDigit s @ r) = takeWhile isDigit s @ r" "\<not> negative (takeWhile isDigit s @ r)"
        by (auto simp: without_sign_def negative_def split: list.split)
      then show ?thesis using st False by (simp add: scan_int_def x u)
    qed
    then show ?thesis using u x(2) by (metis takeWhile_dropWhile_id)
  qed
qed

lemma scan_frac_stop:
  assumes "scan_frac s = (x, s1)"
  shows "\<exists>t. s = t @ s1 \<and> (\<forall>r. same_head r s1 \<longrightarrow> scan_frac (t @ r) = (x, r))"
proof (cases "s \<noteq> [] \<and> hd s = 0x2E")
  case True
  then obtain cs where s: "s = 0x2E # cs" by (cases s) auto
  then have x: "x = Some (takeWhile isDigit cs)" "s1 = dropWhile isDigit cs" using assms by (auto simp: scan_frac_def)
  have "scan_frac ((0x2E # takeWhile isDigit cs) @ r) = (x, r)" if "same_head r s1" for r
    using digits_stop [OF that [unfolded x]] by (simp add: scan_frac_def x)
  then show ?thesis using s x by (intro exI [of _ "0x2E # takeWhile isDigit cs"]) simp
next
  case False
  then have "x = None" "s1 = s" using assms by (auto simp: scan_frac_def split: list.splits)
  then show ?thesis using False
    by (intro exI [of _ "[]"]) (auto simp: scan_frac_def same_head_def split: list.split)
qed

lemma scan_exp_stop:
  assumes "scan_exp s = (x, s1)"
  shows "\<exists>t. s = t @ s1 \<and> (\<forall>r. same_head r s1 \<longrightarrow> scan_exp (t @ r) = (x, r))"
proof (cases "s \<noteq> [] \<and> (hd s = 0x65 \<or> hd s = 0x45)")
  case True
  then obtain c cs where s: "s = c # cs" "c = 0x65 \<or> c = 0x45" by (cases s) auto
  show ?thesis
  proof (cases "cs \<noteq> [] \<and> (hd cs = 0x2B \<or> hd cs = 0x2D)")
    case True
    then obtain d ds where cs: "cs = d # ds" "d = 0x2B \<or> d = 0x2D" by (cases cs) auto
    have x: "x = Some (negative cs, takeWhile isDigit ds)" "s1 = dropWhile isDigit ds"
      using assms s cs by (auto simp: scan_exp_def Let_def)
    have "scan_exp ((c # d # takeWhile isDigit ds) @ r) = (x, r)" if "same_head r s1" for r
      using digits_stop [OF that [unfolded x]] s cs by (auto simp: scan_exp_def x negative_def Let_def)
    then show ?thesis using s cs x by (intro exI [of _ "c # d # takeWhile isDigit ds"]) simp
  next
    case False
    then have x: "x = Some (negative cs, takeWhile isDigit cs)" "s1 = dropWhile isDigit cs"
      using assms s by (auto simp: scan_exp_def Let_def split: list.splits)
    have "scan_exp ((c # takeWhile isDigit cs) @ r) = (x, r)" if "same_head r s1" for r
    proof -
      note st = digits_stop [OF that [unfolded x]]
      have "takeWhile isDigit cs @ r = [] \<or> (hd (takeWhile isDigit cs @ r) \<noteq> 0x2B \<and> hd (takeWhile isDigit cs @ r) \<noteq> 0x2D)"
      proof (cases "takeWhile isDigit cs")
        case Nil
        then have "s1 = cs" by (metis x(2) append_Nil takeWhile_dropWhile_id)
        then show ?thesis using that False Nil by (auto simp: same_head_def)
      next
        case (Cons d ds)
        then have "isDigit d" by (metis list.set_intros(1) set_takeWhileD)
        then show ?thesis using Cons by auto
      qed
      then show ?thesis using st s False by (cases "takeWhile isDigit cs @ r") (auto simp: scan_exp_def x negative_def Let_def)
    qed
    then show ?thesis using s x by (intro exI [of _ "c # takeWhile isDigit cs"]) simp
  qed
next
  case False
  then have "x = None" "s1 = s" using assms by (auto simp: scan_exp_def split: list.splits)
  then show ?thesis using False
    by (intro exI [of _ "[]"]) (auto simp: scan_exp_def same_head_def split: list.split)
qed

lemma scan_number_stop:
  assumes "scan_number s = (p, r)" and "same_head r' r"
  shows "scan_number (token_of s @ r') = (p, r')"
proof -
  obtain x s1 y s2 z where c: "scan_int s = (x, s1)" "scan_frac s1 = (y, s2)" "scan_exp s2 = (z, r)"
      "p = \<lparr>np_neg = fst x, np_int = snd x, np_frac = y, np_exp = z\<rparr>"
    using assms(1) by (auto simp: scan_number_def split: prod.splits)
  obtain t where t: "s = t @ s1" "\<And>r. same_head r s1 \<Longrightarrow> scan_int (t @ r) = (x, r)" using scan_int_stop [OF c(1)] by blast
  obtain u where u: "s1 = u @ s2" "\<And>r. same_head r s2 \<Longrightarrow> scan_frac (u @ r) = (y, r)" using scan_frac_stop [OF c(2)] by blast
  obtain v where v: "s2 = v @ r" "\<And>r'. same_head r' r \<Longrightarrow> scan_exp (v @ r') = (z, r')" using scan_exp_stop [OF c(3)] by blast
  have h2: "same_head (v @ r') s2" using assms(2) v(1) by (simp add: same_head_append)
  then have h1: "same_head (u @ v @ r') s1" using u(1) by (simp add: same_head_append)
  have "token_of s = t @ u @ v" using assms(1) t(1) u(1) v(1) by (simp add: token_of_def)
  then show ?thesis using t(2) [OF h1] u(2) [OF h2] v(2) [OF assms(2)] c(4)
    by (cases x) (simp add: scan_number_def)
qed

lemma token_of_whole:
  assumes "scan_number s = (p, r)" and "whole_parts p"
  shows "token_of s = (if np_neg p then [0x2D] else []) @ np_int p"
    and "list_all isDigit (np_int p)"
proof -
  have p: "np_neg p = negative s" "np_int p = takeWhile isDigit (without_sign s)" "r = dropWhile isDigit (without_sign s)"
    using assms by (auto simp: scan_number_def whole_parts_def scan_int_def scan_frac_def scan_exp_def Let_def
      split: prod.splits list.splits if_splits)
  show "list_all isDigit (np_int p)" unfolding p list_all_iff by (metis set_takeWhileD)
  have "s = (if negative s then [0x2D] else []) @ without_sign s"
    by (cases s) (auto simp: negative_def without_sign_def)
  also have "\<dots> = ((if negative s then [0x2D] else []) @ np_int p) @ r" by (simp add: p)
  finally have "s = ((if np_neg p then [0x2D] else []) @ np_int p) @ r" using p(1) by simp
  moreover have "s = token_of s @ r" by (rule scan_number_suffix [OF assms(1)])
  ultimately show "token_of s = (if np_neg p then [0x2D] else []) @ np_int p" by simp
qed

lemma token_of_parts:
  assumes "scan_number s = (p, r)" and "whole_parts p" and "number_ok_parts p"
  shows "int_token (token_of s)" "token_int (token_of s) = parts_int p"
    "\<forall>c \<in> set (token_of s). 0x20 \<le> c \<and> c \<noteq> 0x22 \<and> c \<noteq> 0x5C"
proof -
  note t = token_of_whole [OF assms(1,2)]
  have ne: "np_int p \<noteq> []" using assms(3) by (simp add: number_ok_parts_def)
  then obtain d ds where d: "np_int p = d # ds" "isDigit d" using t(2) by (cases "np_int p") auto
  then have dash: "d \<noteq> 0x2D" by auto
  show "int_token (token_of s)" using t(2) d dash by (simp add: t(1) int_token_def without_sign_def)
  show "token_int (token_of s) = parts_int p" using d dash
    by (simp add: t(1) token_int_def parts_int_def without_sign_def negative_def)
  have dig: "isDigit c \<Longrightarrow> 0x20 \<le> c \<and> c \<noteq> 0x22 \<and> c \<noteq> 0x5C" for c
    unfolding isDigit_def word_le_nat_alt by (auto simp: unat_arith_simps)
  show "\<forall>c \<in> set (token_of s). 0x20 \<le> c \<and> c \<noteq> 0x22 \<and> c \<noteq> 0x5C"
    using t(2) dig by (auto simp: t(1) list_all_iff)
qed

text \<open>Exact numbers: an integer beyond the safe ones is a bigint.\<close>

definition exact_number :: "number_parts \<Rightarrow> jsval" where
  "exact_number p =
     (if whole_parts p \<and> \<bar>parts_int p\<bar> > 9007199254740991 then JBig (parts_int p) else parts_number p)"

text \<open>No string value is what the scanner would have put for an integer.\<close>

fun no_sentinel :: "jsval \<Rightarrow> bool" where
  "no_sentinel (JStr s) = (sentinel_match s = None)"
| "no_sentinel (JArr vs) = (\<forall>v \<in> set vs. no_sentinel v)"
| "no_sentinel (JObj kvs) = (\<forall>kv \<in> set kvs. no_sentinel (snd kv))"
| "no_sentinel v = True"

definition revives :: "jsval \<Rightarrow> jsval \<Rightarrow> bool" where
  "revives v v' \<longleftrightarrow> (no_sentinel v \<longrightarrow> revive reviver v' = v)"

lemma revives_number: "revives (parts_number p) (parts_number p)"
  by (simp add: revives_def parts_number_def num_of_dbl_def)

lemma sentinel_token:
  "int_token tok \<Longrightarrow> sentinel_match (SENTINEL # tok @ [SENTINEL]) = Some (token_int tok)"
  by (simp add: sentinel_match_def)

lemma json_value_string: "json_string cs = Some (str, r) \<Longrightarrow> json_value num (Suc n) (0x22 # cs) = Some (JStr str, r)"
  by (simp add: skip_space_def json_space_def)

lemma number_sim:
  assumes "c = 0x2D \<or> isDigit c" and "json_number exact_number (c # cs) = Some (v, r)"
  shows "\<exists>v'. json_value parts_number (Suc n) (quote (c # cs)) = Some (v', quote r) \<and> revives v v'"
proof -
  obtain p where p: "scan_number (c # cs) = (p, r)" "number_ok_parts p" "v = exact_number p"
    using assms(2) by (auto simp: json_number_def split: prod.splits if_splits)
  have nq: "c \<noteq> 0x22" using assms(1) by auto
  let ?tok = "token_of (c # cs)"
  have q: "quote (c # cs) = quoted p ?tok @ quote r" using assms(1) nq p(1) by simp
  show ?thesis
  proof (cases "whole_parts p \<and> \<not> safe_token ?tok")
    case True
    note t = token_of_parts [OF p(1) conjunct1 [OF True] p(2)]
    have "\<bar>parts_int p\<bar> > 9007199254740991" using True t(1,2) by (simp add: safe_token_def)
    then have v: "v = JBig (token_int ?tok)" using True t(2) p(3) by (simp add: exact_number_def)
    have "json_string ((SENTINEL # ?tok @ [SENTINEL]) @ 0x22 # quote r) = Some (SENTINEL # ?tok @ [SENTINEL], quote r)"
      using t(3) by (intro json_string_plain) (auto simp: SENTINEL_def)
    then have "json_value parts_number (Suc n) (0x22 # (SENTINEL # ?tok @ [SENTINEL]) @ 0x22 # quote r) =
      Some (JStr (SENTINEL # ?tok @ [SENTINEL]), quote r)" by (rule json_value_string)
    moreover have "quote (c # cs) = 0x22 # (SENTINEL # ?tok @ [SENTINEL]) @ 0x22 # quote r"
      unfolding q using True by (simp add: quoted_def)
    ultimately have "json_value parts_number (Suc n) (quote (c # cs)) = Some (JStr (SENTINEL # ?tok @ [SENTINEL]), quote r)"
      by (simp only:)
    then show ?thesis using v sentinel_token [OF t(1)] by (auto simp: revives_def)
  next
    case False
    have "\<not> (whole_parts p \<and> \<bar>parts_int p\<bar> > 9007199254740991)"
      using False token_of_parts(2) [OF p(1) _ p(2)] by (auto simp: safe_token_def)
    then have v: "v = parts_number p" using p(3) by (simp only: exact_number_def if_False)
    obtain t where t: "?tok = c # t" using scan_number_suffix [OF p(1)] token_of_pos [OF assms(1), of cs] by (cases ?tok) auto
    have "scan_number (?tok @ quote r) = (p, quote r)" by (rule scan_number_stop [OF p(1) same_head_quote])
    then have "json_number parts_number (c # t @ quote r) = Some (v, quote r)"
      using p(2) v t by (simp add: json_number_def)
    moreover have "\<not> json_space c" using assms(1) by (auto simp: json_space_def isDigit_def)
    moreover have "c \<noteq> 0x5B" "c \<noteq> 0x7B" using assms(1) by (auto simp: isDigit_def)
    moreover have "quote (c # cs) = c # t @ quote r" unfolding q using False by (auto simp: quoted_def t)
    ultimately have "json_value parts_number (Suc n) (quote (c # cs)) = Some (v, quote r)"
      using assms(1) nq by (simp add: skip_space_def del: quote.simps)
    then show ?thesis using v revives_number by auto
  qed
qed

subsection \<open>The simulation\<close>

lemma space_plain: "json_space c \<Longrightarrow> plain c"
  by (auto simp: json_space_def plain_def isDigit_def)

lemma quote_head:
  assumes "\<not> json_space c"
  shows "\<exists>d ds. quote (c # cs) = d # ds \<and> \<not> json_space d"
proof -
  have "quote (c # cs) \<noteq> []" using length_quote [of "c # cs"] by (metis Suc_n_not_le_n le0 le_trans length_Cons list.size(3) not_less_eq_eq)
  then have "\<not> json_space (hd (quote (c # cs)))"
    using same_head_quote [of "c # cs"] assms by (auto simp: same_head_def json_space_def)
  then show ?thesis using \<open>quote (c # cs) \<noteq> []\<close> by (cases "quote (c # cs)") auto
qed

lemma skip_space_quote: "skip_space (quote s) = quote (skip_space s)"
proof (induction s)
  case (Cons c cs)
  show ?case
  proof (cases "json_space c")
    case True
    then show ?thesis using Cons space_plain [OF True] by (simp add: skip_space_def del: quote.simps)
  next
    case False
    then show ?thesis using quote_head [OF False, of cs] by (auto simp: skip_space_def simp del: quote.simps)
  qed
qed (simp add: skip_space_def)

lemma skip_space_Cons: "skip_space s = c # cs \<Longrightarrow> skip_space (c # cs) = c # cs"
  by (metis dropWhile_idem skip_space_def)

lemma json_value_skip: "json_value num (Suc n) s = json_value num (Suc n) (skip_space s)"
  by (simp add: skip_space_def)

lemma json_more_sim:
  assumes "json_more close s k = Some (vs, r)" and "plain close" and "R [] []"
    and "\<And>cs. k cs = Some (vs, r) \<Longrightarrow> \<exists>vs'. k' (quote cs) = Some (vs', quote r) \<and> R vs vs'"
  shows "\<exists>vs'. json_more close (quote s) k' = Some (vs', quote r) \<and> R vs vs'"
proof -
  obtain c cs where s: "skip_space s = c # cs" using assms(1) by (auto simp: json_more_def split: list.splits)
  have comma: "plain 0x2C" by (simp add: plain_def isDigit_def)
  from s assms show ?thesis using comma
    by (cases "c = close") (auto simp: json_more_def skip_space_quote simp del: quote.simps split: if_splits)
qed

lemma json_open_sim:
  assumes "json_open close s k = Some (vs, r)" and "plain close" and "R [] []"
    and "k s = Some (vs, r) \<Longrightarrow> \<exists>vs'. k' (quote s) = Some (vs', quote r) \<and> R vs vs'"
  shows "\<exists>vs'. json_open close (quote s) k' = Some (vs', quote r) \<and> R vs vs'"
proof -
  obtain c cs where s: "skip_space s = c # cs" using assms(1) by (auto simp: json_open_def split: list.splits)
  show ?thesis
  proof (cases "c = close")
    case True
    then show ?thesis using s assms(1-3) by (auto simp: json_open_def skip_space_quote simp del: quote.simps)
  next
    case False
    have "quote (c # cs) \<noteq> []" "hd (quote (c # cs)) \<noteq> close"
      using same_head_quote [of "c # cs"] length_quote [of "c # cs"] False assms(2)
      by (cases "quote (c # cs)"; auto simp: same_head_def plain_def simp del: quote.simps)+
    then obtain d ds where d: "quote (c # cs) = d # ds" "d \<noteq> close" by (cases "quote (c # cs)") auto
    have "k s = Some (vs, r)" using s False assms(1) by (simp add: json_open_def)
    then show ?thesis using assms(4) s d by (auto simp: json_open_def skip_space_quote simp del: quote.simps)
  qed
qed

lemma json_key_sim:
  assumes "json_key s = Some (key, r)"
  shows "json_key (quote s) = Some (key, quote r)"
proof -
  obtain cs t where s: "skip_space s = 0x22 # cs" "json_string cs = Some (key, t)" "skip_space t = 0x3A # r"
    using assms by (auto simp: json_key_def split: list.splits if_splits option.splits)
  obtain cs' where "quote (0x22 # cs) = 0x22 # cs'" "json_string cs' = Some (key, quote t)"
    using json_string_quote [OF s(2)] by blast
  moreover have "plain 0x3A" by (simp add: plain_def isDigit_def)
  ultimately show ?thesis using s by (simp add: json_key_def skip_space_quote del: quote.simps)
qed

lemma json_keyword_cases:
  assumes "json_keyword s = Some (v, r)"
  shows "(s = js ''true'' @ r \<and> v = JBool True) \<or> (s = js ''false'' @ r \<and> v = JBool False) \<or> (s = js ''null'' @ r \<and> v = JNull)"
proof -
  have "take (length w) s = js w \<Longrightarrow> s = js w @ drop (length w) s" for w by (metis append_take_drop_id)
  from this [of "''true''"] this [of "''false''"] this [of "''null''"] show ?thesis
    using assms by (auto simp: json_keyword_def keyword_def split: if_splits)
qed

lemma json_keyword_words:
  "json_keyword (js ''true'' @ r) = Some (JBool True, r)"
  "json_keyword (js ''false'' @ r) = Some (JBool False, r)"
  "json_keyword (js ''null'' @ r) = Some (JNull, r)"
  by (simp_all add: json_keyword_def keyword_def js_Cons)

lemma json_keyword_sim:
  assumes "json_keyword s = Some (v, r)"
  shows "json_keyword (quote s) = Some (v, quote r) \<and> revives v v"
proof -
  have "list_all plain (js ''true'')" "list_all plain (js ''false'')" "list_all plain (js ''null'')" by code_simp+
  note q = this [THEN quote_plain_append]
  from json_keyword_cases [OF assms] show ?thesis
    by (elim disjE conjE) (simp_all only: q json_keyword_words, simp_all add: revives_def)
qed

lemma map_obj_put:
  "map (\<lambda>kv. (fst kv, f (snd kv))) (obj_put kvs k v) = obj_put (map (\<lambda>kv. (fst kv, f (snd kv))) kvs) k (f v)"
  by (induction kvs) auto

definition same_members :: "jsobj \<Rightarrow> jsobj \<Rightarrow> bool" where
  "same_members = list_all2 (\<lambda>a b. fst a = fst b \<and> revives (snd a) (snd b))"

lemma same_members_put:
  "same_members a b \<Longrightarrow> revives v v' \<Longrightarrow> same_members (obj_put a k v) (obj_put b k v')"
  unfolding same_members_def by (induction rule: list_all2_induct) (auto split: prod.splits)

lemma same_members_object: "same_members a b \<Longrightarrow> same_members (json_object a) (json_object b)"
proof -
  have "list_all2 (\<lambda>a b. fst a = fst b \<and> revives (snd a) (snd b)) a b \<Longrightarrow> same_members x y \<Longrightarrow>
    same_members (fold (\<lambda>(k, v) ob. obj_put ob k v) a x) (fold (\<lambda>(k, v) ob. obj_put ob k v) b y)" for x y
  proof (induction arbitrary: x y rule: list_all2_induct)
    case (Cons e es f fs)
    then have "same_members (obj_put x (fst e) (snd e)) (obj_put y (fst f) (snd f))" by (simp add: same_members_put)
    from Cons.IH [OF this] show ?case by (simp add: case_prod_beta)
  qed simp
  moreover assume "same_members a b"
  ultimately show ?thesis by (simp add: json_object_def same_members_def)
qed

lemma revives_object: "same_members a b \<Longrightarrow> revives (JObj a) (JObj b)"
  unfolding same_members_def revives_def by (induction rule: list_all2_induct) auto

lemma revives_array: "list_all2 revives a b \<Longrightarrow> revives (JArr a) (JArr b)"
  unfolding revives_def by (induction rule: list_all2_induct) auto

lemma json_value_brackets:
  "json_value num (Suc n) (0x5B # cs) = map_option (map_prod JArr id) (json_open 0x5D cs (json_elements num n))"
  "json_value num (Suc n) (0x7B # cs) =
    map_option (map_prod (\<lambda>kvs. JObj (json_object kvs)) id) (json_open 0x7D cs (json_members num n))"
  by (simp_all add: skip_space_def json_space_def)

lemma json_value_keyword:
  assumes "plain c" "\<not> json_space c" "c \<noteq> 0x5B" "c \<noteq> 0x7B"
  shows "json_value num (Suc n) (c # cs) = json_keyword (c # cs)"
  using assms by (simp add: skip_space_def plain_def)

lemma json_sim:
  "json_value exact_number n s = Some (v, r) \<Longrightarrow>
    \<exists>v'. json_value parts_number n (quote s) = Some (v', quote r) \<and> revives v v'"
  "json_elements exact_number n s = Some (vs, r) \<Longrightarrow>
    \<exists>vs'. json_elements parts_number n (quote s) = Some (vs', quote r) \<and> list_all2 revives vs vs'"
  "json_members exact_number n s = Some (kvs, r) \<Longrightarrow>
    \<exists>kvs'. json_members parts_number n (quote s) = Some (kvs', quote r) \<and> same_members kvs kvs'"
proof (induction n arbitrary: s v vs kvs r)
  case (Suc n)
  {
    case 1
    then obtain c cs where s: "skip_space s = c # cs" by (auto split: list.splits)
    have q: "json_value parts_number (Suc n) (quote s) = json_value parts_number (Suc n) (quote (c # cs))"
      using json_value_skip [of parts_number n "quote s"] by (simp only: skip_space_quote s)
    consider "c = 0x22" | "c = 0x5B" | "c = 0x7B" | "c = 0x2D \<or> isDigit c"
      | "plain c" "c \<noteq> 0x22" "c \<noteq> 0x5B" "c \<noteq> 0x7B" "c \<noteq> 0x2D" "\<not> isDigit c"
      by (auto simp: plain_def)
    then show ?case
    proof cases
      case a: 1
      then obtain str where str: "json_string cs = Some (str, r)" "v = JStr str" using 1 s by auto
      then show ?thesis using json_string_quote [OF str(1)] json_value_string by (auto simp: q a revives_def simp del: quote.simps json_value.simps)
    next
      case a: 2
      then obtain vs where vs: "json_open 0x5D cs (json_elements exact_number n) = Some (vs, r)" "v = JArr vs" using 1 s by auto
      have "plain 0x5D" "plain 0x5B" by (simp_all add: plain_def isDigit_def)
      from json_open_sim [where R = "list_all2 revives" and k' = "json_elements parts_number n", OF vs(1) this(1) _ Suc.IH(2)] this
      show ?thesis using vs(2) revives_array by (auto simp: q a json_value_brackets simp del: quote.simps json_value.simps)
    next
      case a: 3
      then obtain kvs where kvs: "json_open 0x7D cs (json_members exact_number n) = Some (kvs, r)" "v = JObj (json_object kvs)" using 1 s by auto
      have "plain 0x7D" "plain 0x7B" by (simp_all add: plain_def isDigit_def)
      from json_open_sim [where R = same_members and k' = "json_members parts_number n", OF kvs(1) this(1) _ Suc.IH(3)] this
      show ?thesis using kvs(2) revives_object same_members_object
        by (auto simp: q a json_value_brackets same_members_def simp del: quote.simps json_value.simps)
    next
      case a: 4
      then have "c \<noteq> 0x22" "c \<noteq> 0x5B" "c \<noteq> 0x7B" by (auto simp: isDigit_def)
      then have "json_number exact_number (c # cs) = Some (v, r)" using 1 s a by simp
      then show ?thesis using number_sim [OF a] by (simp only: q)
    next
      case a: 5
      then have "json_keyword (c # cs) = Some (v, r)" using 1 s by simp
      moreover have "\<not> json_space c" using s by (metis hd_dropWhile list.distinct(1) list.sel(1) skip_space_def)
      ultimately show ?thesis using json_keyword_sim [of "c # cs" v r] a
        by (auto simp: q json_value_keyword simp del: quote.simps json_value.simps)
    qed
  next
    case 2
    then obtain v t ws where e: "json_value exact_number n s = Some (v, t)" "json_more 0x5D t (json_elements exact_number n) = Some (ws, r)" "vs = v # ws"
      by (auto split: option.splits)
    have p: "plain 0x5D" by (simp add: plain_def isDigit_def)
    from Suc.IH(1) [OF e(1)] json_more_sim [where R = "list_all2 revives" and k' = "json_elements parts_number n", OF e(2) p _ Suc.IH(2)] show ?case using e(3) by auto
  next
    case 3
    then obtain key t v u ws where e: "json_key s = Some (key, t)" "json_value exact_number n t = Some (v, u)"
        "json_more 0x7D u (json_members exact_number n) = Some (ws, r)" "kvs = (key, v) # ws"
      by (auto split: option.splits)
    have p: "plain 0x7D" by (simp add: plain_def isDigit_def)
    from json_key_sim [OF e(1)] Suc.IH(1) [OF e(2)] json_more_sim [where R = same_members and k' = "json_members parts_number n", OF e(3) p _ Suc.IH(3)]
    show ?case using e(4) by (auto simp: same_members_def)
  }
qed simp_all

subsection \<open>Fuel\<close>

text \<open>What is read is shorter than the text, so fuel of twice its length and two is never what ends the reading.\<close>

lemma length_skip_space: "length (skip_space s) \<le> length s"
  by (simp add: skip_space_def length_dropWhile_le)

lemma length_json_string: "json_string s = Some (str, r) \<Longrightarrow> length r < length s"
proof -
  assume a: "json_string s = Some (str, r)"
  then obtain l where l: "s = l @ r" "\<forall>t. json_string (l @ t) = Some (str, t)" using json_string_copy by blast
  then have "l \<noteq> []" using a by (metis append_Nil json_string.simps(1) option.distinct(1))
  then show ?thesis using l(1) by simp
qed

lemma length_json_key: "json_key s = Some (key, r) \<Longrightarrow> length r < length s"
  using length_skip_space [of s] length_skip_space length_json_string
  by (auto simp: json_key_def split: list.splits if_splits option.splits)
    (smt (verit) Suc_lessD Suc_less_eq le_less_trans less_le_trans length_Cons)

lemma json_more_cong:
  "(\<And>cs. length cs < length s \<Longrightarrow> k cs = k' cs) \<Longrightarrow> json_more close s k = json_more close s k'"
  using length_skip_space [of s] by (auto simp: json_more_def split: list.split)

lemma json_open_cong: "k s = k' s \<Longrightarrow> json_open close s k = json_open close s k'"
  by (simp add: json_open_def split: list.split)

lemma length_json_more:
  "json_more close s k = Some (vs, r) \<Longrightarrow> (\<And>cs. k cs = Some (vs, r) \<Longrightarrow> length r < length cs) \<Longrightarrow> length r < length s"
  using length_skip_space [of s] by (fastforce simp: json_more_def split: list.splits if_splits)

lemma length_json_open:
  "json_open close s k = Some (vs, r) \<Longrightarrow> (k s = Some (vs, r) \<Longrightarrow> length r < length s) \<Longrightarrow> length r < length s"
  using length_skip_space [of s] by (fastforce simp: json_open_def split: list.splits if_splits)

lemma length_json_keyword: "json_keyword s = Some (v, r) \<Longrightarrow> length r < length s"
  using json_keyword_cases [of s v r] by (auto simp: js_Cons)

lemma length_json:
  "json_value num n s = Some (v, r) \<Longrightarrow> length r < length s"
  "json_elements num n s = Some (vs, r) \<Longrightarrow> length r < length s"
  "json_members num n s = Some (kvs, r) \<Longrightarrow> length r < length s"
proof (induction n arbitrary: s v vs kvs r)
  case (Suc n)
  {
    case 1
    then obtain c cs where s: "skip_space s = c # cs" by (auto split: list.splits)
    have len: "Suc (length cs) \<le> length s" using length_skip_space [of s] s by simp
    consider "c = 0x22" | "c = 0x5B" | "c = 0x7B" | "c \<noteq> 0x22" "c \<noteq> 0x5B" "c \<noteq> 0x7B" "c = 0x2D \<or> isDigit c"
      | "c \<noteq> 0x22" "c \<noteq> 0x5B" "c \<noteq> 0x7B" "\<not> (c = 0x2D \<or> isDigit c)" by blast
    then have "length r < length (c # cs)"
    proof cases
      case 1
      then show ?thesis using "1.prems" s length_json_string [of cs _ r] by auto
    next
      case 2
      then obtain vs where "json_open 0x5D cs (json_elements num n) = Some (vs, r)" using "1.prems" s by auto
      then have "length r < length cs" by (rule length_json_open) (rule Suc.IH(2))
      then show ?thesis by simp
    next
      case 3
      then obtain kvs where "json_open 0x7D cs (json_members num n) = Some (kvs, r)" using "1.prems" s by auto
      then have "length r < length cs" by (rule length_json_open) (rule Suc.IH(3))
      then show ?thesis by simp
    next
      case 4
      then have "json_number num (c # cs) = Some (v, r)" using "1.prems" s by simp
      then obtain p where "scan_number (c # cs) = (p, r)" by (auto simp: json_number_def split: prod.splits if_splits)
      from scan_number_shorter [OF 4(4) this] show ?thesis .
    next
      case 5
      then show ?thesis using "1.prems" s length_json_keyword [of "c # cs" v r] by simp
    qed
    then show ?case using len by simp
  next
    case 2
    then obtain v t ws where e: "json_value num n s = Some (v, t)" "json_more 0x5D t (json_elements num n) = Some (ws, r)"
      by (auto split: option.splits)
    have "length r < length t" using e(2) by (rule length_json_more) (rule Suc.IH(2))
    then show ?case using Suc.IH(1) [OF e(1)] by simp
  next
    case 3
    then obtain key t v u ws where e: "json_key s = Some (key, t)" "json_value num n t = Some (v, u)"
        "json_more 0x7D u (json_members num n) = Some (ws, r)"
      by (auto split: option.splits)
    have "length r < length u" using e(3) by (rule length_json_more) (rule Suc.IH(3))
    then show ?case using length_json_key [OF e(1)] Suc.IH(1) [OF e(2)] by simp
  }
qed simp_all

lemma json_fuel_any:
  "2 * length s + 1 \<le> n \<Longrightarrow> 2 * length s + 1 \<le> m \<Longrightarrow> json_value num n s = json_value num m s"
  "2 * length s + 2 \<le> n \<Longrightarrow> 2 * length s + 2 \<le> m \<Longrightarrow> json_elements num n s = json_elements num m s"
  "2 * length s + 2 \<le> n \<Longrightarrow> 2 * length s + 2 \<le> m \<Longrightarrow> json_members num n s = json_members num m s"
proof (induction n arbitrary: s m)
  case (Suc n)
  {
    case 1
    then obtain k where m: "m = Suc k" by (cases m) auto
    show ?case
    proof (cases "skip_space s")
      case (Cons c cs)
      have "length cs < length s" using length_skip_space [of s] Cons by simp
      then have "json_open 0x5D cs (json_elements num n) = json_open 0x5D cs (json_elements num k)"
          "json_open 0x7D cs (json_members num n) = json_open 0x7D cs (json_members num k)"
        using "1.prems" m Suc.IH(2) [of cs k] Suc.IH(3) [of cs k] by (auto intro!: json_open_cong)
      then show ?thesis using Cons by (simp add: m)
    qed (simp add: m)
  next
    case 2
    then obtain k where m: "m = Suc k" by (cases m) auto
    have v: "json_value num n s = json_value num k s" using 2 m by (intro Suc.IH(1)) simp_all
    have "json_more 0x5D r (json_elements num n) = json_more 0x5D r (json_elements num k)" if "length r < length s" for r
      using that 2 m by (intro json_more_cong Suc.IH(2)) simp_all
    then show ?case using length_json(1) [of num k s] by (auto simp: m v split: option.split)
  next
    case 3
    then obtain k where m: "m = Suc k" by (cases m) auto
    have v: "json_value num n t = json_value num k t" if "length t < length s" for t
      using that 3 m by (intro Suc.IH(1)) simp_all
    have "json_more 0x7D r (json_members num n) = json_more 0x7D r (json_members num k)" if "length r < length s" for r
      using that 3 m by (intro json_more_cong Suc.IH(3)) simp_all
    then show ?case using length_json_key [of s] length_json(1) [of num k]
      by (fastforce simp: m v split: option.split intro: less_trans)
  }
qed simp_all

lemma json_fuel: "2 * length s + 2 \<le> n \<Longrightarrow> json_value num n s = json_value num (2 * length s + 2) s"
  by (rule json_fuel_any) simp_all

subsection \<open>Exact parsing\<close>

lemma parseJson_exact:
  assumes "json_text exact_number s = Some v" and "no_sentinel v"
  shows "parseJson s = Some v"
proof -
  obtain r where v: "json_value exact_number (2 * length s + 2) s = Some (v, r)" "skip_space r = []"
    using assms(1) by (auto simp: json_text_def split: option.splits if_splits)
  let ?n = "2 * length (quote s) + 2"
  have "json_value exact_number ?n s = Some (v, r)"
    using v(1) length_quote [of s] by (subst json_fuel) simp_all
  then obtain v' where "json_value parts_number ?n (quote s) = Some (v', quote r)" "revives v v'"
    using json_sim(1) by blast
  moreover have "skip_space (quote r) = []" using v(2) by (simp add: skip_space_quote)
  ultimately show ?thesis using assms(2) by (simp add: parseJson_def quoteUnsafeIntegers_list json_text_def revives_def)
qed

end
