(* ===== verification/Account_Correct.thy ===== *)
theory Account_Correct
  imports Account Json_Correct
begin

section \<open>The account service: correctness\<close>

text \<open>
  The loop over the hosts as a search for the first usable outcome, the text of a request body read back, and
  the values the calls answer with when the service answers with JSON.
\<close>

subsection \<open>The loop over the hosts\<close>

definition host_requests :: "(jsstr \<Rightarrow> http_request) \<Rightarrow> jsstr list \<Rightarrow> nat \<Rightarrow> nat list \<Rightarrow> http_request list" where
  "host_requests http hosts start is = map (\<lambda>i. http (hosts ! ((start + i) mod length hosts))) is"

lemma request_loop_find:
  "request_loop outs http hosts start i =
    (case find (\<lambda>k. usable (outs k) \<noteq> None) [i..<length hosts] of
       None \<Rightarrow> (JNull, host_requests http hosts start [i..<length hosts])
     | Some k \<Rightarrow> (the (usable (outs k)), host_requests http hosts start [i..<Suc k]))"
proof (induction outs http hosts start i rule: request_loop.induct)
  case (1 outs http hosts start i)
  show ?case
  proof (cases "i < length hosts")
    case True
    then have u: "[i..<length hosts] = i # [Suc i..<length hosts]" by (rule upt_conv_Cons)
    show ?thesis
    proof (cases "usable (outs i)")
      case None
      have l: "request_loop outs http hosts start i =
          (case request_loop outs http hosts start (Suc i) of (v, rqs) \<Rightarrow> (v, http (hosts ! ((start + i) mod length hosts)) # rqs))"
        using True None by (subst request_loop.simps) (simp add: Let_def)
      have f: "find (\<lambda>k. usable (outs k) \<noteq> None) [i..<length hosts] = find (\<lambda>k. usable (outs k) \<noteq> None) [Suc i..<length hosts]"
        using u None by simp
      have IH: "request_loop outs http hosts start (Suc i) =
          (case find (\<lambda>k. usable (outs k) \<noteq> None) [Suc i..<length hosts] of
             None \<Rightarrow> (JNull, host_requests http hosts start [Suc i..<length hosts])
           | Some k \<Rightarrow> (the (usable (outs k)), host_requests http hosts start [Suc i..<Suc k]))"
        using "1.IH" [OF True refl None] by (simp only: Suc_eq_plus1)
      show ?thesis
      proof (cases "find (\<lambda>k. usable (outs k) \<noteq> None) [Suc i..<length hosts]")
        case None
        then show ?thesis using l f IH u by (simp add: host_requests_def)
      next
        case (Some k)
        then have "i < k" by (auto simp: find_Some_iff)
        then have "[i..<Suc k] = i # [Suc i..<Suc k]" by (simp add: upt_conv_Cons)
        with Some show ?thesis using l f IH by (simp add: host_requests_def del: upt_Suc)
      qed
    next
      case (Some v)
      then show ?thesis using True u by (subst request_loop.simps) (simp add: Let_def host_requests_def)
    qed
  next
    case False
    then show ?thesis by (subst request_loop.simps) (simp add: host_requests_def)
  qed
qed

text \<open>The first text a host answers with status 200 among \<open>n\<close> attempts.\<close>

definition first_text :: "(nat \<Rightarrow> fetch_outcome) \<Rightarrow> nat \<Rightarrow> jsstr option" where
  "first_text outs n =
     (case find (\<lambda>k. usable (outs k) \<noteq> None) [0..<n] of
        None \<Rightarrow> None
      | Some k \<Rightarrow> (case outs k of Responds _ t \<Rightarrow> t | Fetch_rejects \<Rightarrow> None))"

lemma first_text_usable:
  assumes "first_text outs n = Some t"
  shows "\<exists>k < n. find (\<lambda>k. usable (outs k) \<noteq> None) [0..<n] = Some k \<and> usable (outs k) = Some (response_value t)"
proof -
  obtain k where k: "find (\<lambda>k. usable (outs k) \<noteq> None) [0..<n] = Some k" "(case outs k of Responds _ t \<Rightarrow> t | Fetch_rejects \<Rightarrow> None) = Some t"
    using assms by (auto simp: first_text_def split: option.splits)
  then have "k < n" "usable (outs k) \<noteq> None" by (auto simp: find_Some_iff)
  moreover obtain st where "outs k = Responds st (Some t)" using k(2) by (cases "outs k") auto
  ultimately show ?thesis using k(1) by (auto simp: usable_def split: if_splits)
qed

text \<open>The service answers a call with JSON: what it says is what the call gets, integers exactly.\<close>

definition answers_json :: "(nat \<Rightarrow> fetch_outcome) \<Rightarrow> nat \<Rightarrow> jsval \<Rightarrow> bool" where
  "answers_json outs n res \<longleftrightarrow>
     no_sentinel res \<and> (case first_text outs n of None \<Rightarrow> False | Some t \<Rightarrow> json_text exact_number t = Some res)"

lemma account_request_json:
  assumes "answers_json outs (length (ac_hosts ac)) res"
  shows "\<exists>rqs. account_request outs verb path token body ac =
      (res, rqs, ac\<lparr>ac_cursor := (ac_cursor ac + 1) mod length (ac_hosts ac)\<rparr>) \<and> rqs \<noteq> [] \<and>
    (\<forall>rq \<in> set rqs. \<exists>h \<in> set (ac_hosts ac). rq = http_of verb path token body h)"
proof -
  obtain t where t: "first_text outs (length (ac_hosts ac)) = Some t" "json_text exact_number t = Some res" "no_sentinel res"
    using assms by (auto simp: answers_json_def split: option.splits)
  then have "response_value t = res" using parseJson_exact by (simp add: response_value_def)
  moreover obtain k where k: "k < length (ac_hosts ac)" "find (\<lambda>k. usable (outs k) \<noteq> None) [0..<length (ac_hosts ac)] = Some k"
      "usable (outs k) = Some (response_value t)" using first_text_usable [OF t(1)] by blast
  moreover have "(ac_cursor ac + i) mod length (ac_hosts ac) < length (ac_hosts ac)" for i
    using k(1) by (intro mod_less_divisor) linarith
  ultimately show ?thesis by (auto simp: account_request_def request_loop_find host_requests_def Let_def intro!: nth_mem)
qed

subsection \<open>Bodies\<close>

lemma hex_lower_val: "0 \<le> n \<Longrightarrow> n < 16 \<Longrightarrow> hex_val (hex_lower n) = Some n"
proof -
  assume n: "0 \<le> n" "n < 16"
  have "\<forall>k \<in> set [0..15]. hex_val (hex_lower k) = Some k" by code_simp
  then show ?thesis using n by simp
qed

lemma hex_digits:
  fixes n :: int
  shows "((n div 0x1000 * 16 + n div 0x100 mod 16) * 16 + n div 16 mod 16) * 16 + n mod 16 = n"
proof -
  have "n div 0x1000 = n div 0x100 div 16" "n div 0x100 = n div 16 div 16"
    using zdiv_zmult2_eq [of 16 n "0x100"] zdiv_zmult2_eq [of 16 n 16] by simp_all
  then show ?thesis by (simp only: div_mult_mod_eq)
qed

lemma u_escape_read: "json_string (u_escape c @ s) = more_string c (json_string s)"
proof -
  have m: "hex_val (hex_lower (x mod 16)) = Some (x mod 16)" for x
    by (rule hex_lower_val) simp_all
  have "uint c div 0x1000 = uint c div 0x1000 mod 16"
    using uint_lt2p [of c] by (intro mod_pos_pos_trivial [symmetric]) (simp_all add: pos_imp_zdiv_nonneg_iff)
  then have h: "hex_val (hex_lower (uint c div 0x1000)) = Some (uint c div 0x1000)" by (metis m)
  have "hex4 (hex_lower (uint c div 0x1000)) (hex_lower (uint c div 0x100 mod 16)) (hex_lower (uint c div 16 mod 16))
      (hex_lower (uint c mod 16)) = Some c"
    by (simp only: hex4_def h m prod.case option.case hex_digits of_int_uint ucast_id)
  then show ?thesis unfolding u_escape_def Let_def by simp
qed

lemma surrogate_plain: "high_surrogate c \<or> low_surrogate c \<Longrightarrow> 0x20 \<le> c \<and> c \<noteq> 0x22 \<and> c \<noteq> 0x5C"
  by (auto simp: high_surrogate_def low_surrogate_def intro: order_trans [of _ "0xD800"] order_trans [of _ "0xDC00"])

lemma json_char_read: "json_string (json_char c @ s) = more_string c (json_string s)"
  using u_escape_read [of c s] by (auto simp: json_char_def json_escape_def)

lemma json_chars_read: "json_string (json_chars s @ 0x22 # r) = Some (s, r)"
proof (induction s rule: json_chars.induct)
  case (3 c d s)
  show ?case
  proof (cases "high_surrogate c \<and> low_surrogate d")
    case True
    then show ?thesis using 3 surrogate_plain [of c] surrogate_plain [of d] by (auto simp: more_string_def)
  next
    case False
    then show ?thesis using 3 by (auto simp: u_escape_read json_char_read simp del: json_string.simps)
  qed
qed (auto simp: u_escape_read json_char_read more_string_def)

lemma stringify_string_read:
  "json_value num (Suc n) (stringify_string s @ r) = Some (JStr s, r)"
  "json_key (stringify_string s @ 0x3A # r) = Some (s, r)"
  using json_chars_read [of s]
  by (simp_all add: stringify_string_def json_value_string json_key_def skip_space_def json_space_def del: json_value.simps)

lemma stringify_members_read:
  "ms \<noteq> [] \<Longrightarrow> length ms < n \<Longrightarrow>
    json_members num n (stringify_members ms @ 0x7D # r) = Some (map (\<lambda>(k, v). (k, JStr v)) ms, r)"
proof (induction ms arbitrary: n rule: stringify_members.induct)
  case (2 k v)
  then obtain n' where n: "n = Suc (Suc n')" by (cases n rule: nat.exhaust; cases "n - 1") auto
  have "json_value num (Suc n') (stringify_string v @ 0x7D # r) = Some (JStr v, 0x7D # r)"
      "json_key (stringify_string k @ 0x3A # stringify_string v @ 0x7D # r) = Some (k, stringify_string v @ 0x7D # r)"
    by (rule stringify_string_read)+
  then show ?case by (simp add: n json_more_def skip_space_def json_space_def del: json_value.simps)
next
  case (3 k v m ms)
  then obtain n' where n: "n = Suc (Suc n')" by (cases n rule: nat.exhaust; cases "n - 1") auto
  let ?rest = "stringify_members (m # ms) @ 0x7D # r"
  have "json_members num (Suc n') ?rest = Some (map (\<lambda>(k, v). (k, JStr v)) (m # ms), r)"
    using "3.IH" [of "Suc n'"] "3.prems" n by (simp del: json_members.simps)
  moreover have "json_value num (Suc n') (stringify_string v @ 0x2C # ?rest) = Some (JStr v, 0x2C # ?rest)"
      "json_key (stringify_string k @ 0x3A # stringify_string v @ 0x2C # ?rest) = Some (k, stringify_string v @ 0x2C # ?rest)"
    by (rule stringify_string_read)+
  ultimately show ?case
    by (simp add: n json_members.simps(2) [of num "Suc n'"] json_more_def skip_space_def json_space_def
      del: json_value.simps json_members.simps)
qed simp

lemma json_object_distinct: "distinct (map fst kvs) \<Longrightarrow> json_object kvs = kvs"
proof -
  have put: "k \<notin> fst ` set ob \<Longrightarrow> obj_put ob k v = ob @ [(k, v)]" for ob :: jsobj and k v by (induction ob) auto
  have "distinct (map fst (ob @ kvs)) \<Longrightarrow> fold (\<lambda>(k, v) ob. obj_put ob k v) kvs ob = ob @ kvs" for ob
    by (induction kvs arbitrary: ob) (auto simp: put)
  from this [of "[]"] show "distinct (map fst kvs) \<Longrightarrow> json_object kvs = kvs" by (simp add: json_object_def)
qed

text \<open>The service reads a body as the object it was made of.\<close>

lemma stringify_read:
  assumes "distinct (map fst body)" and "body \<noteq> []"
  shows "json_text num (stringify body) = Some (JObj (map (\<lambda>(k, v). (k, JStr v)) body))"
proof -
  let ?n = "2 * length (stringify body) + 1"
  have "length body \<le> length (stringify_members body)"
    by (induction body rule: stringify_members.induct) (auto simp: stringify_string_def)
  then have "length body < ?n" by (simp add: stringify_def)
  from stringify_members_read [OF assms(2) this, of num "[]"]
  have "json_members num ?n (stringify_members body @ [0x7D]) = Some (map (\<lambda>(k, v). (k, JStr v)) body, [])" .
  moreover have "json_open 0x7D (stringify_members body @ [0x7D]) k = k (stringify_members body @ [0x7D])"
    for k :: "jsstr \<Rightarrow> (jsobj \<times> jsstr) option"
    using assms(2) by (cases body rule: stringify_members.cases) (auto simp: json_open_def stringify_string_def skip_space_def json_space_def)
  moreover have "distinct (map fst (map (\<lambda>(k, v). (k, JStr v)) body))" using assms(1) by (simp add: comp_def case_prod_beta)
  ultimately show ?thesis
    by (simp add: json_text_def stringify_def json_value_brackets json_object_distinct skip_space_def del: json_value.simps)
qed

subsection \<open>The calls\<close>

lemma answered_code: "prop_of res (js ''code'') = JNum 0 \<Longrightarrow> answered res"
  by (cases res) (auto simp: answered_def)

lemma list_call_json:
  assumes "answers_json outs (length (ac_hosts ac)) res" and "prop_of res (js ''code'') = JNum 0"
  shows "\<exists>rqs ac'. list_call outs path token field ac = (asArray (prop_of res (js field)), rqs, ac') \<and>
    ac_hosts ac' = ac_hosts ac \<and> (\<forall>rq \<in> set rqs. rq_method rq = js ''GET'')"
  using account_request_json [OF assms(1), of "js ''GET''" path token None] answered_code [OF assms(2)]
  by (fastforce simp: list_call_def http_of_def)

lemma item_call_json:
  assumes "answers_json outs (length (ac_hosts ac)) res" and "prop_of res (js ''code'') = JNum 0" and "truthy (prop_of res (js field))"
  shows "\<exists>rqs ac'. item_call outs path token body field ac = (prop_of res (js field), rqs, ac') \<and> rqs \<noteq> [] \<and>
    (\<forall>rq \<in> set rqs. \<exists>h. rq = http_of (js ''POST'') path token (Some body) h)"
  using account_request_json [OF assms(1), of "js ''POST''" path token "Some body"] answered_code [OF assms(2)] assms(3)
  by (fastforce simp: item_call_def Let_def)

lemma ensureRole_found:
  assumes "answers_json outs (length (ac_hosts ac)) res" and "prop_of res (js ''code'') = JNum 0"
    and "prop_of res (js ''roles'') = JArr (r # rs)" and "truthy r"
  shows "\<exists>rqs ac'. ensureRole outs outs' token name server ac = (Some r, rqs, ac') \<and> (\<forall>rq \<in> set rqs. rq_method rq = js ''GET'')"
  using list_call_json [OF assms(1,2), of "js ''/roles''" "Some token" "''roles''"] assms(3,4)
  by (auto simp: ensureRole_def roles_def roles_path_def asArray_def)

definition creates :: "jsstr \<Rightarrow> jsstr \<Rightarrow> jsstr \<Rightarrow> http_request \<Rightarrow> bool" where
  "creates token server name rq \<longleftrightarrow>
     rq_method rq = js ''POST'' \<and>
     (\<exists>b. rq_body rq = Some b \<and>
       json_text exact_number b = Some (JObj [(js ''server'', JStr server), (js ''name'', JStr name)])) \<and>
     (token \<noteq> [] \<longrightarrow> (js ''authorization'', js ''Bearer '' @ token) \<in> set (rq_headers rq))"

lemma ensureRole_created:
  assumes "answers_json outs (length (ac_hosts ac)) res" and "prop_of res (js ''code'') = JNum 0"
    and "prop_of res (js ''roles'') = JArr [] \<or> prop_of res (js ''roles'') = JObj []"
    and "answers_json outs' (length (ac_hosts ac)) res'" and "prop_of res' (js ''code'') = JNum 0"
    and "truthy (prop_of res' (js ''role''))"
  shows "\<exists>rqs ac'. ensureRole outs outs' token name server ac = (Some (prop_of res' (js ''role'')), rqs, ac') \<and>
    (\<exists>rq \<in> set rqs. creates token server name rq)"
proof -
  obtain rqs1 ac1 where 1: "list_call outs (js ''/roles'') (Some token) ''roles'' ac = (Some [], rqs1, ac1)" "ac_hosts ac1 = ac_hosts ac"
    using list_call_json [OF assms(1,2), of "js ''/roles''" "Some token" "''roles''"] assms(3) by (auto simp: asArray_def)
  let ?body = "[(js ''server'', server), (js ''name'', name)]"
  obtain rqs2 ac2 where 2: "item_call outs' (js ''/create_role'') (Some token) ?body ''role'' ac1 =
      (prop_of res' (js ''role''), rqs2, ac2)" "rqs2 \<noteq> []"
      "\<forall>rq \<in> set rqs2. \<exists>h. rq = http_of (js ''POST'') (js ''/create_role'') (Some token) (Some ?body) h"
    using item_call_json [OF assms(4) [folded 1(2)] assms(5,6), of "js ''/create_role''" "Some token" ?body] by blast
  have "creates token server name (http_of (js ''POST'') (js ''/create_role'') (Some token) (Some ?body) h)" for h
    using stringify_read [of ?body exact_number] by (simp add: creates_def http_of_def request_headers_def)
  then have "\<exists>rq \<in> set rqs2. creates token server name rq" using 2(2,3) by (cases rqs2) auto
  then show ?thesis using 1(1) 2(1) by (auto simp: ensureRole_def roles_def roles_path_def createRole_def)
qed

end
