(* ===== verification/Transport.thy ===== *)
theory Transport
  imports Prelude
begin

section \<open>The WebSocket transport\<close>

text \<open>
  \<open>transport.ts\<close>: \<open>wsTransport\<close>'s \<open>connect\<close> for one socket. The variables its closures share are a record, the
  handlers of the socket and the methods of the connection are functions on it, and \<open>ws_step\<close> says
  which may run when: the socket's events in any order, the methods once the promise has handed out
  the connection. Callbacks are named by numbers; what reaches the outside is appended to \<open>ws_out\<close>.
  What the socket does is not assumed: it may report errors, close and open in any order and any number of times.
\<close>

subsection \<open>Data\<close>

text \<open>\<open>ev.data\<close>: an \<open>ArrayBuffer\<close>, or something else.\<close>

datatype ws_data = ArrayBuffer "byte list" | OtherData

datatype ws_promise = Promise_pending | Promise_resolved | Promise_rejected

datatype ws_effect =
    MessageTo nat "byte list"
  | ClosedTo nat
  | SocketSend "byte list"
  | SocketClose

record ws =
  opened :: bool
  closedNotified :: bool
  messageCb :: "nat option"
  closedCb :: "nat option"
  promise :: ws_promise
  ws_out :: "ws_effect list"

definition ws_connect :: ws where
  "ws_connect =
     \<lparr>opened = False, closedNotified = False, messageCb = None, closedCb = None, promise = Promise_pending, ws_out = []\<rparr>"

subsection \<open>Handlers\<close>

text \<open>Only the first of \<open>resolve\<close> and \<open>reject\<close> settles the promise.\<close>

definition settle :: "ws_promise \<Rightarrow> ws \<Rightarrow> ws" where
  "settle r s = (if promise s = Promise_pending then s\<lparr>promise := r\<rparr> else s)"

definition ws_emit :: "ws_effect list \<Rightarrow> ws \<Rightarrow> ws" where
  "ws_emit es s = s\<lparr>ws_out := ws_out s @ es\<rparr>"

definition notifyClosed :: "ws \<Rightarrow> ws" where
  "notifyClosed s =
     (if closedNotified s then s
      else ws_emit (case closedCb s of None \<Rightarrow> [] | Some cb \<Rightarrow> [ClosedTo cb]) (s\<lparr>closedNotified := True\<rparr>))"

definition onopen :: "ws \<Rightarrow> ws" where
  "onopen s = settle Promise_resolved (s\<lparr>opened := True\<rparr>)"

definition onmessage :: "ws_data \<Rightarrow> ws \<Rightarrow> ws" where
  "onmessage d s =
     (case d of
        ArrayBuffer bs \<Rightarrow> ws_emit (case messageCb s of None \<Rightarrow> [] | Some cb \<Rightarrow> [MessageTo cb bs]) s
      | OtherData \<Rightarrow> s)"

definition onerror :: "ws \<Rightarrow> ws" where
  "onerror s = (if \<not> opened s then settle Promise_rejected s else s)"

definition onclose :: "ws \<Rightarrow> ws" where
  "onclose s = (if \<not> opened s then settle Promise_rejected s else notifyClosed s)"

subsection \<open>Methods of the connection\<close>

definition conn_send :: "byte list \<Rightarrow> ws \<Rightarrow> ws" where
  "conn_send bytes s = ws_emit [SocketSend bytes] s"

text \<open>An exception of \<open>sock.close()\<close> is swallowed.\<close>

definition conn_close :: "ws \<Rightarrow> ws" where
  "conn_close s = ws_emit [SocketClose] s"

definition onMessage :: "nat \<Rightarrow> ws \<Rightarrow> ws" where
  "onMessage cb s = s\<lparr>messageCb := Some cb\<rparr>"

definition onClosed :: "nat \<Rightarrow> ws \<Rightarrow> ws" where
  "onClosed cb s =
     (let s1 = s\<lparr>closedCb := Some cb\<rparr> in if closedNotified s1 then ws_emit [ClosedTo cb] s1 else s1)"

subsection \<open>Steps\<close>

datatype ws_event =
    WsOpen | WsMessage ws_data | WsError | WsClose
  | WsSend "byte list" | WsCloseCall | WsOnMessage nat | WsOnClosed nat

inductive ws_step :: "ws \<Rightarrow> ws_event \<Rightarrow> ws \<Rightarrow> bool" where
  open': "ws_step s WsOpen (onopen s)"
| message: "ws_step s (WsMessage d) (onmessage d s)"
| error: "ws_step s WsError (onerror s)"
| close': "ws_step s WsClose (onclose s)"
| send': "promise s = Promise_resolved \<Longrightarrow> ws_step s (WsSend bytes) (conn_send bytes s)"
| closing: "promise s = Promise_resolved \<Longrightarrow> ws_step s WsCloseCall (conn_close s)"
| register_message: "promise s = Promise_resolved \<Longrightarrow> ws_step s (WsOnMessage cb) (onMessage cb s)"
| register_closed: "promise s = Promise_resolved \<Longrightarrow> ws_step s (WsOnClosed cb) (onClosed cb s)"

code_pred (modes: i \<Rightarrow> i \<Rightarrow> o \<Rightarrow> bool) ws_step .

inductive_cases ws_stepE: "ws_step s e s'"

inductive_simps ws_step_simps [simp]:
  "ws_step s WsOpen s'" "ws_step s (WsMessage d) s'" "ws_step s WsError s'" "ws_step s WsClose s'"
  "ws_step s (WsSend b) s'" "ws_step s WsCloseCall s'" "ws_step s (WsOnMessage cb) s'" "ws_step s (WsOnClosed cb) s'"

text \<open>The runs of a socket from \<open>connect\<close>, with the events in order.\<close>

inductive ws_run :: "ws_event list \<Rightarrow> ws \<Rightarrow> bool" where
  start': "ws_run [] ws_connect"
| step: "ws_run es s \<Longrightarrow> ws_step s e s' \<Longrightarrow> ws_run (es @ [e]) s'"

inductive_cases ws_run_stepE: "ws_run es s"

lemmas ws_defs =
  settle_def ws_emit_def notifyClosed_def onopen_def onmessage_def onerror_def onclose_def conn_send_def conn_close_def
  onMessage_def onClosed_def

subsection \<open>What the events say\<close>

text \<open>
  The contract of the interface, as functions of the events alone: the promise is settled by the first of the
  opening and the failing events; a message goes to the callback registered last; a closed connection
  is reported to the callback registered when the socket first closes after opening, and to any registered later.
\<close>

fun promise_of :: "ws_event list \<Rightarrow> ws_promise" where
  "promise_of [] = Promise_pending"
| "promise_of (e # es) =
     (case e of WsOpen \<Rightarrow> Promise_resolved | WsError \<Rightarrow> Promise_rejected | WsClose \<Rightarrow> Promise_rejected | _ \<Rightarrow> promise_of es)"

definition has_opened :: "ws_event list \<Rightarrow> bool" where
  "has_opened es \<longleftrightarrow> WsOpen \<in> set es"

text \<open>The socket has closed after it had opened.\<close>

fun has_closed :: "bool \<Rightarrow> ws_event list \<Rightarrow> bool" where
  "has_closed op [] = False"
| "has_closed op (e # es) =
     (case e of WsOpen \<Rightarrow> has_closed True es | WsClose \<Rightarrow> op \<or> has_closed op es | _ \<Rightarrow> has_closed op es)"

fun last_cb :: "(ws_event \<Rightarrow> nat option) \<Rightarrow> nat option \<Rightarrow> ws_event list \<Rightarrow> nat option" where
  "last_cb f cb [] = cb"
| "last_cb f cb (e # es) = last_cb f (case f e of None \<Rightarrow> cb | Some n \<Rightarrow> Some n) es"

fun message_cb :: "ws_event \<Rightarrow> nat option" where
  "message_cb (WsOnMessage cb) = Some cb"
| "message_cb _ = None"

fun closed_cb :: "ws_event \<Rightarrow> nat option" where
  "closed_cb (WsOnClosed cb) = Some cb"
| "closed_cb _ = None"

definition effects_after :: "ws_event list \<Rightarrow> ws_event \<Rightarrow> ws_effect list" where
  "effects_after es e =
     (case e of
        WsMessage (ArrayBuffer bs) \<Rightarrow> (case last_cb message_cb None es of None \<Rightarrow> [] | Some cb \<Rightarrow> [MessageTo cb bs])
      | WsClose \<Rightarrow>
          if has_opened es \<and> \<not> has_closed False es
          then (case last_cb closed_cb None es of None \<Rightarrow> [] | Some cb \<Rightarrow> [ClosedTo cb]) else []
      | WsSend bs \<Rightarrow> [SocketSend bs]
      | WsCloseCall \<Rightarrow> [SocketClose]
      | WsOnClosed cb \<Rightarrow> if has_closed False es then [ClosedTo cb] else []
      | _ \<Rightarrow> [])"

definition effects_of :: "ws_event list \<Rightarrow> ws_effect list" where
  "effects_of es = concat (map (\<lambda>i. effects_after (take i es) (es ! i)) [0..<length es])"

subsection \<open>The code keeps the contract\<close>

lemma last_cb_append: "last_cb f cb (es @ [e]) = (case f e of None \<Rightarrow> last_cb f cb es | Some n \<Rightarrow> Some n)"
  by (induction es arbitrary: cb) (auto split: option.split)

lemma promise_of_append:
  "promise_of (es @ [e]) = (if promise_of es = Promise_pending then promise_of [e] else promise_of es)"
  by (induction es) (auto split: ws_event.split)

lemma has_closed_append:
  "has_closed op (es @ [e]) = (has_closed op es \<or> (e = WsClose \<and> (op \<or> has_opened es)))"
  by (induction es arbitrary: op) (auto simp: has_opened_def split: ws_event.split)

lemma effects_of_append: "effects_of (es @ [e]) = effects_of es @ effects_after es e"
proof -
  have "map (\<lambda>i. effects_after (take i (es @ [e])) ((es @ [e]) ! i)) [0..<length es] =
      map (\<lambda>i. effects_after (take i es) (es ! i)) [0..<length es]"
    by (rule map_cong) (simp_all add: nth_append)
  moreover have "effects_of (es @ [e]) =
      concat (map (\<lambda>i. effects_after (take i (es @ [e])) ((es @ [e]) ! i)) [0..<length es]) @ effects_after es e"
    by (simp add: effects_of_def del: take_append) simp
  ultimately show ?thesis by (simp only: effects_of_def)
qed

lemma promise_opened: "promise_of es = Promise_pending \<Longrightarrow> WsOpen \<notin> set es"
  by (induction es) (auto split: ws_event.splits)

lemma ws_run_contract:
  "ws_run es s \<Longrightarrow>
    s = \<lparr>opened = has_opened es, closedNotified = has_closed False es, messageCb = last_cb message_cb None es,
      closedCb = last_cb closed_cb None es, promise = promise_of es, ws_out = effects_of es\<rparr>"
proof (induction rule: ws_run.induct)
  case start'
  show ?case by (simp add: ws_connect_def has_opened_def effects_of_def)
next
  case (step es s e s')
  note app = last_cb_append promise_of_append has_closed_append effects_of_append
  from step.hyps(2) step.IH promise_opened [of es] show ?case
    by (cases e) (auto simp: app ws_defs has_opened_def effects_after_def Let_def
      split: option.split ws_data.split)
qed

text \<open>Every registration is called back at most once, and with one registration exactly when the socket has closed.\<close>

definition closed_calls :: "nat \<Rightarrow> ws_effect list \<Rightarrow> nat" where
  "closed_calls cb es = length (filter (\<lambda>e. e = ClosedTo cb) es)"

definition registrations :: "nat \<Rightarrow> ws_event list \<Rightarrow> nat" where
  "registrations cb es = length (filter (\<lambda>e. e = WsOnClosed cb) es)"

lemma last_cb_closed: "last_cb closed_cb cb es = Some n \<Longrightarrow> cb = Some n \<or> WsOnClosed n \<in> set es"
  by (induction es arbitrary: cb) (auto split: option.splits elim!: closed_cb.elims)

lemma last_cb_None: "last_cb closed_cb cb es = None \<Longrightarrow> cb = None \<and> (\<forall>n. WsOnClosed n \<notin> set es)"
  by (induction es arbitrary: cb) (auto split: option.splits elim!: closed_cb.elims)

lemma closed_calls_simps [simp]:
  "closed_calls cb [] = 0"
  "closed_calls cb (ClosedTo c # fx) = (if c = cb then 1 else 0) + closed_calls cb fx"
  "closed_calls cb (MessageTo c b # fx) = closed_calls cb fx"
  "closed_calls cb (SocketSend b # fx) = closed_calls cb fx"
  "closed_calls cb (SocketClose # fx) = closed_calls cb fx"
  "closed_calls cb (fx @ fy) = closed_calls cb fx + closed_calls cb fy"
  by (simp_all add: closed_calls_def)

lemma registrations_simps [simp]:
  "registrations cb [] = 0"
  "registrations cb (e # es) = (if e = WsOnClosed cb then 1 else 0) + registrations cb es"
  "registrations cb (es @ fs) = registrations cb es + registrations cb fs"
  by (simp_all add: registrations_def)

lemma registered_count: "WsOnClosed n \<in> set es \<Longrightarrow> 1 \<le> registrations n es"
  by (induction es) auto

text \<open>What an event adds to the calls of a callback.\<close>

lemma closed_calls_after:
  "closed_calls cb (effects_after es e) =
    (if e = WsClose \<and> has_opened es \<and> \<not> has_closed False es \<and> last_cb closed_cb None es = Some cb \<or>
        e = WsOnClosed cb \<and> has_closed False es then 1 else 0)"
proof (cases e)
  case (WsMessage d)
  then show ?thesis by (cases d; cases "last_cb message_cb None es") (simp_all add: effects_after_def)
next
  case WsClose
  then show ?thesis by (cases "last_cb closed_cb None es") (simp_all add: effects_after_def)
qed (simp_all add: effects_after_def)

lemma closed_calls_registered:
  "closed_calls cb (effects_of es) \<le> registrations cb es \<and> (\<not> has_closed False es \<longrightarrow> closed_calls cb (effects_of es) = 0)"
proof (induction es rule: rev_induct)
  case (snoc e es)
  have "last_cb closed_cb None es = Some cb \<Longrightarrow> 1 \<le> registrations cb es"
    using last_cb_closed [of None es cb] registered_count by auto
  with snoc show ?case by (auto simp: effects_of_append has_closed_append closed_calls_after split: if_splits)
qed (simp add: effects_of_def)

text \<open>The only callback ever registered is called exactly when the socket has closed.\<close>

lemma registrations_0: "registrations cb es = 0 \<longleftrightarrow> WsOnClosed cb \<notin> set es"
  by (induction es) auto

lemma only_registered:
  assumes "\<And>n. WsOnClosed n \<in> set es \<Longrightarrow> n = cb"
  shows "last_cb closed_cb None es = (if registrations cb es = 0 then None else Some cb)"
proof (cases "last_cb closed_cb None es")
  case None
  then show ?thesis using last_cb_None [of None es] registrations_0 by auto
next
  case (Some n)
  then have "WsOnClosed n \<in> set es" using last_cb_closed [of None es n] by simp
  then show ?thesis using assms Some registrations_0 [of cb es] by auto
qed

lemma closed_called_once:
  "registrations cb es \<le> 1 \<Longrightarrow> (\<And>n. WsOnClosed n \<in> set es \<Longrightarrow> n = cb) \<Longrightarrow>
    closed_calls cb (effects_of es) = (if has_closed False es \<and> registrations cb es = 1 then 1 else 0)"
proof (induction es rule: rev_induct)
  case (snoc e es)
  have IH: "closed_calls cb (effects_of es) = (if has_closed False es \<and> registrations cb es = 1 then 1 else 0)"
    using snoc.prems by (intro snoc.IH) auto
  have "last_cb closed_cb None es = (if registrations cb es = 0 then None else Some cb)"
    using snoc.prems by (intro only_registered) auto
  then show ?case using IH snoc.prems(1)
    by (cases "registrations cb es = 0") (auto simp: effects_of_append has_closed_append closed_calls_after split: if_splits)
qed (simp add: effects_of_def)

text \<open>The laws of the interface, for whatever a socket does.\<close>

lemma ws_run_laws:
  assumes "ws_run es s"
  shows "promise s = promise_of es" and "ws_out s = effects_of es" and "closed_calls cb (ws_out s) \<le> registrations cb es"
    and "opened s \<and> closedNotified s \<longleftrightarrow> has_closed False es"
proof -
  have c: "has_closed op es \<Longrightarrow> op \<or> has_opened es" for op
    by (induction es arbitrary: op) (auto simp: has_opened_def split: ws_event.splits)
  note k = ws_run_contract [OF assms]
  show "promise s = promise_of es" by (subst k) simp
  show out: "ws_out s = effects_of es" by (subst k) simp
  show "closed_calls cb (ws_out s) \<le> registrations cb es" unfolding out using closed_calls_registered by blast
  show "opened s \<and> closedNotified s \<longleftrightarrow> has_closed False es" using c [of False] by (subst k, subst k) auto
qed

end
