(* ===== verification/Session_Sockets.thy ===== *)
theory Session_Sockets
  imports Session_Link Transport
begin

section \<open>The session over WebSockets\<close>

text \<open>
  \<open>SessionClient\<close> with the transport \<open>wsTransport\<close>: the session of the theory Session and, for each of its
  connections, the closures of \<open>transport.ts\<close> around one socket. A connection attempt of call \<open>t\<close> is a socket
  in \<open>dials\<close>; when the promise of \<open>connect\<close> has resolved and \<open>establish\<close> goes on, it becomes the connection the
  session numbers it with, and \<open>establish\<close> registers its two callbacks. What a socket calls back is an event
  of the session, what the session sends or closes is a call on the socket. A socket carries its log of events.
\<close>

subsection \<open>Data\<close>

record socket =
  so_log :: "ws_event list"
  so_ws :: ws

definition new_socket :: socket where
  "new_socket = \<lparr>so_log = [], so_ws = ws_connect\<rparr>"

fun ws_apply :: "ws_event \<Rightarrow> ws \<Rightarrow> ws" where
  "ws_apply WsOpen = onopen"
| "ws_apply (WsMessage d) = onmessage d"
| "ws_apply WsError = onerror"
| "ws_apply WsClose = onclose"
| "ws_apply (WsSend bs) = conn_send bs"
| "ws_apply WsCloseCall = conn_close"
| "ws_apply (WsOnMessage cb) = onMessage cb"
| "ws_apply (WsOnClosed cb) = onClosed cb"

definition sock_do :: "ws_event \<Rightarrow> socket \<Rightarrow> socket" where
  "sock_do e k = \<lparr>so_log = so_log k @ [e], so_ws = ws_apply e (so_ws k)\<rparr>"

text \<open>\<open>heard\<close> keeps the events the session has been given, in order.\<close>

record 'c net =
  sess :: "'c session_client"
  dials :: "nat \<Rightarrow> socket option"
  socks :: "nat \<Rightarrow> socket option"
  heard :: "event list"

definition net_new :: "'c \<Rightarrow> 'c net" where
  "net_new cs = \<lparr>sess = new_session cs, dials = (\<lambda>_. None), socks = (\<lambda>_. None), heard = []\<rparr>"

subsection \<open>From the session to the sockets\<close>

text \<open>The call an effect of the session makes on connection \<open>c\<close>.\<close>

fun call_on :: "nat \<Rightarrow> effect \<Rightarrow> ws_event list" where
  "call_on c (Sent d i n a bs) = (if d = c then [WsSend bs] else [])"
| "call_on c (ConnClose d) = (if d = c then [WsCloseCall] else [])"
| "call_on c _ = []"

definition calls_on :: "nat \<Rightarrow> effect list \<Rightarrow> ws_event list" where
  "calls_on c fx = concat (map (call_on c) fx)"

text \<open>The call of \<open>establish\<close> an event continues into \<open>transport.connect\<close>.\<close>

fun dialling :: "event \<Rightarrow> nat option" where
  "dialling (EvEndpoints t r) = Some t"
| "dialling (EvConnectFailed t) = Some t"
| "dialling _ = None"

fun connects :: "effect \<Rightarrow> bool" where
  "connects (ConnectTo ep) = True"
| "connects _ = False"

text \<open>One turn of the session: its effects reach the sockets; an attempt gets a new one.\<close>

definition session_event ::
  "session_conf \<Rightarrow> 'c codec \<Rightarrow> event \<Rightarrow> 'c net \<Rightarrow> 'c net" where
  "session_event cf cd ev n =
     (let s = turn cf cd ev (sess n);
          fx = drop (length (out (sess n))) (out s)
      in n\<lparr>sess := s, heard := heard n @ [ev],
           socks := (\<lambda>c. map_option (fold sock_do (calls_on c fx)) (socks n c)),
           dials := (case dialling ev of
               None \<Rightarrow> dials n
             | Some t \<Rightarrow> if list_ex connects fx then (dials n)(t \<mapsto> new_socket) else dials n)\<rparr>)"

subsection \<open>From the sockets to the session\<close>

fun deliver :: "session_conf \<Rightarrow> 'c codec \<Rightarrow> ws_effect \<Rightarrow> 'c net \<Rightarrow> 'c net" where
  "deliver cf cd (MessageTo c bs) n = session_event cf cd (EvMessage c bs) n"
| "deliver cf cd (ClosedTo c) n = session_event cf cd (EvClosed c) n"
| "deliver cf cd _ n = n"

text \<open>A handler of the socket of connection \<open>c\<close> runs, and the callbacks it calls.\<close>

definition socket_event ::
  "session_conf \<Rightarrow> 'c codec \<Rightarrow> nat \<Rightarrow> ws_event \<Rightarrow> 'c net \<Rightarrow> 'c net" where
  "socket_event cf cd c e n =
     (case socks n c of
        None \<Rightarrow> n
      | Some k \<Rightarrow>
          let k' = sock_do e k in
          fold (deliver cf cd) (drop (length (ws_out (so_ws k))) (ws_out (so_ws k')))
            (n\<lparr>socks := (socks n)(c \<mapsto> k')\<rparr>))"

text \<open>
  \<open>establish\<close> has the connection: unless the session has been closed it registers \<open>onMessage\<close> and \<open>onClosed\<close>,
  the second of which calls back at once if the socket has closed already.
\<close>

definition hand_out :: "session_conf \<Rightarrow> 'c codec \<Rightarrow> nat \<Rightarrow> socket \<Rightarrow> 'c net \<Rightarrow> 'c net" where
  "hand_out cf cd t k n =
     (let c = nextConn (sess n);
          k' = (if closed (sess n) then k else sock_do (WsOnClosed c) (sock_do (WsOnMessage c) k))
      in session_event cf cd (EvConnected t (closedNotified (so_ws k)))
           (n\<lparr>dials := (dials n)(t := None), socks := (socks n)(c \<mapsto> k')\<rparr>))"

definition attempt_failed :: "session_conf \<Rightarrow> 'c codec \<Rightarrow> nat \<Rightarrow> 'c net \<Rightarrow> 'c net" where
  "attempt_failed cf cd t n = session_event cf cd (EvConnectFailed t) (n\<lparr>dials := (dials n)(t := None)\<rparr>)"

subsection \<open>Steps and runs\<close>

text \<open>
  \<open>NetApp\<close>: the application, timers and the other callbacks of the session. \<open>NetThrown\<close>: \<open>new WS(url)\<close> throws,
  which rejects the promise. \<open>NetDial\<close>, \<open>NetSock\<close>: an event of the socket of an attempt or of a connection.
  \<open>NetAwait\<close>: \<open>establish\<close> goes on behind \<open>await connect\<close>, if the promise has settled and the call waits for it.
\<close>

datatype net_event =
    NetApp event
  | NetThrown nat
  | NetDial nat ws_event
  | NetAwait nat
  | NetSock nat ws_event

fun from_transport :: "event \<Rightarrow> bool" where
  "from_transport (EvConnected t ac) = True"
| "from_transport (EvConnectFailed t) = True"
| "from_transport (EvMessage c bs) = True"
| "from_transport (EvClosed c) = True"
| "from_transport _ = False"

fun by_socket :: "ws_event \<Rightarrow> bool" where
  "by_socket WsOpen = True"
| "by_socket (WsMessage d) = True"
| "by_socket WsError = True"
| "by_socket WsClose = True"
| "by_socket _ = False"

definition connecting :: "nat \<Rightarrow> 'c session_client \<Rightarrow> bool" where
  "connecting t s = (case task_pc t s of Some (Connecting cl eps) \<Rightarrow> True | _ \<Rightarrow> False)"

fun net_step :: "session_conf \<Rightarrow> 'c codec \<Rightarrow> net_event \<Rightarrow> 'c net \<Rightarrow> 'c net" where
  "net_step cf cd (NetApp ev) n = (if from_transport ev then n else session_event cf cd ev n)"
| "net_step cf cd (NetThrown t) n =
     (if dials n t = Some new_socket \<and> connecting t (sess n) then attempt_failed cf cd t n else n)"
| "net_step cf cd (NetDial t e) n =
     (case dials n t of
        Some k \<Rightarrow> if by_socket e then n\<lparr>dials := (dials n)(t \<mapsto> sock_do e k)\<rparr> else n
      | None \<Rightarrow> n)"
| "net_step cf cd (NetAwait t) n =
     (case dials n t of
        Some k \<Rightarrow>
          if \<not> connecting t (sess n) then n
          else (case promise (so_ws k) of
              Promise_pending \<Rightarrow> n
            | Promise_rejected \<Rightarrow> attempt_failed cf cd t n
            | Promise_resolved \<Rightarrow> hand_out cf cd t k n)
      | None \<Rightarrow> n)"
| "net_step cf cd (NetSock c e) n = (if by_socket e then socket_event cf cd c e n else n)"

definition net_run :: "session_conf \<Rightarrow> 'c codec \<Rightarrow> net_event list \<Rightarrow> 'c \<Rightarrow> 'c net" where
  "net_run cf cd es cs = fold (net_step cf cd) es (net_new cs)"

end
