(* ===== verification/Session_Sockets_Correct.thy ===== *)
theory Session_Sockets_Correct
  imports Session_Sockets
begin

section \<open>The session and its sockets agree\<close>

text \<open>
  What a turn of the session does to its connections (\<open>grows\<close>), and the invariant of the composition: the
  session runs on the events it has heard, each connection has one socket, the frames of the socket since
  its registration are the messages the session heard on it, the calls on the socket are those the session made, and
  the session does not hold a connection whose socket has closed.
\<close>

subsection \<open>What a turn does to the connections\<close>

text \<open>New effects call only the current connection, and the session keeps it or gives it up.\<close>

definition grows :: "'c session_client \<Rightarrow> 'c session_client \<Rightarrow> bool" where
  "grows s u \<longleftrightarrow>
     (\<exists>fx. out u = out s @ fx \<and> (\<forall>c. conn s \<noteq> Some c \<longrightarrow> calls_on c fx = [])) \<and>
     (conn u = conn s \<or> conn u = None) \<and> nextConn u = nextConn s"

lemma calls_on_simps [simp]:
  "calls_on c [] = []"
  "calls_on c (e # fx) = call_on c e @ calls_on c fx"
  "calls_on c (fx @ fy) = calls_on c fx @ calls_on c fy"
  by (simp_all add: calls_on_def)

lemma calls_on_settled [simp]: "calls_on c (map (\<lambda>e. Settled (f e) (g e)) es) = []"
  by (induction es) simp_all

lemma grows_refl [simp]: "grows s s"
  by (simp add: grows_def)

lemma grows_trans [trans]: "grows s u \<Longrightarrow> grows u v \<Longrightarrow> grows s v"
  by (fastforce simp: grows_def)

lemma grows_still:
  "out u = out s \<Longrightarrow> conn u = conn s \<Longrightarrow> nextConn u = nextConn s \<Longrightarrow> grows s u"
  by (simp add: grows_def)

lemma grows_emit: "(\<And>c. call_on c e = []) \<Longrightarrow> grows s (emit e s)"
  by (simp add: grows_def emit_def)

text \<open>Rewriting the left side: updates that leave the connection and the effects alone.\<close>

lemma grows_from [simp]:
  "grows (s\<lparr>tasks := ts\<rparr>) u = grows s u" "grows (s\<lparr>micro := ms\<rparr>) u = grows s u"
  "grows (s\<lparr>codec_st := cs\<rparr>) u = grows s u" "grows (s\<lparr>pendings := ps\<rparr>) u = grows s u"
  "grows (s\<lparr>nonce := v, online := b\<rparr>) u = grows s u" "grows (s\<lparr>nonce := v\<rparr>) u = grows s u"
  "grows (s\<lparr>rid := w, nonce := v, recv := r, online := b\<rparr>) u = grows s u"
  "grows (s\<lparr>nextReqId := i\<rparr>) u = grows s u"
  "grows (s\<lparr>closed := b\<rparr>) u = grows s u"
  by (simp_all add: grows_def)

lemma grows_to [simp]:
  "grows s (u\<lparr>tasks := ts\<rparr>) = grows s u" "grows s (u\<lparr>codec_st := cs\<rparr>) = grows s u" "grows s (u\<lparr>micro := ms\<rparr>) = grows s u"
  "grows s (u\<lparr>pendings := ps\<rparr>) = grows s u" "grows s (u\<lparr>closed := b\<rparr>) = grows s u"
  "grows s (u\<lparr>loopsStarted := b\<rparr>) = grows s u" "grows s (u\<lparr>broken := bs\<rparr>) = grows s u"
  "grows s (u\<lparr>nonce := v\<rparr>) = grows s u" "grows s (u\<lparr>recv := r\<rparr>) = grows s u"
  "grows s (u\<lparr>tasks := ts, nextTask := nt\<rparr>) = grows s u"
  "grows s (set_task t p u) = grows s u" "grows s (end_task t u) = grows s u" "grows s (spawn p u) = grows s u"
  "grows s (supervisor_loop t u) = grows s u" "grows s (heartbeat_loop t m u) = grows s u"
  "grows s (start_loops u) = grows s u" "grows s (count u) = grows s u" "grows s (forget i u) = grows s u"
  "grows s (wake_all u) = grows s u"
  by (simp_all add: grows_def session_defs)

lemma grows_send: "grows s (snd (send cd i p s))"
  using send_out [of cd i p s] by (auto simp: grows_def)

lemma grows_request: "grows s (snd (request cd n a s))"
proof -
  let ?p = "\<lparr>pname = n, pparam = a\<rparr>"
  let ?s = "s\<lparr>nextReqId := nextReqId s + 1, pendings := pendings s @ [(nextReqId s + 1, ?p)]\<rparr>"
  show ?thesis using grows_send [of ?s cd "nextReqId s + 1" ?p] by (simp add: request_def Let_def)
qed

lemma grows_resolve: "grows s (resolve i v s)"
  by (auto simp: grows_def session_defs)

lemma grows_notify: "grows s (notifyState x s)"
  by (simp add: grows_emit notifyState_def)

lemma grows_drop: "grows s (drop_conn c s)"
  by (auto simp: grows_def drop_conn_def session_defs split: option.split)

lemma grows_resend: "grows s (resend_list cd ps s)"
proof (induction cd ps s rule: resend_list.induct)
  case (2 cd i p ps s)
  have "grows s (if uncounted (pname p) then resolve i JNull (forget i s) else snd (send cd i p s))"
    using grows_resolve [of "forget i s" i JNull] by (auto simp: grows_send forget_def)
  then show ?case using 2 by (auto intro: grows_trans)
qed simp

lemma grows_failPending: "grows s (failPending s)"
  by (auto simp: failPending_def) (simp add: grows_def)

lemma grows_return: "grows s (establish_return t cl ok s)"
  by (auto simp: establish_return_def intro!: grows_trans [OF _ grows_emit] split: caller.split)

lemma grows_fail: "grows s (establish_fail t cl c s)"
  unfolding establish_fail_def by (rule grows_trans [OF grows_drop grows_return])

lemmas grows_ops = grows_send grows_request grows_resolve grows_notify grows_drop grows_failPending grows_return grows_fail

lemma grows_resume_result: "grows s (resume_result cd t cl c v s)"
proof -
  have "grows s (resendPending cd (s\<lparr>nonce := w, online := True\<rparr>))" for w
    using grows_resend [of "s\<lparr>nonce := w, online := True\<rparr>"] by (simp add: resendPending_def)
  then show ?thesis
    by (auto simp: resume_result_def resume_failed_def Let_def grows_notify
        intro!: grows_trans [OF _ grows_return] grows_trans [OF _ grows_notify])
qed

lemma grows_login_result: "grows s (login_result t cl c v s)"
proof -
  have "grows s (failPending (s\<lparr>rid := w', nonce := w, recv := 0, online := True\<rparr>))" for w w'
    using grows_failPending [of "s\<lparr>rid := w', nonce := w, recv := 0, online := True\<rparr>"] by simp
  then show ?thesis
    by (auto simp: login_result_def Let_def grows_fail
        intro!: grows_trans [OF _ grows_return] grows_trans [OF _ grows_notify])
qed

lemma grows_ping_result: "grows s (ping_result cf t m c v s)"
proof -
  have "grows s (drop_conn c (s\<lparr>nonce := JNull\<rparr>))" using grows_drop [of "s\<lparr>nonce := JNull\<rparr>"] by simp
  then show ?thesis by (simp add: ping_result_def grows_drop)
qed

lemma grows_continue: "grows s (continue_with cf cd t p v s)"
  by (cases p) (simp_all add: grows_resume_result grows_login_result grows_ping_result)

lemma grows_wake: "grows s (wake cd t s)"
  by (simp add: wake_def heartbeat_wake_def split_beta grows_request split: option.split pc.split)

lemma grows_run_micro: "grows s (run_micro cf cd m s)"
  by (cases m) (simp_all add: run_micro_def settled_def grows_continue grows_wake split: option.split)

lemma grows_drain: "grows s (drain cf cd s)"
proof (rule drain_invariant)
  fix u m ms
  assume "grows s u"
  moreover have "grows u (run_micro cf cd m (u\<lparr>micro := ms\<rparr>))"
    using grows_run_micro [of "u\<lparr>micro := ms\<rparr>"] by simp
  ultimately show "grows s (run_micro cf cd m (u\<lparr>micro := ms\<rparr>))" by (rule grows_trans)
qed simp

lemma grows_connect_next: "grows s (connect_next t cl eps s)"
  by (cases eps) (simp_all add: grows_return grows_emit)

lemma grows_close: "grows s (close s)"
proof -
  let ?s = "failPending (s\<lparr>closed := True\<rparr>)"
  have "grows s ?s" using grows_failPending [of "s\<lparr>closed := True\<rparr>"] by simp
  moreover have "grows ?s (close s)"
    by (auto simp: grows_def close_def Let_def session_defs split: option.split)
  ultimately show ?thesis by (rule grows_trans)
qed

lemma grows_handle: "grows s (handle cd bs s)"
  by (auto simp: handle_def Let_def intro!: grows_trans [OF _ grows_emit] grows_trans [OF _ grows_resolve]
      split: prod.split option.split codec_result.split)

text \<open>Every event but the arrival of a connection.\<close>

lemma grows_event:
  assumes "\<And>t ac. ev \<noteq> EvConnected t ac"
  shows "grows s (on_event cf cd ev s)"
proof (cases ev)
  case EvStart
  then show ?thesis by (simp add: start_def)
next
  case (EvLoginParam t r)
  have "grows s (login_param_ready cd t cl c r s)" for cl c
    by (simp add: login_param_ready_def split_beta grows_ops split: option.split)
  then show ?thesis by (simp add: EvLoginParam on_task_def split: option.split pc.split)
qed (use assms in \<open>simp_all add: grows_ops grows_close grows_handle grows_wake grows_continue grows_connect_next reconnect_def
    invalidateNonce_def on_task_def endpoints_ready_def split: option.split pc.split\<close>)

lemma grows_turn: "(\<And>t ac. ev \<noteq> EvConnected t ac) \<Longrightarrow> grows s (turn cf cd ev s)"
  unfolding turn_def by (rule grows_trans [OF grows_event grows_drain])

text \<open>The arrival of one.\<close>

lemma grows_tryResume: "grows s (tryResume cd t cl c s)"
  by (simp add: tryResume_def resume_failed_def split_beta grows_request grows_notify)

lemma tryResume_frame [simp]:
  "conn (tryResume cd t cl c s) = conn s" "micro (tryResume cd t cl c s) = micro s"
  by (simp_all add: tryResume_def resume_failed_def split_beta session_defs)

lemma connected_via:
  obtains v where "grows v (connected cd t cl ac s)" and "micro (connected cd t cl ac s) = micro s"
    and "conn (connected cd t cl ac s) = conn v" and "nextConn v = Suc (nextConn s)"
    and "\<exists>fx. out v = out s @ fx \<and> (\<forall>c. c \<noteq> nextConn s \<longrightarrow> calls_on c fx = [])"
    and "conn v = (if closed s then conn s else if ac then None else Some (nextConn s))"
proof -
  let ?c = "nextConn s" and ?s = "s\<lparr>nextConn := Suc (nextConn s)\<rparr>"
  show ?thesis
  proof (cases "closed s")
    case True
    then have "connected cd t cl ac s = establish_return t cl False (emit (ConnClose ?c) ?s)"
      by (simp add: connected_def Let_def)
    then show ?thesis using True
      by (intro that [of "emit (ConnClose ?c) ?s"]) (simp_all add: grows_return emit_def)
  next
    case False
    let ?v = "if ac then drop_conn (Some ?c) (?s\<lparr>conn := Some ?c\<rparr>) else ?s\<lparr>conn := Some ?c\<rparr>"
    have "connected cd t cl ac s = tryResume cd t cl ?c ?v" using False by (simp add: connected_def Let_def)
    then show ?thesis using False
      by (intro that [of ?v]) (simp_all add: grows_tryResume drop_conn_def session_defs)
  qed
qed

lemma turn_connected:
  assumes "connecting t s" and "micro s = []" and "closed s \<longrightarrow> conn s = None"
  shows "\<exists>fx. out (turn cf cd (EvConnected t ac) s) = out s @ fx \<and> (\<forall>c. c \<noteq> nextConn s \<longrightarrow> calls_on c fx = [])"
    and "nextConn (turn cf cd (EvConnected t ac) s) = Suc (nextConn s)"
    and "conn (turn cf cd (EvConnected t ac) s) = (if closed s \<or> ac then None else Some (nextConn s))"
proof -
  obtain cl eps where pc: "task_pc t s = Some (Connecting cl eps)"
    using assms(1) by (auto simp: connecting_def split: option.splits pc.splits)
  let ?u = "connected cd t cl ac s"
  obtain v fx where v: "grows v ?u" "micro ?u = micro s" "conn ?u = conn v" "nextConn v = Suc (nextConn s)"
      "out v = out s @ fx" "\<forall>c. c \<noteq> nextConn s \<longrightarrow> calls_on c fx = []"
      "conn v = (if closed s then conn s else if ac then None else Some (nextConn s))"
    by (rule connected_via [of cd t cl ac s]) blast
  have turn: "turn cf cd (EvConnected t ac) s = ?u" using v(2) assms(2) by (simp add: turn_def on_task_def pc)
  obtain fy where "out ?u = out v @ fy" and "\<forall>c. conn v \<noteq> Some c \<longrightarrow> calls_on c fy = []" and "nextConn ?u = nextConn v"
    using v(1) by (auto simp: grows_def)
  moreover have "conn v \<noteq> Some c" if "c \<noteq> nextConn s" for c using v(7) assms(3) that by auto
  ultimately have "out ?u = out s @ (fx @ fy) \<and> (\<forall>c. c \<noteq> nextConn s \<longrightarrow> calls_on c (fx @ fy) = [])"
    and "nextConn ?u = Suc (nextConn s)" using v(4-6) by auto
  then show "\<exists>fx. out (turn cf cd (EvConnected t ac) s) = out s @ fx \<and> (\<forall>c. c \<noteq> nextConn s \<longrightarrow> calls_on c fx = [])"
    and "nextConn (turn cf cd (EvConnected t ac) s) = Suc (nextConn s)" unfolding turn by blast+
  show "conn (turn cf cd (EvConnected t ac) s) = (if closed s \<or> ac then None else Some (nextConn s))"
    unfolding turn v(3,7) using assms(3) by simp
qed

subsection \<open>What the logs say\<close>

text \<open>The binary frames that arrive once a message callback is registered.\<close>

fun frames :: "bool \<Rightarrow> ws_event list \<Rightarrow> byte list list" where
  "frames r [] = []"
| "frames r (WsOnMessage cb # es) = frames True es"
| "frames r (WsMessage (ArrayBuffer bs) # es) = (if r then bs # frames r es else frames r es)"
| "frames r (_ # es) = frames r es"

fun message_on :: "nat \<Rightarrow> event \<Rightarrow> byte list list" where
  "message_on c (EvMessage d bs) = (if d = c then [bs] else [])"
| "message_on c _ = []"

definition heard_on :: "nat \<Rightarrow> event list \<Rightarrow> byte list list" where
  "heard_on c evs = concat (map (message_on c) evs)"

fun is_call :: "ws_event \<Rightarrow> bool" where
  "is_call (WsSend bs) = True"
| "is_call WsCloseCall = True"
| "is_call _ = False"

lemma heard_on_simps [simp]: "heard_on c [] = []" "heard_on c (evs @ [ev]) = heard_on c evs @ message_on c ev"
  by (simp_all add: heard_on_def)

lemma last_cb_Some: "last_cb f (Some x) es \<noteq> None"
  by (induction es arbitrary: x) (auto split: option.split)

lemma frames_append:
  "frames (cb \<noteq> None) (es @ fs) = frames (cb \<noteq> None) es @ frames (last_cb message_cb cb es \<noteq> None) fs"
proof (induction es arbitrary: cb)
  case (Cons e es)
  show ?case
  proof (cases e)
    case (WsMessage d)
    then show ?thesis using Cons [of cb] by (cases d; cases cb) simp_all
  next
    case (WsOnMessage n)
    then show ?thesis using Cons [of "Some n"] by simp
  qed (use Cons [of cb] in simp_all)
qed simp

lemma calls_are_calls: "e \<in> set (calls_on c fx) \<Longrightarrow> is_call e"
proof (induction fx)
  case (Cons x fx)
  then show ?case by (cases x) (auto split: if_splits)
qed simp

subsection \<open>Sockets\<close>

definition socket_ok :: "socket \<Rightarrow> bool" where
  "socket_ok k \<longleftrightarrow> ws_run (so_log k) (so_ws k)"

lemma sock_do_simps [simp]: "so_log (sock_do e k) = so_log k @ [e]" "so_ws (sock_do e k) = ws_apply e (so_ws k)"
  by (simp_all add: sock_do_def)

lemma new_socket_ok [simp]: "socket_ok new_socket"
  by (simp add: socket_ok_def new_socket_def ws_run.start')

lemma socket_step:
  assumes "socket_ok k" and "by_socket e \<or> promise (so_ws k) = Promise_resolved"
  shows "socket_ok (sock_do e k)"
proof -
  have "ws_step (so_ws k) e (ws_apply e (so_ws k))" using assms(2) by (cases e) simp_all
  then show ?thesis using assms(1) by (auto simp: socket_ok_def intro: ws_run.step)
qed

lemma apply_resolved: "promise w = Promise_resolved \<Longrightarrow> promise (ws_apply e w) = Promise_resolved"
  by (cases e) (simp_all add: ws_defs Let_def split: ws_data.split)

lemma socket_frames:
  "socket_ok k \<Longrightarrow> frames False (so_log k @ [e]) = frames False (so_log k) @ frames (messageCb (so_ws k) \<noteq> None) [e]"
  using ws_run_contract [of "so_log k" "so_ws k"] frames_append [of None "so_log k" "[e]"]
  by (simp add: socket_ok_def)

text \<open>A connection's socket, against the events heard, the effects and the connection of the session.\<close>

definition in_step :: "nat \<Rightarrow> event list \<Rightarrow> effect list \<Rightarrow> nat option \<Rightarrow> socket \<Rightarrow> bool" where
  "in_step c evs fx cn k \<longleftrightarrow>
     socket_ok k \<and> promise (so_ws k) = Promise_resolved \<and>
     messageCb (so_ws k) \<in> {None, Some c} \<and> closedCb (so_ws k) \<in> {None, Some c} \<and>
     frames False (so_log k) = heard_on c evs \<and> filter is_call (so_log k) = calls_on c fx \<and>
     (cn = Some c \<longrightarrow>
        messageCb (so_ws k) = Some c \<and> closedCb (so_ws k) = Some c \<and> \<not> closedNotified (so_ws k))"

lemma in_step_conn: "in_step c evs fx cn k \<Longrightarrow> cn' = cn \<or> cn' = None \<Longrightarrow> in_step c evs fx cn' k"
  by (auto simp: in_step_def)

lemma in_step_call:
  "in_step c evs fx cn k \<Longrightarrow> is_call e \<Longrightarrow> call_on c x = [e] \<Longrightarrow> in_step c evs (fx @ [x]) cn (sock_do e k)"
  by (cases e) (auto simp: in_step_def socket_step socket_frames apply_resolved ws_defs)

lemma in_step_none: "in_step c evs fx cn k \<Longrightarrow> call_on c x = [] \<Longrightarrow> in_step c evs (fx @ [x]) cn k"
  by (simp add: in_step_def)

lemma in_step_calls: "in_step c evs fx cn k \<Longrightarrow> in_step c evs (fx @ gx) cn (fold sock_do (calls_on c gx) k)"
proof (induction gx arbitrary: fx k)
  case (Cons x gx)
  have "in_step c evs (fx @ [x]) cn (fold sock_do (call_on c x) k)"
    by (cases x) (auto intro: in_step_none in_step_call Cons.prems)
  from Cons.IH [OF this] show ?case by simp
qed simp

subsection \<open>The invariant\<close>

definition dial_ok :: "socket \<Rightarrow> bool" where
  "dial_ok k \<longleftrightarrow> socket_ok k \<and> list_all by_socket (so_log k)"

definition net_ok :: "session_conf \<Rightarrow> 'c codec \<Rightarrow> 'c \<Rightarrow> 'c net \<Rightarrow> bool" where
  "net_ok cf cd cs n \<longleftrightarrow>
     sess n = run cf cd (heard n) (new_session cs) \<and>
     (\<forall>t k. dials n t = Some k \<longrightarrow> dial_ok k) \<and>
     (\<forall>c. socks n c \<noteq> None \<longleftrightarrow> c < nextConn (sess n)) \<and>
     (\<forall>c k. socks n c = Some k \<longrightarrow> in_step c (heard n) (out (sess n)) (conn (sess n)) k) \<and>
     (\<forall>c. nextConn (sess n) \<le> c \<longrightarrow> heard_on c (heard n) = [] \<and> calls_on c (out (sess n)) = [])"

lemma net_okD:
  assumes "net_ok cf cd cs n"
  shows "sess n = run cf cd (heard n) (new_session cs)" and "dials n t = Some k \<Longrightarrow> dial_ok k"
    and "socks n c \<noteq> None \<longleftrightarrow> c < nextConn (sess n)"
    and "socks n c = Some k \<Longrightarrow> in_step c (heard n) (out (sess n)) (conn (sess n)) k"
    and "nextConn (sess n) \<le> c \<Longrightarrow> heard_on c (heard n) = []"
    and "nextConn (sess n) \<le> c \<Longrightarrow> calls_on c (out (sess n)) = []"
    and "micro (sess n) = []" and "link (sess n)"
proof -
  show r: "sess n = run cf cd (heard n) (new_session cs)" using assms by (simp add: net_ok_def)
  show "micro (sess n) = []" unfolding r by (rule run_micro_Nil) (simp add: new_session_def)
  have "link_inv (sess n)" unfolding r by (rule link_inv.run_keeps) (rule link_new, simp add: new_session_def)
  then show "link (sess n)" by (simp add: link_inv_def)
qed (use assms in \<open>auto simp: net_ok_def\<close>)

lemma net_ok_new: "net_ok cf cd cs (net_new cs)"
  by (simp add: net_ok_def net_new_def) (simp add: new_session_def)

text \<open>One turn of the session, when the sockets have caught up with the event.\<close>

lemma session_event_ok:
  assumes "sess n = run cf cd (heard n) (new_session cs)"
    and "\<And>t k. dials n t = Some k \<Longrightarrow> dial_ok k"
    and "out (turn cf cd ev (sess n)) = out (sess n) @ fx"
    and "\<And>c. socks n c \<noteq> None \<longleftrightarrow> c < nextConn (turn cf cd ev (sess n))"
    and "\<And>c k. socks n c = Some k \<Longrightarrow> in_step c (heard n @ [ev]) (out (sess n)) (conn (turn cf cd ev (sess n))) k"
    and "\<And>c. nextConn (turn cf cd ev (sess n)) \<le> c \<Longrightarrow>
        heard_on c (heard n) = [] \<and> message_on c ev = [] \<and> calls_on c (out (sess n)) = [] \<and> calls_on c fx = []"
  shows "net_ok cf cd cs (session_event cf cd ev n)"
proof -
  have "dial_ok new_socket" by (simp add: dial_ok_def) (simp add: new_socket_def)
  then show ?thesis using assms
    by (auto simp: net_ok_def session_event_def Let_def run_append in_step_calls split: option.split)
qed

text \<open>Events of the application, and failed attempts.\<close>

lemma other_event_ok:
  assumes "net_ok cf cd cs n" and "\<And>t ac. ev \<noteq> EvConnected t ac" and "\<And>c. message_on c ev = []"
  shows "net_ok cf cd cs (session_event cf cd ev n)"
proof -
  obtain fx where out: "out (turn cf cd ev (sess n)) = out (sess n) @ fx"
    and fx: "\<And>c. conn (sess n) \<noteq> Some c \<Longrightarrow> calls_on c fx = []"
    and cn: "conn (turn cf cd ev (sess n)) = conn (sess n) \<or> conn (turn cf cd ev (sess n)) = None"
    and nx: "nextConn (turn cf cd ev (sess n)) = nextConn (sess n)"
    using grows_turn [OF assms(2), of "sess n" cf cd] by (auto simp: grows_def)
  note n = net_okD [OF assms(1)]
  show ?thesis
  proof (rule session_event_ok [OF n(1) n(2) out])
    fix c k
    assume "socks n c = Some k"
    from in_step_conn [OF n(4) [OF this] cn]
    show "in_step c (heard n @ [ev]) (out (sess n)) (conn (turn cf cd ev (sess n))) k"
      by (simp add: in_step_def assms(3))
  next
    fix c
    assume "nextConn (turn cf cd ev (sess n)) \<le> c"
    then have "nextConn (sess n) \<le> c" and "conn (sess n) \<noteq> Some c" using n(8) nx by (auto simp: link_def)
    then show "heard_on c (heard n) = [] \<and> message_on c ev = [] \<and> calls_on c (out (sess n)) = [] \<and> calls_on c fx = []"
      using n(5,6) assms(3) fx by simp
  qed (use n(3) nx in \<open>simp_all\<close>)
qed

lemma net_ok_dials:
  "net_ok cf cd cs n \<Longrightarrow> (\<And>t k. ds t = Some k \<Longrightarrow> dials n t = Some k \<or> dial_ok k) \<Longrightarrow> net_ok cf cd cs (n\<lparr>dials := ds\<rparr>)"
  by (fastforce simp: net_ok_def)

lemma attempt_failed_ok: "net_ok cf cd cs n \<Longrightarrow> net_ok cf cd cs (attempt_failed cf cd t n)"
proof -
  assume "net_ok cf cd cs n"
  then have "net_ok cf cd cs (n\<lparr>dials := (dials n)(t := None)\<rparr>)" by (rule net_ok_dials) (simp split: if_splits)
  then show ?thesis unfolding attempt_failed_def by (rule other_event_ok) simp_all
qed

text \<open>A connection is handed out.\<close>

lemma dial_state:
  assumes "dial_ok k"
  shows "messageCb (so_ws k) = None" "closedCb (so_ws k) = None" "frames False (so_log k) = []" "filter is_call (so_log k) = []"
proof -
  have "list_all by_socket es \<Longrightarrow> last_cb message_cb None es = None \<and> last_cb closed_cb None es = None \<and>
      frames False es = [] \<and> filter is_call es = []" for es
  proof (induction es)
    case (Cons e es)
    show ?case
    proof (cases e)
      case (WsMessage d)
      then show ?thesis using Cons by (cases d) simp_all
    qed (use Cons in simp_all)
  qed simp
  then show "messageCb (so_ws k) = None" "closedCb (so_ws k) = None" "frames False (so_log k) = []" "filter is_call (so_log k) = []"
    using assms ws_run_contract [of "so_log k" "so_ws k"] by (auto simp: dial_ok_def socket_ok_def)
qed

lemma hand_out_ok:
  assumes "net_ok cf cd cs n" and "dial_ok k" and "promise (so_ws k) = Promise_resolved" and "connecting t (sess n)"
  shows "net_ok cf cd cs (hand_out cf cd t k n)"
proof -
  note n = net_okD [OF assms(1)] and d = dial_state [OF assms(2)]
  let ?c = "nextConn (sess n)" and ?ac = "closedNotified (so_ws k)" and ?s = "sess n"
  let ?k = "if closed ?s then k else sock_do (WsOnClosed ?c) (sock_do (WsOnMessage ?c) k)"
  let ?n = "n\<lparr>dials := (dials n)(t := None), socks := (socks n)(?c \<mapsto> ?k)\<rparr>" and ?ev = "EvConnected t ?ac"
  have link: "closed ?s \<longrightarrow> conn ?s = None" using n(8) by (simp add: link_def)
  obtain fx where out: "out (turn cf cd ?ev ?s) = out ?s @ fx" and fx: "\<And>c. c \<noteq> ?c \<Longrightarrow> calls_on c fx = []"
    using turn_connected(1) [OF assms(4) n(7) link, of cf cd ?ac] by blast
  note nx = turn_connected(2) [OF assms(4) n(7) link, of cf cd ?ac]
    and cn = turn_connected(3) [OF assms(4) n(7) link, of cf cd ?ac]
  have k: "socket_ok k" using assms(2) by (simp add: dial_ok_def)
  have new: "in_step ?c (heard n) (out ?s) (conn (turn cf cd ?ev ?s)) ?k"
  proof (cases "closed ?s")
    case True
    then show ?thesis using assms(3) d k n(5,6) [of ?c] cn by (simp add: in_step_def)
  next
    case False
    let ?k1 = "sock_do (WsOnMessage ?c) k"
    have k1: "socket_ok ?k1" "promise (so_ws ?k1) = Promise_resolved"
      using socket_step [OF k] assms(3) by (simp_all add: onMessage_def)
    moreover have "frames False (so_log (sock_do (WsOnClosed ?c) ?k1)) = []"
      using socket_frames [OF k, of "WsOnMessage ?c"] socket_frames [OF k1(1), of "WsOnClosed ?c"] d(3) by simp
    ultimately show ?thesis using False d(4) n(5,6) [of ?c] cn
      by (auto simp: in_step_def socket_step apply_resolved) (auto simp: ws_defs Let_def)
  qed
  show ?thesis unfolding hand_out_def Let_def
  proof (rule session_event_ok)
    show "out (turn cf cd ?ev (sess ?n)) = out (sess ?n) @ fx" using out by simp
  next
    fix c k'
    assume "socks ?n c = Some k'"
    then consider "c = ?c" "k' = ?k" | "c \<noteq> ?c" "socks n c = Some k'" by (auto split: if_splits)
    then have "in_step c (heard n) (out ?s) (conn (turn cf cd ?ev ?s)) k'"
    proof cases
      case 2
      with n(4) cn show ?thesis by (fastforce simp: in_step_def split: if_splits)
    qed (use new in simp)
    then show "in_step c (heard ?n @ [?ev]) (out (sess ?n)) (conn (turn cf cd ?ev (sess ?n))) k'"
      by (simp add: in_step_def)
  next
    fix c
    assume "nextConn (turn cf cd ?ev (sess ?n)) \<le> c"
    then have "?c < c" using nx by simp
    then show "heard_on c (heard ?n) = [] \<and> message_on c ?ev = [] \<and> calls_on c (out (sess ?n)) = [] \<and> calls_on c fx = []"
      using n(5,6) fx by simp
  qed (use n(1-3) nx in \<open>auto split: if_splits\<close>)
qed

text \<open>An event of the socket of a connection.\<close>

lemma socket_quiet:
  assumes "net_ok cf cd cs n" and "socks n c = Some k"
    and "in_step c (heard n) (out (sess n)) (conn (sess n)) (sock_do e k)"
  shows "net_ok cf cd cs (n\<lparr>socks := (socks n)(c \<mapsto> sock_do e k)\<rparr>)"
proof -
  note n = net_okD [OF assms(1)]
  have c: "c < nextConn (sess n)" using n(3) [of c] assms(2) by simp
  let ?n = "n\<lparr>socks := (socks n)(c \<mapsto> sock_do e k)\<rparr>"
  have "sess ?n = run cf cd (heard ?n) (new_session cs)" using n(1) by simp
  moreover have "\<forall>t k. dials ?n t = Some k \<longrightarrow> dial_ok k" using n(2) by simp
  moreover have "\<forall>d. socks ?n d \<noteq> None \<longleftrightarrow> d < nextConn (sess ?n)" using n(3) c by auto
  moreover have "\<forall>d k. socks ?n d = Some k \<longrightarrow> in_step d (heard ?n) (out (sess ?n)) (conn (sess ?n)) k"
    using n(4) assms(3) by simp
  moreover have "\<forall>d. nextConn (sess ?n) \<le> d \<longrightarrow> heard_on d (heard ?n) = [] \<and> calls_on d (out (sess ?n)) = []"
    using n(5,6) by simp
  ultimately show ?thesis unfolding net_ok_def by (intro conjI)
qed

text \<open>A message or the closing reaches the session.\<close>

lemma socket_heard:
  assumes "net_ok cf cd cs n" and "socks n c = Some k" and "\<And>t ac. ev \<noteq> EvConnected t ac"
    and "\<And>d. d \<noteq> c \<Longrightarrow> message_on d ev = []"
    and "in_step c (heard n @ [ev]) (out (sess n)) (conn (turn cf cd ev (sess n))) (sock_do e k)"
  shows "net_ok cf cd cs (session_event cf cd ev (n\<lparr>socks := (socks n)(c \<mapsto> sock_do e k)\<rparr>))"
proof -
  note n = net_okD [OF assms(1)]
  let ?n = "n\<lparr>socks := (socks n)(c \<mapsto> sock_do e k)\<rparr>"
  obtain fx where out: "out (turn cf cd ev (sess n)) = out (sess n) @ fx"
    and fx: "\<And>c. conn (sess n) \<noteq> Some c \<Longrightarrow> calls_on c fx = []"
    and cn: "conn (turn cf cd ev (sess n)) = conn (sess n) \<or> conn (turn cf cd ev (sess n)) = None"
    and nx: "nextConn (turn cf cd ev (sess n)) = nextConn (sess n)"
    using grows_turn [OF assms(3), of "sess n" cf cd] by (auto simp: grows_def)
  have c: "c < nextConn (sess n)" using n(3) [of c] assms(2) by simp
  show ?thesis
  proof (rule session_event_ok)
    show "out (turn cf cd ev (sess ?n)) = out (sess ?n) @ fx" using out by simp
  next
    fix d k'
    assume s: "socks ?n d = Some k'"
    show "in_step d (heard ?n @ [ev]) (out (sess ?n)) (conn (turn cf cd ev (sess ?n))) k'"
    proof (cases "d = c")
      case True
      then show ?thesis using s assms(5) by simp
    next
      case False
      then have "in_step d (heard n) (out (sess n)) (conn (turn cf cd ev (sess n))) k'"
        using s n(4) cn by (auto intro: in_step_conn)
      then show ?thesis using assms(4) [OF False] by (simp add: in_step_def)
    qed
  next
    fix d
    assume "nextConn (turn cf cd ev (sess ?n)) \<le> d"
    then have "nextConn (sess n) \<le> d" and "conn (sess n) \<noteq> Some d" and "d \<noteq> c" using n(8) nx c by (auto simp: link_def)
    then show "heard_on d (heard ?n) = [] \<and> message_on d ev = [] \<and> calls_on d (out (sess ?n)) = [] \<and> calls_on d fx = []"
      using n(5,6) assms(4) fx by simp
  qed (use n(1-3) nx c in \<open>auto split: if_splits\<close>)
qed

lemma conn_after_closed: "micro s = [] \<Longrightarrow> conn (turn cf cd (EvClosed c) s) \<noteq> Some c"
  by (simp add: turn_def) (simp add: drop_conn_def session_defs)

lemma socket_event_ok:
  assumes "net_ok cf cd cs n" and "by_socket e"
  shows "net_ok cf cd cs (socket_event cf cd c e n)"
proof (cases "socks n c")
  case None
  then show ?thesis using assms(1) by (simp add: socket_event_def)
next
  case (Some k)
  note n = net_okD [OF assms(1)]
  have k: "in_step c (heard n) (out (sess n)) (conn (sess n)) k" by (rule n(4) [OF Some])
  then have ok: "socket_ok k" by (simp add: in_step_def)
  note step = socket_step [OF ok, of e] socket_frames [OF ok, of e]
  show ?thesis
  proof (cases e)
    case WsOpen
    with k step have "in_step c (heard n) (out (sess n)) (conn (sess n)) (sock_do e k)"
      by (auto simp: in_step_def ws_defs)
    from socket_quiet [OF assms(1) Some this] show ?thesis
      using WsOpen Some by (simp add: socket_event_def ws_defs)
  next
    case WsError
    with k step have "in_step c (heard n) (out (sess n)) (conn (sess n)) (sock_do e k)"
      by (auto simp: in_step_def ws_defs)
    from socket_quiet [OF assms(1) Some this] show ?thesis
      using WsError Some by (simp add: socket_event_def ws_defs)
  next
    case (WsMessage d)
    show ?thesis
    proof (cases "\<exists>bs. d = ArrayBuffer bs \<and> messageCb (so_ws k) \<noteq> None")
      case True
      then obtain bs where d: "d = ArrayBuffer bs" and cb: "messageCb (so_ws k) = Some c"
        using k by (auto simp: in_step_def)
      let ?ev = "EvMessage c bs"
      have "conn (turn cf cd ?ev (sess n)) = conn (sess n) \<or> conn (turn cf cd ?ev (sess n)) = None"
        using grows_turn [of ?ev "sess n" cf cd] by (auto simp: grows_def)
      with k step WsMessage d cb
      have "in_step c (heard n @ [?ev]) (out (sess n)) (conn (turn cf cd ?ev (sess n))) (sock_do e k)"
        by (auto simp: in_step_def ws_defs)
      from socket_heard [OF assms(1) Some _ _ this] show ?thesis
        using WsMessage d cb Some by (simp add: socket_event_def ws_defs)
    next
      case False
      with k step WsMessage have "in_step c (heard n) (out (sess n)) (conn (sess n)) (sock_do e k)"
        by (cases d) (auto simp: in_step_def ws_defs)
      from socket_quiet [OF assms(1) Some this] show ?thesis
        using WsMessage False Some by (cases d) (auto simp: socket_event_def ws_defs)
    qed
  next
    case WsClose
    show ?thesis
    proof (cases "opened (so_ws k) \<and> \<not> closedNotified (so_ws k) \<and> closedCb (so_ws k) \<noteq> None")
      case True
      then have cb: "closedCb (so_ws k) = Some c" using k by (auto simp: in_step_def)
      let ?ev = "EvClosed c"
      have "conn (turn cf cd ?ev (sess n)) \<noteq> Some c" by (rule conn_after_closed [OF n(7)])
      with k step WsClose True
      have "in_step c (heard n @ [?ev]) (out (sess n)) (conn (turn cf cd ?ev (sess n))) (sock_do e k)"
        by (auto simp: in_step_def ws_defs)
      from socket_heard [OF assms(1) Some _ _ this] show ?thesis
        using WsClose True cb Some by (simp add: socket_event_def ws_defs)
    next
      case False
      with k step WsClose have "in_step c (heard n) (out (sess n)) (conn (sess n)) (sock_do e k)"
        by (auto simp: in_step_def ws_defs)
      from socket_quiet [OF assms(1) Some this] show ?thesis
        using WsClose False Some by (auto simp: socket_event_def ws_defs)
    qed
  qed (use assms(2) in simp_all)
qed

lemma message_elsewhere: "\<not> from_transport ev \<Longrightarrow> message_on c ev = []"
  by (cases ev) simp_all

lemma net_step_ok: "net_ok cf cd cs n \<Longrightarrow> net_ok cf cd cs (net_step cf cd e n)"
proof (cases e)
  assume n: "net_ok cf cd cs n"
  {
    case (NetApp ev)
    have "net_ok cf cd cs (session_event cf cd ev n)" if "\<not> from_transport ev"
      using n by (rule other_event_ok) (use that in \<open>auto simp: message_elsewhere\<close>)
    then show ?thesis using NetApp n by simp
  next
    case (NetThrown t)
    then show ?thesis using n by (simp add: attempt_failed_ok)
  next
    case (NetDial t e')
    show ?thesis
    proof (cases "dials n t")
      case (Some k)
      have "dial_ok (sock_do e' k)" if "by_socket e'"
        using net_okD(2) [OF n Some] that by (simp add: dial_ok_def socket_step)
      then show ?thesis using NetDial Some n by (auto intro!: net_ok_dials split: if_splits)
    qed (use NetDial n in simp)
  next
    case (NetAwait t)
    then show ?thesis using n net_okD(2) [OF n]
      by (auto simp: attempt_failed_ok hand_out_ok split: option.split ws_promise.split)
  next
    case (NetSock c e')
    then show ?thesis using n by (simp add: socket_event_ok)
  }
qed

lemma net_run_ok: "net_ok cf cd cs (net_run cf cd es cs)"
proof -
  have "net_ok cf cd cs n \<Longrightarrow> net_ok cf cd cs (fold (net_step cf cd) es n)" for n
    by (induction es arbitrary: n) (simp_all add: net_step_ok)
  then show ?thesis by (simp add: net_run_def net_ok_new)
qed

end
