(* ===== verification/Session_Closed.thy ===== *)
theory Session_Closed
  imports Session_Sockets_Correct Session_Count
begin

section \<open>A session that has been closed\<close>

text \<open>
  What is left of a session after \<open>close\<close>: calls that wait for endpoints, a connection, the login parameters or a timer
  come back one by one. None of them sends a packet, keeps a connection or touches the codec, which the facade
  hands to its next session.
\<close>

definition finished :: "'c session_client \<Rightarrow> bool" where
  "finished s \<longleftrightarrow> closed s \<and> conn s = None \<and> quiet s"

definition rests :: "'c session_client \<Rightarrow> 'c session_client \<Rightarrow> bool" where
  "rests s u \<longleftrightarrow> finished u \<and> codec_st u = codec_st s"

lemma codec_frame [simp]:
  "codec_st (emit e s) = codec_st s" "codec_st (notifyState x s) = codec_st s" "codec_st (set_task t p s) = codec_st s"
  "codec_st (end_task t s) = codec_st s" "codec_st (spawn p s) = codec_st s" "codec_st (wake_all s) = codec_st s"
  "codec_st (failPending s) = codec_st s" "codec_st (drop_conn c s) = codec_st s"
  "codec_st (supervisor_loop t s) = codec_st s" "codec_st (heartbeat_loop t m s) = codec_st s"
  "codec_st (start_loops s) = codec_st s" "codec_st (establish_return t cl ok s) = codec_st s"
  "codec_st (establish_fail t cl c' s) = codec_st s" "codec_st (connect_next t cl eps s) = codec_st s"
  by (cases eps; simp add: session_defs failPending_def drop_conn_def start_loops_def Let_def establish_return_def
      establish_fail_def split: option.split caller.split)+

lemma place_frame [simp]:
  "closed (emit e s) = closed s" "conn (emit e s) = conn s" "closed (notifyState x s) = closed s" "conn (notifyState x s) = conn s"
  "closed (set_task t p s) = closed s" "conn (set_task t p s) = conn s" "closed (end_task t s) = closed s"
  "conn (end_task t s) = conn s" "closed (wake_all s) = closed s" "conn (wake_all s) = conn s"
  "closed (failPending s) = closed s" "conn (failPending s) = conn s"
  "closed (connect_next t cl eps s) = closed s" "conn (connect_next t cl eps s) = conn s"
  by (cases eps; simp add: session_defs failPending_def)+

lemma codec_request_closed [simp]: "conn s = None \<Longrightarrow> codec_st (snd (request cd n a s)) = codec_st s"
  by (simp add: request_def Let_def send_def)

lemma drop_None [simp]: "conn s = None \<Longrightarrow> drop_conn c s = s"
  by (simp add: drop_conn_def split: option.split)

lemma establish_fail_frame [simp]:
  "closed (establish_fail t cl c s) = closed s" "conn s = None \<Longrightarrow> conn (establish_fail t cl c s) = None"
  by (simp_all add: establish_fail_def)

lemma rests_refl: "finished s \<Longrightarrow> rests s s"
  by (simp add: rests_def)

lemma rests_continue: "finished s \<Longrightarrow> \<not> resp_ok v \<Longrightarrow> rests s (continue_with cf cd t p v s)"
  by (cases p) (simp_all add: rests_def finished_def, simp_all add: resume_result_def resume_failed_def login_result_def ping_result_def)

lemma rests_wake: "finished s \<Longrightarrow> rests s (wake cd t s)"
  by (auto simp: rests_def finished_def wake_def heartbeat_wake_def split: option.split pc.split)

lemma rests_run_micro: "finished s \<Longrightarrow> \<not> accepting m \<Longrightarrow> rests s (run_micro cf cd m s)"
  by (cases m) (auto simp: run_micro_def settled_def rests_continue rests_wake rests_refl split: option.split)

lemma rests_drain:
  assumes "finished s"
  shows "rests s (drain cf cd s)"
proof (rule drain_invariant)
  fix u m ms
  assume u: "rests s u" "micro u = m # ms"
  then have "finished (u\<lparr>micro := ms\<rparr>)" and "\<not> accepting m" by (auto simp: rests_def finished_def quiet_def)
  from rests_run_micro [OF this] u(1) show "rests s (run_micro cf cd m (u\<lparr>micro := ms\<rparr>))" by (simp add: rests_def)
qed (use assms in \<open>simp add: rests_def\<close>)

lemma rests_connected: "finished s \<Longrightarrow> rests s (connected cd t cl ac s)"
  by (simp add: rests_def finished_def connected_def Let_def)

text \<open>The first turn after \<open>close\<close> and every later one, except a new \<open>start\<close>.\<close>

lemma rests_event:
  assumes "finished s" and "ev \<noteq> EvStart"
  shows "rests s (on_event cf cd ev s)"
proof (cases ev)
  case (EvLoginParam t r)
  have "rests s (login_param_ready cd t cl c r s)" for cl c
    using assms(1) by (simp add: rests_def finished_def login_param_ready_def split_beta split: option.split)
  then show ?thesis using EvLoginParam assms(1) by (simp add: on_task_def rests_def split: option.split pc.split)
next
  case EvClose
  then show ?thesis using assms(1) by (simp add: rests_def finished_def close_def Let_def)
next
  case (EvEndpoints t r)
  then show ?thesis using EvEndpoints assms(1)
    by (simp add: rests_def finished_def on_task_def endpoints_ready_def split: option.split pc.split)
next
  case (EvConnectFailed t)
  then show ?thesis using EvConnectFailed assms(1) by (simp add: rests_def finished_def on_task_def split: option.split pc.split)
next
  case (EvTimeout t)
  then show ?thesis using assms(1) rests_continue [of s JNull]
    by (simp add: on_task_def split: option.split) (simp add: rests_def)
next
  case (EvConnected t ac)
  then show ?thesis using assms(1) rests_connected [OF assms(1)]
    by (simp add: on_task_def split: option.split pc.split) (simp add: rests_def)
next
  case (EvSleepOver t)
  then show ?thesis using assms(1) by (simp add: rests_wake)
qed (use assms in \<open>simp_all add: rests_def finished_def reconnect_def invalidateNonce_def\<close>)

lemma closed_turn: "finished s \<Longrightarrow> ev \<noteq> EvStart \<Longrightarrow> rests s (turn cf cd ev s)"
  using rests_event rests_drain unfolding turn_def by (fastforce simp: rests_def)

lemma closing_turn:
  assumes "micro s = []"
  shows "finished (turn cf cd EvClose s)" and "codec_st (turn cf cd EvClose s) = codec_st s"
proof -
  have "quiet s" using assms by (simp add: quiet_def)
  then have f: "finished (close s)" by (simp add: finished_def close_def Let_def split: option.split)
  moreover have "codec_st (close s) = codec_st s" by (simp add: close_def Let_def split: option.split)
  ultimately show "finished (turn cf cd EvClose s)" "codec_st (turn cf cd EvClose s) = codec_st s"
    using rests_drain [OF f, of cf cd] by (simp_all add: turn_def rests_def)
qed

text \<open>No packet either.\<close>

lemma no_calls_no_packets: "(\<And>c. calls_on c fx = []) \<Longrightarrow> packets fx = []"
proof (induction fx)
  case (Cons e fx)
  from Cons.prems [unfolded calls_on_simps append_is_Nil_conv] have "\<And>c. call_on c e = []" "\<And>c. calls_on c fx = []" by blast+
  then show ?case using Cons.IH by (cases e) (simp_all, metis list.distinct(1))
qed simp

lemma grows_packets: "grows s u \<Longrightarrow> conn s = None \<Longrightarrow> packets (out u) = packets (out s)"
  using no_calls_no_packets by (fastforce simp: grows_def)

lemma packets_turn:
  assumes "finished s" and "ev \<noteq> EvStart"
  shows "packets (out (turn cf cd ev s)) = packets (out s)"
proof -
  have conn: "conn s = None" "closed s" using assms(1) by (simp_all add: finished_def)
  have "packets (out (on_event cf cd ev s)) = packets (out s)"
  proof (cases "\<exists>t ac. ev = EvConnected t ac")
    case True
    then show ?thesis using conn(2)
      by (auto simp: on_task_def connected_def Let_def emit_def split: option.split pc.split)
  qed (use grows_packets [OF grows_event conn(1)] in blast)
  moreover have "conn (on_event cf cd ev s) = None"
    using rests_event [OF assms] by (simp add: rests_def finished_def)
  ultimately show ?thesis using grows_packets [OF grows_drain [of "on_event cf cd ev s" cf cd]] by (simp add: turn_def)
qed

text \<open>Closed for good: whatever still comes, no packet, no connection, the codec as \<open>close\<close> found it.\<close>

lemma closing_packets: "packets (out (turn cf cd EvClose s)) = packets (out s)"
proof -
  have "packets (out (close s)) = packets (out s)"
    by (simp add: close_def Let_def failPending_def wake_all_def emit_def split: option.split)
  moreover have "conn (close s) = None" by (simp add: close_def Let_def split: option.split)
  ultimately show ?thesis using grows_packets [OF grows_drain [of "close s" cf cd]] by (simp add: turn_def)
qed

lemma closed_run:
  assumes "micro s = []" and "EvStart \<notin> set evs"
  shows "let v = run cf cd evs (turn cf cd EvClose s) in
    conn v = None \<and> codec_st v = codec_st s \<and> packets (out v) = packets (out s)"
proof -
  have "finished (run cf cd evs u) \<and> codec_st (run cf cd evs u) = codec_st u \<and> packets (out (run cf cd evs u)) = packets (out u)"
    if "finished u" for u
    using assms(2) that
  proof (induction evs arbitrary: u)
    case (Cons ev evs)
    then have "rests u (turn cf cd ev u)" "packets (out (turn cf cd ev u)) = packets (out u)"
      using closed_turn [of u ev cf cd] packets_turn [of u ev cf cd] by auto
    then show ?case using Cons by (simp add: rests_def)
  qed simp
  from this [OF closing_turn(1) [OF assms(1)]] show ?thesis
    using closing_turn(2) [OF assms(1)] closing_packets by (simp add: Let_def finished_def)
qed

end
