(* ===== verification/Session_Attempts.thy ===== *)
theory Session_Attempts
  imports Session_Sockets_Correct Session_Tasks
begin

section \<open>Connection attempts\<close>

text \<open>
  No connection attempt is lost and none is made twice: over any run of the session on its sockets, the calls
  that wait in \<open>await connect\<close> are exactly those with a socket in \<open>dials\<close>. A turn either leaves the waiting calls alone
  (\<open>steady\<close>), or ends the wait of the call it belongs to, or starts it, with one \<open>ConnectTo\<close>.
\<close>

definition extends :: "'c session_client \<Rightarrow> 'c session_client \<Rightarrow> bool" where
  "extends s u \<longleftrightarrow> (\<exists>fx. out u = out s @ fx \<and> \<not> list_ex connects fx)"

lemma extends_trans: "extends s u \<Longrightarrow> extends u v \<Longrightarrow> extends s v"
  by (auto simp: extends_def)

lemma extends_same: "out u = out s \<Longrightarrow> extends s u"
  by (simp add: extends_def)

text \<open>The turn ends what call \<open>t\<close> may have waited for, and dials nothing.\<close>

definition stops :: "nat option \<Rightarrow> 'c session_client \<Rightarrow> 'c session_client \<Rightarrow> bool" where
  "stops d s u \<longleftrightarrow>
     (\<forall>t. connecting t u \<longleftrightarrow> connecting t s \<and> d \<noteq> Some t) \<and> extends s u"

abbreviation steady :: "'c session_client \<Rightarrow> 'c session_client \<Rightarrow> bool" where
  "steady \<equiv> stops None"

definition bounded :: "'c session_client \<Rightarrow> bool" where
  "bounded s \<longleftrightarrow> (\<forall>t. connecting t s \<longrightarrow> t < nextTask s)"

lemma connecting_cong: "tasks u = tasks s \<Longrightarrow> connecting t u = connecting t s"
  by (simp add: connecting_def task_pc_def)

lemma bounded_cong: "tasks u = tasks s \<Longrightarrow> nextTask u = nextTask s \<Longrightarrow> bounded u = bounded s"
  by (simp add: bounded_def connecting_cong [of u s])

lemma tasks_bounded: "tasks_ok s \<Longrightarrow> bounded s"
  by (force simp: bounded_def tasks_but_def connecting_def task_pc_def dest: map_of_SomeD split: option.splits)

lemma stops_steady: "steady s u \<Longrightarrow> \<not> connecting t s \<Longrightarrow> stops (Some t) s u"
  by (auto simp: stops_def)

lemma steady_stopped: "stops (Some t) s u \<Longrightarrow> \<not> connecting t s \<Longrightarrow> steady s u"
  by (auto simp: stops_def)

lemma stops_trans: "steady s u \<Longrightarrow> stops d u v \<Longrightarrow> stops d s v"
  using extends_trans [of s u v] by (simp add: stops_def)

lemma stops_then: "stops d s u \<Longrightarrow> steady u v \<Longrightarrow> stops d s v"
  using extends_trans [of s u v] by (simp add: stops_def)

lemma steadyI: "tasks u = tasks s \<Longrightarrow> out u = out s @ fx \<Longrightarrow> \<not> list_ex connects fx \<Longrightarrow> steady s u"
  by (auto simp: stops_def extends_def connecting_cong [of u s])

lemma steady_same [simp]: "tasks u = tasks s \<Longrightarrow> out u = out s \<Longrightarrow> steady s u"
  by (auto simp: stops_def extends_def connecting_cong [of u s])

subsection \<open>The calls\<close>

fun dials_in :: "pc \<Rightarrow> bool" where
  "dials_in (Connecting cl eps) = True"
| "dials_in _ = False"

lemma connecting_set:
  "connecting t' (set_task t p s) \<longleftrightarrow>
     (if t' = t then t \<in> fst ` set (tasks s) \<and> dials_in p else connecting t' s)"
proof -
  have "map_of (map (\<lambda>e. if fst e = t then (t, p) else e) ts) t' =
      (if t' = t then (if t \<in> fst ` set ts then Some p else None) else map_of ts t')" for ts
    by (induction ts) (auto simp: image_iff, force)
  then have "task_pc t' (set_task t p s) =
      (if t' = t then (if t \<in> fst ` set (tasks s) then Some p else None) else task_pc t' s)"
    by (simp add: task_pc_def set_task_def)
  then show ?thesis unfolding connecting_def by (cases p) auto
qed

lemma connecting_end: "connecting t' (end_task t s) \<longleftrightarrow> t' \<noteq> t \<and> connecting t' s"
proof -
  have "map_of (filter (\<lambda>e. fst e \<noteq> t) ts) t' = (if t' = t then None else map_of ts t')" for ts :: "(nat \<times> pc) list"
    by (induction ts) auto
  then show ?thesis by (simp add: connecting_def task_pc_def end_task_def)
qed

lemma connecting_spawn: "\<not> dials_in p \<Longrightarrow> connecting t' (spawn p s) = connecting t' s"
  by (cases p) (auto simp: connecting_def task_pc_def spawn_def map_add_def split: option.split)

lemma stops_set: "\<not> dials_in p \<Longrightarrow> stops (Some t) s (set_task t p s)"
  by (auto simp: stops_def connecting_set intro: extends_same) (simp_all add: extends_def set_task_def)

lemma stops_end: "stops (Some t) s (end_task t s)"
  by (auto simp: stops_def connecting_end) (simp add: extends_def end_task_def)

lemma steady_spawn: "\<not> dials_in p \<Longrightarrow> steady s (spawn p s)"
  by (simp add: stops_def connecting_spawn) (simp add: extends_def spawn_def)

lemma stops_loops: "stops (Some t) s (supervisor_loop t s)" "stops (Some t) s (heartbeat_loop t m s)"
  by (simp_all add: supervisor_loop_def heartbeat_loop_def stops_end stops_set)

lemma stops_start_loops:
  assumes "bounded s"
  shows "steady s (start_loops s)"
proof -
  let ?s1 = "s\<lparr>loopsStarted := True\<rparr>" and ?n = "nextTask s"
  let ?s2 = "supervisor_loop ?n (spawn SupSleep ?s1)"
  have n: "\<not> connecting (nextTask s) s" "\<not> connecting (nextTask s + 1) s" using assms by (auto simp: bounded_def)
  have 1: "steady s (spawn SupSleep ?s1)"
    by (rule stops_trans [OF steady_same steady_spawn]) simp_all
  have 2: "steady s ?s2"
    using 1 n(1) by (intro stops_trans [OF 1] steady_stopped [OF stops_loops(1)]) (simp add: stops_def)
  have 3: "steady s (spawn (HbSleep 0) ?s2)" by (rule stops_trans [OF 2 steady_spawn]) simp
  have "nextTask ?s2 = nextTask s + 1" by (simp add: spawn_def supervisor_loop_def session_defs)
  then have "steady s (heartbeat_loop (nextTask ?s2) 0 (spawn (HbSleep 0) ?s2))"
    using 3 n(2) by (intro stops_trans [OF 3] steady_stopped [OF stops_loops(2)]) (simp add: stops_def)
  then show ?thesis by (simp add: start_loops_def Let_def)
qed

lemma steady_emit: "\<not> connects e \<Longrightarrow> steady s (emit e s)"
  by (rule steadyI [of _ _ "[e]"]) (simp_all add: emit_def)

lemma stops_return:
  assumes "bounded s"
  shows "stops (Some t) s (establish_return t cl ok s)"
proof (cases cl)
  case ByStart
  have "bounded (end_task t s)" using assms by (auto simp: bounded_def connecting_end) (simp add: end_task_def)
  then have "steady (end_task t s) ((if loopsStarted s then id else start_loops) (end_task t s))"
    by (simp add: stops_start_loops)
  from stops_then [OF stops_then [OF stops_end this] steady_emit [of "Started ok"]]
  show ?thesis using ByStart by (simp add: establish_return_def)
qed (simp add: establish_return_def stops_set)

lemma steady_drop: "steady s (drop_conn c s)"
  by (rule steadyI [of _ _ "if conn s = c \<and> c \<noteq> None then [ConnClose (the c), Notify Offline] else []"])
    (auto simp: drop_conn_def session_defs split: option.split)

lemma stops_fail: "bounded s \<Longrightarrow> stops (Some t) s (establish_fail t cl c s)"
  unfolding establish_fail_def
  by (rule stops_trans [OF steady_drop stops_return]) (simp add: bounded_cong [of "drop_conn (Some c) s" s])

lemma steady_send: "steady s (snd (send cd i p s))"
  using send_out [of cd i p s] by (auto intro: steadyI [of _ _ "[]"] steadyI [of _ _ "[Sent c i n a b]" for c i n a b])

lemma steady_request: "steady s (snd (request cd n a s))"
  unfolding request_def Let_def snd_conv by (rule stops_trans [OF steady_same steady_send]) simp_all

lemma steady_resolve: "steady s (resolve i v s)"
  by (rule steadyI [of _ _ "[Settled i v]"]) (simp_all add: session_defs)

lemma steady_resend: "steady s (resend_list cd ps s)"
proof (induction cd ps s rule: resend_list.induct)
  case (2 cd i p ps s)
  have "steady s (resolve i JNull (forget i s))"
    by (rule stops_trans [OF steady_same steady_resolve]) (simp_all add: forget_def)
  then have "steady s (if uncounted (pname p) then resolve i JNull (forget i s) else snd (send cd i p s))"
    by (simp add: steady_send)
  from stops_trans [OF this 2] show ?case by simp
qed simp

lemma steady_failPending: "steady s (failPending s)"
proof -
  have "list_ex connects (map (\<lambda>e. Settled (fst e) JNull) ps) = False" for ps :: "(int \<times> pending) list"
    by (induction ps) simp_all
  then show ?thesis by (intro steadyI) (simp_all add: failPending_def)
qed

lemma steady_handle: "steady s (handle cd bs s)"
proof -
  have "tasks (handle cd bs s) = tasks s \<and> extends s (handle cd bs s)"
    by (simp add: handle_def Let_def session_defs extends_def split: prod.split option.split codec_result.split)
  then show ?thesis by (simp add: stops_def connecting_cong [of "handle cd bs s" s])
qed

lemma stops_resume_result:
  assumes "bounded s"
  shows "stops (Some t) s (resume_result cd t cl c v s)"
proof -
  let ?s = "s\<lparr>nonce := prop_of v (js ''nonce''), online := True\<rparr>"
  have "steady s ?s" by simp
  then have "steady s (resendPending cd ?s)" unfolding resendPending_def by (rule stops_trans [OF _ steady_resend])
  then have 1: "steady s (notifyState Online (resendPending cd ?s))"
    unfolding notifyState_def by (rule stops_trans [OF _ steady_emit]) simp
  have 2: "steady s (notifyState Relogin s)" unfolding notifyState_def by (rule steady_emit) simp
  have "bounded (notifyState Online (resendPending cd ?s))"
    using assms bounded_cong [of "notifyState Online (resendPending cd ?s)" s] by (simp add: session_defs)
  then show ?thesis using stops_trans [OF 1 stops_return] stops_trans [OF 2 stops_set]
    by (simp add: resume_result_def resume_failed_def Let_def)
qed

lemma stops_login_result:
  assumes "bounded s"
  shows "stops (Some t) s (login_result t cl c v s)"
proof -
  have "stops (Some t) s (establish_return t cl ok (notifyState Online (failPending u)))"
    if u: "tasks u = tasks s" "out u = out s" "nextTask u = nextTask s" for u ok
  proof -
    have "steady s (failPending u)" using u by (intro stops_trans [OF steady_same steady_failPending])
    then have 1: "steady s (notifyState Online (failPending u))"
      unfolding notifyState_def by (rule stops_trans [OF _ steady_emit]) simp
    have "bounded (notifyState Online (failPending u))"
      using assms u bounded_cong [of "notifyState Online (failPending u)" s] by (simp add: session_defs failPending_def)
    then show ?thesis by (rule stops_trans [OF 1 stops_return])
  qed
  then show ?thesis using stops_fail [OF assms] by (simp add: login_result_def Let_def)
qed

lemma stops_ping_result: "stops (Some t) s (ping_result cf t m c v s)"
proof -
  have "steady s (drop_conn c u)" if "u = s \<or> u = s\<lparr>nonce := JNull\<rparr>" for u
    using that by (auto intro: stops_trans [OF steady_same steady_drop] steady_drop)
  then have "stops (Some t) s (heartbeat_loop t k (drop_conn c u))" if "u = s \<or> u = s\<lparr>nonce := JNull\<rparr>" for u k
    using that stops_trans [OF _ stops_loops(2)] by blast
  then show ?thesis by (simp add: ping_result_def stops_loops)
qed

lemma stops_continue: "bounded s \<Longrightarrow> awaited p \<noteq> None \<Longrightarrow> stops (Some t) s (continue_with cf cd t p v s)"
  by (cases p) (simp_all add: stops_resume_result stops_login_result stops_ping_result)

lemma steady_continue:
  assumes "bounded s" and "task_pc t s = Some p"
  shows "steady s (continue_with cf cd t p v s)"
proof (cases "awaited p")
  case (Some i)
  then have "\<not> connecting t s" using assms(2) by (cases p) (simp_all add: connecting_def)
  with Some show ?thesis by (intro steady_stopped [OF stops_continue [OF assms(1)]]) simp_all
qed (simp add: continue_idle)

lemma steady_wake: "steady s (wake cd t s)"
proof (cases "task_pc t s")
  case (Some p)
  then have n: "\<not> connecting t s" if "p = SupSleep \<or> (\<exists>m. p = HbSleep m)" using that by (auto simp: connecting_def)
  have "stops (Some t) s (heartbeat_wake cd t m s)" for m
    by (auto simp: heartbeat_wake_def split_beta stops_loops intro!: stops_trans [OF steady_request stops_set])
  then show ?thesis using Some n by (cases p) (auto simp: wake_def intro: steady_stopped stops_loops)
qed (simp add: wake_def)

lemma steady_run_micro:
  assumes "distinct (map fst (tasks s))" and "bounded s"
  shows "steady s (run_micro cf cd m s)"
proof (cases m)
  case (MSettled i v)
  show ?thesis
  proof (cases "find (\<lambda>e. awaits i (snd e)) (tasks s)")
    case (Some e)
    obtain t p where e: "e = (t, p)" by (cases e)
    then have "(t, p) \<in> set (tasks s)" using Some by (auto simp: find_Some_iff)
    then have "task_pc t s = Some p" using assms(1) by (simp add: task_pc_def)
    then show ?thesis using MSettled Some e assms(2)
      by (simp add: run_micro_def settled_def steady_continue)
  qed (simp add: MSettled run_micro_def settled_def)
qed (simp add: run_micro_def steady_wake)

subsection \<open>One turn\<close>

lemma stops_drain:
  assumes "tasks_ok u" and "stops d s u"
  shows "stops d s (drain cf cd u)"
proof -
  have "tasks_ok (drain cf cd u) \<and> stops d s (drain cf cd u)"
  proof (rule drain_invariant [where P = "\<lambda>u. tasks_ok u \<and> stops d s u"])
    fix v m ms
    assume v: "tasks_ok v \<and> stops d s v" "micro v = m # ms"
    let ?v = "v\<lparr>micro := ms\<rparr>"
    have "bounded ?v" using v(1) tasks_bounded [of v] bounded_cong [of ?v v] by simp
    moreover have "distinct (map fst (tasks ?v))" using v(1) by (simp add: tasks_but_def)
    ultimately have "steady ?v (run_micro cf cd m ?v)" by (intro steady_run_micro)
    then have "steady v (run_micro cf cd m ?v)" by (rule stops_trans [OF steady_same, rotated 2]) simp_all
    moreover have "tasks_ok (run_micro cf cd m ?v)" using v tasks_inv.micro_keeps by blast
    ultimately show "tasks_ok (run_micro cf cd m ?v) \<and> stops d s (run_micro cf cd m ?v)"
      using v(1) stops_then by blast
  qed (simp add: assms)
  then show ?thesis ..
qed

text \<open>The call whose wait an event ends.\<close>

fun ended :: "event \<Rightarrow> nat option" where
  "ended (EvConnected t ac) = Some t"
| "ended (EvConnectFailed t) = Some t"
| "ended _ = None"

lemma stops_tryResume: "stops (Some t) s (tryResume cd t cl c s)"
proof -
  have "steady s (notifyState Relogin s)" unfolding notifyState_def by (rule steady_emit) simp
  then show ?thesis
    by (auto simp: tryResume_def resume_failed_def split_beta intro!: stops_trans [OF _ stops_set] steady_request)
qed

lemma stops_connected:
  assumes "bounded s"
  shows "stops (Some t) s (connected cd t cl ac s)"
proof -
  let ?s = "s\<lparr>nextConn := nextConn s + 1\<rparr>"
  have 1: "steady s (emit (ConnClose (nextConn s)) ?s)" by (rule stops_trans [OF steady_same steady_emit]) simp_all
  have b: "bounded (emit (ConnClose (nextConn s)) ?s)"
    using assms bounded_cong [of "emit (ConnClose (nextConn s)) ?s" s] by (simp add: emit_def)
  have 2: "steady s (if ac then drop_conn c (?s\<lparr>conn := d\<rparr>) else ?s\<lparr>conn := d\<rparr>)" for c d
    by (auto intro: stops_trans [OF steady_same steady_drop])
  show ?thesis
  proof (cases "closed s")
    case True
    then show ?thesis using stops_trans [OF 1 stops_return [OF b]] by (simp add: connected_def Let_def)
  next
    case False
    then have "connected cd t cl ac s = tryResume cd t cl (nextConn s)
        (if ac then drop_conn (Some (nextConn s)) (?s\<lparr>conn := Some (nextConn s)\<rparr>) else ?s\<lparr>conn := Some (nextConn s)\<rparr>)"
      by (simp add: connected_def Let_def)
    then show ?thesis using stops_trans [OF 2 stops_tryResume] by metis
  qed
qed

text \<open>The events that neither end a wait nor start one.\<close>

lemma steady_event:
  assumes "tasks_ok s" and "ended ev = None" and "dialling ev = None"
  shows "steady s (on_event cf cd ev s)"
proof (cases ev)
  case EvStart
  have "steady s (s\<lparr>closed := False\<rparr>)" by simp
  then show ?thesis unfolding EvStart on_event.simps start_def by (rule stops_trans [OF _ steady_spawn]) simp
next
  case EvClose
  have "steady s (s\<lparr>closed := True\<rparr>)" by simp
  from stops_trans [OF this steady_failPending] have "steady s (failPending (s\<lparr>closed := True\<rparr>))" .
  moreover have "steady (failPending (s\<lparr>closed := True\<rparr>)) (close s)"
    by (auto simp: close_def Let_def session_defs intro!: steadyI [of _ _ "[ConnClose c]" for c] split: option.split)
  ultimately show ?thesis unfolding EvClose on_event.simps by (rule stops_trans)
next
  case (EvLoginParam t r)
  show ?thesis
  proof (cases "\<exists>cl c. task_pc t s = Some (LoginParaming cl c)")
    case True
    then obtain cl c where pc: "task_pc t s = Some (LoginParaming cl c)" by blast
    then have "\<not> connecting t s" by (simp add: connecting_def)
    moreover have "stops (Some t) s (login_param_ready cd t cl c r s)"
      using stops_fail [OF tasks_bounded [OF assms(1)]]
      by (auto simp: login_param_ready_def split_beta intro!: stops_trans [OF steady_request stops_set] split: option.split)
    ultimately show ?thesis using EvLoginParam pc by (simp add: on_task_def steady_stopped)
  qed (auto simp: EvLoginParam on_task_def split: option.split pc.split)
next
  case (EvTimeout t)
  then show ?thesis using steady_continue [OF tasks_bounded [OF assms(1)]] by (simp add: on_task_def split: option.split)
qed (use assms in \<open>simp_all add: steady_request steady_drop steady_wake steady_handle reconnect_def invalidateNonce_def\<close>)

text \<open>After a turn the waiting calls are those that waited, less the one whose wait the event ended, and the one that dialled.\<close>

definition dialled :: "'c session_client \<Rightarrow> 'c session_client \<Rightarrow> bool" where
  "dialled s u \<longleftrightarrow> list_ex connects (drop (length (out s)) (out u))"

lemma stops_attempts: "stops d s u \<Longrightarrow> (connecting t u \<longleftrightarrow> connecting t s \<and> d \<noteq> Some t) \<and> \<not> dialled s u"
  by (auto simp: stops_def extends_def dialled_def)

lemma turn_stops: "tasks_ok s \<Longrightarrow> micro s = [] \<Longrightarrow> stops d s (on_event cf cd ev s) \<Longrightarrow> stops d s (turn cf cd ev s)"
  unfolding turn_def by (rule stops_drain) (rule tasks_inv.event_keeps)

lemma connect_next_attempts:
  assumes "tasks_ok s" and "micro s = []" and "on_event cf cd ev s = connect_next t0 cl eps s" and "task_pc t0 s \<noteq> None"
  shows "connecting t (turn cf cd ev s) \<longleftrightarrow>
      connecting t s \<and> t \<noteq> t0 \<or> t = t0 \<and> dialled s (turn cf cd ev s)"
proof (cases eps)
  case Nil
  then have "stops (Some t0) s (turn cf cd ev s)"
    using assms tasks_bounded [OF assms(1)] by (intro turn_stops) (simp_all add: stops_return)
  then show ?thesis using stops_attempts [of "Some t0" s "turn cf cd ev s" t] by auto
next
  case (Cons ep eps')
  then have u: "turn cf cd ev s = set_task t0 (Connecting cl eps') (emit (ConnectTo ep) s)"
    using assms(2,3) by (simp add: turn_def) (simp add: session_defs)
  have "t0 \<in> fst ` set (tasks s)" using assms(4) by (simp add: task_pc_def map_of_eq_None_iff)
  then have "t0 \<in> fst ` set (tasks (emit (ConnectTo ep) s))" by (simp add: emit_def)
  then show ?thesis unfolding u connecting_set
    using connecting_cong [of "s\<lparr>out := out s @ [ConnectTo ep]\<rparr>" s] by (auto simp: dialled_def emit_def set_task_def)
qed

lemma turn_attempts:
  assumes "tasks_ok s" and "micro s = []" and "\<And>t. ended ev = Some t \<Longrightarrow> connecting t s"
  shows "connecting t (turn cf cd ev s) \<longleftrightarrow>
    connecting t s \<and> ended ev \<noteq> Some t \<or> dialling ev = Some t \<and> dialled s (turn cf cd ev s)"
proof (cases "ended ev = None \<and> dialling ev = None")
  case True
  then have "steady s (turn cf cd ev s)" using assms(1,2) by (intro turn_stops steady_event) auto
  then show ?thesis using True stops_attempts [of None s "turn cf cd ev s" t] by simp
next
  case False
  then consider (connected) t0 ac where "ev = EvConnected t0 ac" | (failed) t0 where "ev = EvConnectFailed t0"
    | (endpoints) t0 r where "ev = EvEndpoints t0 r" by (cases ev) auto
  then show ?thesis
  proof cases
    case connected
    then obtain cl eps where "task_pc t0 s = Some (Connecting cl eps)"
      using assms(3) by (auto simp: connecting_def split: option.splits pc.splits)
    then have "stops (Some t0) s (turn cf cd ev s)"
      using assms(1,2) connected stops_connected [OF tasks_bounded [OF assms(1)]] by (intro turn_stops) (simp_all add: on_task_def)
    then show ?thesis using connected stops_attempts [of "Some t0" s "turn cf cd ev s" t] by auto
  next
    case failed
    then obtain cl eps where pc: "task_pc t0 s = Some (Connecting cl eps)"
      using assms(3) by (auto simp: connecting_def split: option.splits pc.splits)
    then have "on_event cf cd ev s = connect_next t0 cl eps s" using failed by (simp add: on_task_def)
    from connect_next_attempts [OF assms(1,2) this, of t] pc failed show ?thesis by auto
  next
    case endpoints
    show ?thesis
    proof (cases "\<exists>cl eps. task_pc t0 s = Some (Resolving cl) \<and> r = Some eps")
      case True
      then obtain cl eps where pc: "task_pc t0 s = Some (Resolving cl)" "r = Some eps" by blast
      then have "on_event cf cd ev s = connect_next t0 cl eps s" using endpoints by (simp add: on_task_def endpoints_ready_def)
      moreover have "\<not> connecting t0 s" using pc by (simp add: connecting_def)
      ultimately show ?thesis using connect_next_attempts [OF assms(1,2), of cf cd ev t0 cl eps t] pc endpoints by auto
    next
      case False
      have "steady s (on_event cf cd ev s)"
      proof (cases "\<exists>cl. task_pc t0 s = Some (Resolving cl)")
        case True
        then obtain cl where pc: "task_pc t0 s = Some (Resolving cl)" by blast
        then have "\<not> connecting t0 s" by (simp add: connecting_def)
        then show ?thesis using pc False endpoints stops_return [OF tasks_bounded [OF assms(1)], of t0 cl False]
          by (cases r) (auto simp: on_task_def endpoints_ready_def steady_stopped)
      qed (auto simp: endpoints on_task_def split: option.split pc.split)
      then have "steady s (turn cf cd ev s)" using assms(1,2) by (intro turn_stops)
      then show ?thesis using endpoints stops_attempts [of None s "turn cf cd ev s" t] by simp
    qed
  qed
qed

subsection \<open>The attempts of the composition\<close>

definition attempts_ok :: "'c net \<Rightarrow> bool" where
  "attempts_ok n \<longleftrightarrow>
     tasks_ok (sess n) \<and> micro (sess n) = [] \<and> (\<forall>t. connecting t (sess n) \<longleftrightarrow> dials n t \<noteq> None)"

lemma session_event_attempts:
  assumes "tasks_ok (sess n)" and "micro (sess n) = []" and "\<And>t. ended ev = Some t \<Longrightarrow> connecting t (sess n)"
    and "\<And>t. dials n t \<noteq> None \<longleftrightarrow> connecting t (sess n) \<and> ended ev \<noteq> Some t"
  shows "attempts_ok (session_event cf cd ev n)"
proof -
  have "tasks_ok (turn cf cd ev (sess n))" using assms(1,2) by (rule tasks_inv.turn_keeps)
  moreover have "connecting t (turn cf cd ev (sess n)) \<longleftrightarrow> dials n t \<noteq> None \<or>
      dialling ev = Some t \<and> dialled (sess n) (turn cf cd ev (sess n))" for t
    using turn_attempts [OF assms(1-3), where t = t and cf = cf and cd = cd] assms(4) [of t] by simp
  ultimately show ?thesis
    by (auto simp: attempts_ok_def session_event_def Let_def dialled_def split: option.split)
qed

lemma attempts_event: "attempts_ok n \<Longrightarrow> ended ev = None \<Longrightarrow> attempts_ok (session_event cf cd ev n)"
  by (rule session_event_attempts) (simp_all add: attempts_ok_def)

lemma attempts_deliver: "attempts_ok n \<Longrightarrow> attempts_ok (fold (deliver cf cd) fx n)"
proof (induction fx arbitrary: n)
  case (Cons e fx)
  then have "attempts_ok (deliver cf cd e n)" by (cases e) (simp_all add: attempts_event)
  with Cons show ?case by simp
qed simp

lemma attempts_failed:
  assumes "attempts_ok n" and "connecting t (sess n)"
  shows "attempts_ok (attempt_failed cf cd t n)"
  unfolding attempt_failed_def using assms by (intro session_event_attempts) (auto simp: attempts_ok_def)

lemma attempts_hand_out:
  assumes "attempts_ok n" and "connecting t (sess n)"
  shows "attempts_ok (hand_out cf cd t k n)"
  unfolding hand_out_def Let_def using assms by (intro session_event_attempts) (auto simp: attempts_ok_def)

lemma attempts_step: "attempts_ok n \<Longrightarrow> attempts_ok (net_step cf cd e n)"
proof (cases e)
  assume n: "attempts_ok n"
  {
    case (NetApp ev)
    have "ended ev = None" if "\<not> from_transport ev" using that by (cases ev) simp_all
    then show ?thesis using NetApp n by (simp add: attempts_event)
  next
    case (NetThrown t)
    then show ?thesis using n by (simp add: attempts_failed)
  next
    case (NetDial t e')
    then show ?thesis using n by (auto simp: attempts_ok_def split: option.split)
  next
    case (NetAwait t)
    then show ?thesis using n by (simp add: attempts_failed attempts_hand_out split: option.split ws_promise.split)
  next
    case (NetSock c e')
    have "attempts_ok (n\<lparr>socks := ks\<rparr>)" for ks using n by (simp add: attempts_ok_def)
    then show ?thesis using NetSock n by (simp add: socket_event_def Let_def attempts_deliver split: option.split)
  }
qed

lemma attempts_run: "attempts_ok (net_run cf cd es cs)"
proof -
  have "attempts_ok n \<Longrightarrow> attempts_ok (fold (net_step cf cd) es n)" for n
    by (induction es arbitrary: n) (simp_all add: attempts_step)
  moreover have "attempts_ok (net_new cs)"
    by (simp add: attempts_ok_def net_new_def) (simp add: new_session_def connecting_def task_pc_def)
  ultimately show ?thesis by (simp add: net_run_def)
qed

end
