(* ===== verification/Client.thy ===== *)
theory Client
  imports Account Codec Session_Run
begin

section \<open>The client\<close>

text \<open>
  \<open>client.ts\<close>: the facade that puts account service, codec and session together. \<open>enterGame\<close> makes a session whose
  \<open>resolveEndpoints\<close> asks the account service for the gates and whose \<open>loginParam\<close> asks the application for a token;
  the environment answers both by events. The codec outlives a session: its state is handed from one to the
  next. A session that has been closed only finishes its waiting calls; that is not followed here (theory Session_Closed shows
  that these calls send nothing and leave the codec alone). The account
  service is asked as if at once, when its answer comes.
\<close>

subsection \<open>State\<close>

record skyext_client =
  cl_account :: account_client
  cl_codec :: sproto_host
  cl_checksum :: jsstr
  cl_conf :: session_conf
  cl_session :: "sproto_host session_client option"
  cl_loginRid :: jsval
  cl_loginServer :: jsstr
  cl_cached :: "endpoint list"
  cl_http :: "http_request list"

text \<open>The constructor throws when there are no hosts or the schema is broken.\<close>

definition new_client :: "jsstr list \<Rightarrow> rat \<Rightarrow> byte list \<Rightarrow> session_options \<Rightarrow> skyext_client option" where
  "new_client accountHosts random spb so =
     (case (new_account accountHosts random, loadCodec spb) of
        (Some ac, Some (h, checksum)) \<Rightarrow>
          Some \<lparr>cl_account = ac, cl_codec = h, cl_checksum = checksum, cl_conf = conf_of so, cl_session = None,
            cl_loginRid = JNum 0, cl_loginServer = [], cl_cached = [], cl_http = []\<rparr>
      | _ \<Rightarrow> None)"

subsection \<open>Getters\<close>

definition client_online :: "skyext_client \<Rightarrow> bool" where
  "client_online cl = (case cl_session cl of None \<Rightarrow> False | Some s \<Rightarrow> online s)"

definition client_nonce :: "skyext_client \<Rightarrow> jsval" where
  "client_nonce cl = (case cl_session cl of None \<Rightarrow> JNull | Some s \<Rightarrow> coalesce (nonce s) JNull)"

definition client_recv :: "skyext_client \<Rightarrow> int" where
  "client_recv cl = (case cl_session cl of None \<Rightarrow> 0 | Some s \<Rightarrow> recv s)"

subsection \<open>\<open>resolveEndpoints\<close>\<close>

text \<open>
  The gates with a \<open>ws_url\<close>; the callbacks throw on an entry that is \<open>null\<close>. As \<open>GateInfo\<close> says, \<open>ws_url\<close> is missing
  or a string.
\<close>

definition ws_url :: "jsval \<Rightarrow> jsval" where
  "ws_url g = prop_of g (js ''ws_url'')"

definition fresh_endpoints :: "jsval list option \<Rightarrow> endpoint list option" where
  "fresh_endpoints r =
     (let gs = (case r of None \<Rightarrow> [] | Some gs \<Rightarrow> gs) in
      if list_ex nullish gs then None
      else Some (map (\<lambda>g. case ws_url g of JStr u \<Rightarrow> u | _ \<Rightarrow> []) (filter (\<lambda>g. truthy (ws_url g)) gs)))"

text \<open>The list, or \<open>None\<close> when the function throws, and the list it remembers.\<close>

definition resolveEndpoints :: "jsval list option \<Rightarrow> endpoint list \<Rightarrow> endpoint list option \<times> endpoint list" where
  "resolveEndpoints r cached =
     (case fresh_endpoints r of
        None \<Rightarrow> (None, cached)
      | Some fresh \<Rightarrow>
          if fresh \<noteq> [] then (Some fresh, fresh)
          else if cached \<noteq> [] then (Some cached, cached)
          else (None, cached))"

subsection \<open>\<open>loginParam\<close>\<close>

definition login_param :: "jsval \<Rightarrow> jsval \<Rightarrow> jsstr \<Rightarrow> jsstr \<Rightarrow> jsval" where
  "login_param token role checksum server =
     JObj [(js ''token'', token), (js ''rid'', role), (js ''proto_checksum'', JStr checksum), (js ''server'', JStr server)]"

subsection \<open>Operations\<close>

definition session_turn :: "event \<Rightarrow> skyext_client \<Rightarrow> skyext_client" where
  "session_turn ev cl =
     (case cl_session cl of
        None \<Rightarrow> cl
      | Some s \<Rightarrow> cl\<lparr>cl_session := Some (turn (cl_conf cl) sproto_codec ev s)\<rparr>)"

text \<open>\<open>None\<close>: \<open>enterGame\<close> throws, as there is a session already.\<close>

definition enterGame :: "jsval \<Rightarrow> jsstr \<Rightarrow> skyext_client \<Rightarrow> skyext_client option" where
  "enterGame role server cl =
     (case cl_session cl of
        Some _ \<Rightarrow> None
      | None \<Rightarrow>
          Some (session_turn EvStart
            (cl\<lparr>cl_loginRid := role, cl_loginServer := server, cl_cached := [],
                cl_session := Some (new_session (cl_codec cl))\<rparr>)))"

definition client_request :: "jsstr \<Rightarrow> jsval \<Rightarrow> skyext_client \<Rightarrow> skyext_client" where
  "client_request name param cl = session_turn (EvRequest name param) cl"

definition client_reconnect :: "skyext_client \<Rightarrow> skyext_client" where
  "client_reconnect cl = session_turn EvReconnect cl"

definition client_close :: "skyext_client \<Rightarrow> skyext_client" where
  "client_close cl =
     (case cl_session cl of
        None \<Rightarrow> cl
      | Some s \<Rightarrow> cl\<lparr>cl_session := None, cl_codec := codec_st (turn (cl_conf cl) sproto_codec EvClose s)\<rparr>)"

text \<open>The account service answers call \<open>t\<close> of \<open>resolveEndpoints\<close>; the application answers one of \<open>loginParam\<close>.\<close>

definition gates_answered :: "nat \<Rightarrow> (nat \<Rightarrow> fetch_outcome) \<Rightarrow> skyext_client \<Rightarrow> skyext_client" where
  "gates_answered t outs cl =
     (case gates outs (cl_account cl) of
        (r, rqs, ac) \<Rightarrow>
          (case resolveEndpoints r (cl_cached cl) of
             (eps, cached) \<Rightarrow>
               session_turn (EvEndpoints t eps)
                 (cl\<lparr>cl_account := ac, cl_cached := cached, cl_http := cl_http cl @ rqs\<rparr>)))"

definition token_provided :: "nat \<Rightarrow> jsval option \<Rightarrow> skyext_client \<Rightarrow> skyext_client" where
  "token_provided t token cl =
     session_turn
       (EvLoginParam t (map_option (\<lambda>tok. login_param tok (cl_loginRid cl) (cl_checksum cl) (cl_loginServer cl)) token)) cl"

subsection \<open>Events\<close>

datatype client_event =
    CEnter jsval jsstr
  | CRequest jsstr jsval
  | CReconnect
  | CClose
  | CGates nat "nat \<Rightarrow> fetch_outcome"
  | CToken nat "jsval option"
  | CRuntime event

text \<open>What the runtime does to the session on its own: connections, timers, packets.\<close>

fun runtime_event :: "event \<Rightarrow> bool" where
  "runtime_event (EvConnected t ac) = True"
| "runtime_event (EvConnectFailed t) = True"
| "runtime_event (EvTimeout t) = True"
| "runtime_event (EvSleepOver t) = True"
| "runtime_event (EvMessage c bs) = True"
| "runtime_event (EvClosed c) = True"
| "runtime_event (EvBroken c) = True"
| "runtime_event _ = False"

fun client_step :: "skyext_client \<Rightarrow> client_event \<Rightarrow> skyext_client" where
  "client_step cl (CEnter role server) = (case enterGame role server cl of None \<Rightarrow> cl | Some cl' \<Rightarrow> cl')"
| "client_step cl (CRequest name param) = client_request name param cl"
| "client_step cl CReconnect = client_reconnect cl"
| "client_step cl CClose = client_close cl"
| "client_step cl (CGates t outs) = gates_answered t outs cl"
| "client_step cl (CToken t token) = token_provided t token cl"
| "client_step cl (CRuntime ev) = (if runtime_event ev then session_turn ev cl else cl)"

definition client_run :: "client_event list \<Rightarrow> skyext_client \<Rightarrow> skyext_client" where
  "client_run evs cl = foldl client_step cl evs"

end
