(* ===== verification/Session_Calls.thy ===== *)
theory Session_Calls
  imports Session_Ledger
begin

section \<open>What the session requests\<close>

text \<open>
  The names and arguments of the requests in flight and of the packets sent, over whole runs: they are
  those the application and \<open>loginParam\<close> asked for, and the session's own resumes and pings. The
  invariant is a property \<open>Q\<close> of names and arguments, kept by every event that brings in nothing against it.
\<close>

definition calls :: "'c session_client \<Rightarrow> (jsstr \<times> jsval) set" where
  "calls s = (\<lambda>e. (pname (snd e), pparam (snd e))) ` set (pendings s) \<union> snd ` set (packets (out s))"

definition calls_ok :: "(jsstr \<Rightarrow> jsval \<Rightarrow> bool) \<Rightarrow> 'c session_client \<Rightarrow> bool" where
  "calls_ok Q s \<longleftrightarrow> (\<forall>c \<in> calls s. Q (fst c) (snd c))"

text \<open>The session's own requests, and those an event brings in.\<close>

definition own_call :: "jsstr \<Rightarrow> bool" where
  "own_call n \<longleftrightarrow> n = js ''login.resume'' \<or> n = js ''login.ping''"

fun brings :: "event \<Rightarrow> (jsstr \<times> jsval) set" where
  "brings (EvRequest n a) = {(n, a)}"
| "brings (EvLoginParam t (Some v)) = {(js ''login.login'', v)}"
| "brings _ = {}"

lemma calls_simps [simp]:
  "calls (drop_conn c s) = calls s"
  "calls (establish_return t cl ok s) = calls s"
  "calls (establish_fail t cl c0 s) = calls s"
  "calls (emit (Notify x) s) = calls s"
  "calls (emit (Pushed n a) s) = calls s"
  "calls (emit (ConnClose c') s) = calls s"
  "calls (emit (ConnectTo ep) s) = calls s"
  "calls (notifyState x s) = calls s"
  "calls (set_task t p s) = calls s"
  "calls (spawn p s) = calls s"
  "calls (end_task t s) = calls s"
  "calls (count s) = calls s"
  "calls (wake_all s) = calls s"
  "calls (supervisor_loop t s) = calls s"
  "calls (heartbeat_loop t m s) = calls s"
  by (simp_all add: calls_def session_defs establish_fail_def supervisor_loop_def heartbeat_loop_def)

lemma calls_update [simp]:
  "calls (s\<lparr>codec_st := cs\<rparr>) = calls s"
  "calls (s\<lparr>nonce := v\<rparr>) = calls s"
  "calls (s\<lparr>rid := w, nonce := v, recv := k, online := b\<rparr>) = calls s"
  "calls (s\<lparr>nonce := v, online := b\<rparr>) = calls s"
  "calls (s\<lparr>conn := c, online := b\<rparr>) = calls s"
  "calls (s\<lparr>conn := c\<rparr>) = calls s"
  "calls (s\<lparr>closed := b\<rparr>) = calls s"
  "calls (s\<lparr>loopsStarted := b\<rparr>) = calls s"
  "calls (s\<lparr>nextConn := k'\<rparr>) = calls s"
  "calls (s\<lparr>broken := bs\<rparr>) = calls s"
  "calls (s\<lparr>micro := ms\<rparr>) = calls s"
  by (simp_all add: calls_def)

lemma calls_send: "(i, p) \<in> set (pendings s) \<Longrightarrow> calls (snd (send cd i p s)) \<subseteq> calls s"
  using send_out [of cd i p s] by (fastforce simp: calls_def image_iff)

lemma calls_request: "calls (snd (request cd n a s)) \<subseteq> insert (n, a) (calls s)"
proof -
  let ?s = "s\<lparr>nextReqId := nextReqId s + 1, pendings := pendings s @ [(nextReqId s + 1, \<lparr>pname = n, pparam = a\<rparr>)]\<rparr>"
  have "calls (snd (request cd n a s)) \<subseteq> calls ?s" unfolding request_def Let_def snd_conv by (rule calls_send) simp
  then show ?thesis by (auto simp: calls_def)
qed

lemma calls_resolve_forget: "calls (resolve i v (forget i s)) \<subseteq> calls s"
  by (auto simp: calls_def session_defs)

lemma calls_resend_list:
  "set ps \<subseteq> set (pendings s) \<Longrightarrow> distinct (map fst ps) \<Longrightarrow> calls (resend_list cd ps s) \<subseteq> calls s"
proof (induction cd ps s rule: resend_list.induct)
  case (2 cd i p ps s)
  let ?s = "if uncounted (pname p) then resolve i JNull (forget i s) else snd (send cd i p s)"
  have "calls ?s \<subseteq> calls s" using 2(2) by (simp add: calls_resolve_forget calls_send)
  moreover have "set ps \<subseteq> set (pendings ?s)" using 2(2,3) by (force simp: session_defs)
  ultimately show ?case using 2 by fastforce
qed simp

lemma calls_failPending: "calls (failPending s) \<subseteq> calls s"
  by (auto simp: calls_def failPending_def)

text \<open>An event adds what it brings in and the session's own requests; so does a microtask.\<close>

definition adds :: "(jsstr \<times> jsval) set \<Rightarrow> 'c session_client \<Rightarrow> 'c session_client \<Rightarrow> bool" where
  "adds X s s' \<longleftrightarrow> calls s' \<subseteq> calls s \<union> X \<union> {c. own_call (fst c)}"

lemma adds_refl [simp]: "adds X s s"
  by (auto simp: adds_def)

lemma adds_calls: "calls s' \<subseteq> calls s \<Longrightarrow> adds X s s'"
  by (auto simp: adds_def)

lemma adds_same: "calls s1 = calls s \<Longrightarrow> adds X s1 s' \<Longrightarrow> adds X s s'"
  by (simp add: adds_def)

lemma adds_own: "own_call n \<Longrightarrow> adds X s (snd (request cd n a s))"
  using calls_request [of cd n a s] by (auto simp: adds_def)

lemma own_calls [simp]: "own_call (js ''login.resume'')" "own_call (js ''login.ping'')"
  by (simp_all add: own_call_def)

lemma adds_tryResume: "adds X s (tryResume cd t cl c s)"
  using adds_own [OF own_calls(1), of X s cd]
  by (auto simp: tryResume_def resume_failed_def split_beta adds_def)

lemma adds_connect_next: "adds X s (connect_next t cl eps s)"
  by (cases eps) (auto simp: adds_def)

lemma adds_connected: "adds X s (connected cd t cl ac s)"
proof -
  have "adds X s (tryResume cd t cl c s')" if "calls s' = calls s" for c s'
    using adds_same [OF that] adds_tryResume by blast
  then show ?thesis by (simp add: connected_def Let_def adds_calls)
qed

lemma adds_results:
  "ledger s \<Longrightarrow> adds X s (resume_result cd t cl c v s)"
  "adds X s (login_result t cl c v s)"
  "adds X s (ping_result cf t m cc v s)"
  "adds X s (heartbeat_wake cd t m s)"
proof -
  have "calls (resendPending cd s') \<subseteq> calls s'" if "ledger s'" for s' :: "'a session_client"
    unfolding resendPending_def by (rule calls_resend_list) (simp_all add: ledger_distinct that)
  from this [of "s\<lparr>nonce := prop_of v (js ''nonce''), online := True\<rparr>"]
  show "ledger s \<Longrightarrow> adds X s (resume_result cd t cl c v s)"
    by (auto simp: resume_result_def resume_failed_def adds_def Let_def)
  show "adds X s (login_result t cl c v s)"
    using calls_failPending [of "s\<lparr>rid := coalesce (prop_of v (js ''rid'')) JNull, nonce := coalesce (prop_of v (js ''nonce'')) JNull,
      recv := 0, online := True\<rparr>"]
    by (auto simp: login_result_def adds_def Let_def)
  show "adds X s (ping_result cf t m cc v s)" by (simp add: ping_result_def adds_calls)
  show "adds X s (heartbeat_wake cd t m s)"
    using adds_own [OF own_calls(2), of X s cd] by (auto simp: heartbeat_wake_def Let_def split_beta adds_def)
qed

lemma adds_continue: "ledger s \<Longrightarrow> adds X s (continue_with cf cd t p v s)"
  by (cases p) (simp_all add: adds_results)

lemma adds_wake: "adds X s (wake cd t s)"
  by (simp add: wake_def adds_results adds_calls split: option.split pc.split)

lemma adds_run_micro: "ledger s \<Longrightarrow> adds X s (run_micro cf cd m s)"
  by (simp add: run_micro_def settled_def split_beta adds_continue adds_wake split: microtask.split option.split)

lemma adds_handle: "adds X s (handle cd bs s)"
proof -
  have "calls (resolve i v (forget i (s\<lparr>codec_st := cs\<rparr>))) \<subseteq> calls s" for i v cs
    using calls_resolve_forget [of i v "s\<lparr>codec_st := cs\<rparr>"] by simp
  then show ?thesis
    by (auto simp: handle_def Let_def resolve_count intro!: adds_calls split: prod.split option.split codec_result.split) blast+
qed

lemma adds_on_event: "ledger s \<Longrightarrow> adds (brings ev) s (on_event cf cd ev s)"
proof (cases ev)
  case (EvRequest n a)
  then show ?thesis using calls_request [of cd n a s] by (auto simp: adds_def)
next
  case (EvLoginParam t r)
  show ?thesis
  proof (cases "\<exists>cl c v. task_pc t s = Some (LoginParaming cl c) \<and> r = Some v \<and> truthy v")
    case True
    then obtain cl c v where v: "task_pc t s = Some (LoginParaming cl c)" "r = Some v" "truthy v" by blast
    then show ?thesis using calls_request [of cd "js ''login.login''" v s] EvLoginParam
      by (auto simp: on_task_def login_param_ready_def split_beta adds_def)
  next
    case False
    then show ?thesis using EvLoginParam
      by (auto simp: on_task_def login_param_ready_def intro!: adds_calls split: option.split pc.split)
  qed
next
  case EvClose
  then show ?thesis using calls_failPending [of "s\<lparr>closed := True\<rparr>"]
    by (auto simp: close_def Let_def intro!: adds_calls split: option.split)
qed (auto simp: start_def reconnect_def invalidateNonce_def on_task_def adds_calls adds_connect_next adds_connected
    adds_continue adds_wake adds_handle endpoints_ready_def split: option.split pc.split)

text \<open>The ledger and the calls together over a turn.\<close>

definition called :: "(jsstr \<Rightarrow> jsval \<Rightarrow> bool) \<Rightarrow> 'c session_client \<Rightarrow> bool" where
  "called Q s \<longleftrightarrow> ledger s \<and> calls_ok Q s"

lemma called_adds:
  assumes "called Q s" "adds X s s'" "ledger s'" and "\<And>n a. own_call n \<Longrightarrow> Q n a" and "\<And>c. c \<in> X \<Longrightarrow> Q (fst c) (snd c)"
  shows "called Q s'"
  using assms unfolding called_def calls_ok_def adds_def by blast

lemma called_micro:
  assumes "called Q s" and "\<And>n a. own_call n \<Longrightarrow> Q n a"
  shows "called Q (run_micro cf cd m (s\<lparr>micro := ms\<rparr>))"
proof -
  have s: "called Q (s\<lparr>micro := ms\<rparr>)" using assms(1) by (simp add: called_def calls_ok_def)
  show ?thesis
    by (rule called_adds [OF s, where X = "{}"]) (use s assms(2) in \<open>auto simp: called_def ledger_run_micro adds_run_micro\<close>)
qed

lemma called_turn:
  assumes "called Q s" and "\<And>n a. own_call n \<Longrightarrow> Q n a" and "\<And>c. c \<in> brings ev \<Longrightarrow> Q (fst c) (snd c)"
  shows "called Q (turn cf cd ev s)"
proof -
  have l: "ledger s" using assms(1) by (simp add: called_def)
  have "called Q (on_event cf cd ev s)"
    by (rule called_adds [OF assms(1) adds_on_event [OF l] ledger_on_event [OF l] assms(2,3)])
  then show ?thesis unfolding turn_def
    by (rule drain_invariant [where P = "called Q", rotated]) (auto intro: called_micro assms(2))
qed

lemma called_new [simp]: "called Q (new_session cs)"
  by (simp add: called_def calls_ok_def calls_def new_session_def ledger_new [unfolded new_session_def])

end
