(* ===== verification/Client_Correct.thy ===== *)
theory Client_Correct
  imports Client Session_Calls
begin

section \<open>The client: correctness\<close>

text \<open>
  The endpoints \<open>resolveEndpoints\<close> comes to over a sequence of answers of the account service, and an
  invariant of the client over its events: the session's login requests carry the role and server it was entered
  with, the checksum of the schema and a token the application provided.
\<close>

subsection \<open>Endpoints\<close>

text \<open>The answers of \<open>resolveEndpoints\<close> to a sequence of results of \<open>gates\<close>, and what they are in terms of the results.\<close>

fun endpoint_answers :: "jsval list option list \<Rightarrow> endpoint list \<Rightarrow> endpoint list option list" where
  "endpoint_answers [] cached = []"
| "endpoint_answers (r # rs) cached =
     (case resolveEndpoints r cached of (eps, cached') \<Rightarrow> eps # endpoint_answers rs cached')"

definition usable_gates :: "jsval list option \<Rightarrow> bool" where
  "usable_gates r \<longleftrightarrow> fresh_endpoints r \<noteq> None \<and> fresh_endpoints r \<noteq> Some []"

text \<open>The endpoints of the last usable result, if any.\<close>

definition last_usable :: "jsval list option list \<Rightarrow> endpoint list option" where
  "last_usable rs = (case filter usable_gates rs of [] \<Rightarrow> None | us \<Rightarrow> fresh_endpoints (last us))"

definition answer_after :: "jsval list option list \<Rightarrow> jsval list option \<Rightarrow> endpoint list option" where
  "answer_after rs r = (if fresh_endpoints r = None then None else last_usable (rs @ [r]))"

definition remembers :: "endpoint list \<Rightarrow> jsval list option list \<Rightarrow> bool" where
  "remembers cached rs \<longleftrightarrow> (case last_usable rs of None \<Rightarrow> cached = [] | Some eps \<Rightarrow> cached = eps \<and> eps \<noteq> [])"

lemma last_usable_snoc: "last_usable (rs @ [r]) = (if usable_gates r then fresh_endpoints r else last_usable rs)"
proof -
  have "(case xs @ [r] of [] \<Rightarrow> None | us \<Rightarrow> fresh_endpoints (last us)) = fresh_endpoints r" for xs
    by (cases xs) simp_all
  then show ?thesis by (simp add: last_usable_def)
qed

lemma resolveEndpoints_answer:
  assumes "remembers cached rs" and "resolveEndpoints r cached = (eps, cached')"
  shows "eps = answer_after rs r \<and> remembers cached' (rs @ [r])"
proof (cases "usable_gates r")
  case True
  then obtain fs where "fresh_endpoints r = Some fs" "fs \<noteq> []" by (auto simp: usable_gates_def)
  then show ?thesis using assms True by (auto simp: resolveEndpoints_def answer_after_def remembers_def last_usable_snoc)
next
  case False
  then show ?thesis using assms
    by (cases "last_usable rs"; cases "fresh_endpoints r"; simp only: option.simps remembers_def)
      (auto simp: resolveEndpoints_def answer_after_def remembers_def last_usable_snoc usable_gates_def split: if_splits)
qed

lemma endpoint_answers_from:
  "remembers cached before \<Longrightarrow>
    endpoint_answers rs cached = map (\<lambda>i. answer_after (before @ take i rs) (rs ! i)) [0..<length rs]"
proof (induction rs arbitrary: cached before)
  case (Cons r rs)
  obtain eps cached' where e: "resolveEndpoints r cached = (eps, cached')" by fastforce
  note r = resolveEndpoints_answer [OF Cons.prems e]
  have "map (\<lambda>i. answer_after (before @ take i (r # rs)) ((r # rs) ! i)) [0..<length (r # rs)] =
      answer_after before r # map (\<lambda>i. answer_after ((before @ [r]) @ take i rs) (rs ! i)) [0..<length rs]"
    by (simp add: upt_conv_Cons map_Suc_upt [symmetric] del: upt_Suc)
  then show ?case using e r Cons.IH [of cached' "before @ [r]"] by simp
qed simp

lemma endpoint_answers_new: "endpoint_answers rs [] = map (\<lambda>i. answer_after (take i rs) (rs ! i)) [0..<length rs]"
  using endpoint_answers_from [of "[]" "[]" rs] by (simp add: remembers_def last_usable_def)

subsection \<open>Logins\<close>

text \<open>The role and server of the session in being: those of the last \<open>enterGame\<close> that did not throw.\<close>

fun entered :: "(jsval \<times> jsstr) option \<Rightarrow> client_event list \<Rightarrow> (jsval \<times> jsstr) option" where
  "entered e [] = e"
| "entered e (ev # evs) =
     entered (case ev of CEnter r srv \<Rightarrow> (case e of None \<Rightarrow> Some (r, srv) | Some _ \<Rightarrow> e) | CClose \<Rightarrow> None | _ \<Rightarrow> e) evs"

fun tokens :: "client_event list \<Rightarrow> jsval set" where
  "tokens [] = {}"
| "tokens (CToken t (Some tok) # evs) = insert tok (tokens evs)"
| "tokens (_ # evs) = tokens evs"

definition login_call :: "jsval set \<Rightarrow> skyext_client \<Rightarrow> jsstr \<Rightarrow> jsval \<Rightarrow> bool" where
  "login_call toks cl n a \<longleftrightarrow>
     n = js ''login.login'' \<longrightarrow> (\<exists>tok \<in> toks. a = login_param tok (cl_loginRid cl) (cl_checksum cl) (cl_loginServer cl))"

text \<open>The application leaves \<open>login.login\<close> to the session.\<close>

fun no_login :: "client_event \<Rightarrow> bool" where
  "no_login (CRequest n a) = (n \<noteq> js ''login.login'')"
| "no_login _ = True"

definition client_inv :: "jsstr \<Rightarrow> jsval set \<Rightarrow> (jsval \<times> jsstr) option \<Rightarrow> skyext_client \<Rightarrow> bool" where
  "client_inv checksum toks e cl \<longleftrightarrow>
     cl_checksum cl = checksum \<and>
     (case cl_session cl of
        None \<Rightarrow> e = None
      | Some s \<Rightarrow> e = Some (cl_loginRid cl, cl_loginServer cl) \<and> called (login_call toks cl) s)"

lemma own_no_login: "own_call n \<Longrightarrow> login_call toks cl n a"
  by (auto simp: own_call_def login_call_def)

lemma login_call_cong:
  "cl_loginRid cl' = cl_loginRid cl \<Longrightarrow> cl_checksum cl' = cl_checksum cl \<Longrightarrow> cl_loginServer cl' = cl_loginServer cl \<Longrightarrow>
    login_call toks cl' = login_call toks cl"
  by (simp add: login_call_def fun_eq_iff)

lemma called_mono: "called Q s \<Longrightarrow> (\<And>n a. Q n a \<Longrightarrow> Q' n a) \<Longrightarrow> called Q' s"
  by (auto simp: called_def calls_ok_def)

lemma login_call_mono: "login_call toks cl n a \<Longrightarrow> toks \<subseteq> toks' \<Longrightarrow> login_call toks' cl n a"
  by (auto simp: login_call_def)

lemma client_inv_mono: "client_inv k toks e cl \<Longrightarrow> toks \<subseteq> toks' \<Longrightarrow> client_inv k toks' e cl"
  by (auto simp: client_inv_def split: option.splits intro: called_mono login_call_mono)

lemma client_inv_cong:
  assumes "cl_checksum cl' = cl_checksum cl" "cl_session cl' = cl_session cl" "cl_loginRid cl' = cl_loginRid cl"
    "cl_loginServer cl' = cl_loginServer cl"
  shows "client_inv k toks e cl' = client_inv k toks e cl"
  using assms login_call_cong [of cl' cl toks] by (simp add: client_inv_def cong: option.case_cong)

lemma session_turn_inv:
  assumes "client_inv k toks e cl" and "\<And>c. c \<in> brings ev \<Longrightarrow> login_call toks cl (fst c) (snd c)"
  shows "client_inv k toks e (session_turn ev cl)"
proof (cases "cl_session cl")
  case None
  then show ?thesis using assms(1) by (simp add: session_turn_def)
next
  case (Some s)
  let ?s = "turn (cl_conf cl) sproto_codec ev s"
  have "called (login_call toks cl) s" using assms(1) Some by (simp add: client_inv_def)
  then have "called (login_call toks cl) ?s" by (rule called_turn) (use own_no_login assms(2) in auto)
  moreover have "login_call toks (cl\<lparr>cl_session := Some ?s\<rparr>) = login_call toks cl" by (rule login_call_cong) simp_all
  ultimately show ?thesis using assms(1) Some by (simp add: session_turn_def client_inv_def)
qed

lemma enterGame_inv:
  assumes "cl_session cl = None" and "client_inv k toks None cl"
  shows "client_inv k toks (Some (r, srv)) (the (enterGame r srv cl))"
proof -
  let ?cl = "cl\<lparr>cl_loginRid := r, cl_loginServer := srv, cl_cached := [], cl_session := Some (new_session (cl_codec cl))\<rparr>"
  have "client_inv k toks (Some (r, srv)) ?cl" using assms by (simp add: client_inv_def)
  then have "client_inv k toks (Some (r, srv)) (session_turn EvStart ?cl)" by (rule session_turn_inv) simp
  then show ?thesis using assms(1) by (simp add: enterGame_def)
qed

lemma client_step_inv:
  assumes "client_inv k toks e cl" and "no_login ev"
  shows "client_inv k (toks \<union> tokens [ev]) (entered e [ev]) (client_step cl ev)"
proof (cases ev)
  case (CEnter r srv)
  show ?thesis
  proof (cases "cl_session cl")
    case None
    then show ?thesis using enterGame_inv [OF None, of k toks r srv] assms(1) CEnter
      by (auto simp: client_inv_def enterGame_def)
  next
    case (Some s)
    then show ?thesis using assms(1) CEnter by (auto simp: enterGame_def client_inv_def)
  qed
next
  case (CRequest n a)
  then show ?thesis using assms
    by (auto simp: client_request_def login_call_def intro!: session_turn_inv)
next
  case CReconnect
  then show ?thesis using assms(1) by (auto simp: client_reconnect_def intro!: session_turn_inv)
next
  case CClose
  then show ?thesis using assms(1) by (auto simp: client_close_def client_inv_def split: option.splits)
next
  case (CGates t outs)
  obtain r rqs ac where g: "gates outs (cl_account cl) = (r, rqs, ac)" by (metis prod_cases3)
  obtain eps cached where e: "resolveEndpoints r (cl_cached cl) = (eps, cached)" by fastforce
  let ?cl = "cl\<lparr>cl_account := ac, cl_cached := cached, cl_http := cl_http cl @ rqs\<rparr>"
  have "client_inv k toks e ?cl" using assms(1) client_inv_cong [of ?cl cl k toks e] by simp
  then have "client_inv k toks e (session_turn (EvEndpoints t eps) ?cl)" by (rule session_turn_inv) simp
  then show ?thesis using CGates g e by (simp add: gates_answered_def)
next
  case (CToken t tok)
  have "client_inv k (toks \<union> tokens [ev]) e cl" using assms(1) by (rule client_inv_mono) simp
  then show ?thesis using CToken
    by (cases tok) (auto simp: token_provided_def login_call_def intro!: session_turn_inv)
next
  case (CRuntime rev)
  then show ?thesis using assms(1) by (cases rev) (auto intro!: session_turn_inv)
qed

lemma entered_append: "entered e (evs @ [ev]) = entered (entered e evs) [ev]"
  by (induction evs arbitrary: e) simp_all

lemma tokens_append: "tokens (evs @ fs) = tokens evs \<union> tokens fs"
  by (induction evs rule: tokens.induct) auto

lemma client_run_inv:
  "client_inv k {} None cl \<Longrightarrow> list_all no_login evs \<Longrightarrow> client_inv k (tokens evs) (entered None evs) (client_run evs cl)"
proof (induction evs rule: rev_induct)
  case (snoc ev evs)
  then show ?case using client_step_inv [of k "tokens evs" "entered None evs" "client_run evs cl" ev]
    by (simp add: client_run_def entered_append [of None evs ev] tokens_append [of evs "[ev]"])
qed (simp add: client_run_def)

lemma new_client_inv:
  assumes "new_client hosts random spb so = Some cl"
  shows "client_inv (md5Hex spb) {} None cl"
  using assms by (auto simp: new_client_def client_inv_def loadCodec_def split: option.splits import_result.splits)

lemma client_logins:
  assumes "new_client hosts random spb so = Some cl0" and "list_all no_login evs" and "cl_session (client_run evs cl0) = Some s"
  shows "\<exists>r srv. entered None evs = Some (r, srv) \<and>
    (\<forall>c i a b. Sent c i (js ''login.login'') a b \<in> set (out s) \<longrightarrow> (\<exists>tok \<in> tokens evs. a = login_param tok r (md5Hex spb) srv))"
proof -
  let ?cl = "client_run evs cl0"
  have inv: "client_inv (md5Hex spb) (tokens evs) (entered None evs) ?cl"
    by (rule client_run_inv [OF new_client_inv [OF assms(1)] assms(2)])
  have "login_call (tokens evs) ?cl n a" if "Sent c i n a b \<in> set (out s)" for c i n a b
  proof -
    have "(n, a) \<in> calls s" using that packets_Sent_iff [of i n a "out s"] by (force simp: calls_def)
    then show ?thesis using inv assms(3) by (fastforce simp: client_inv_def called_def calls_ok_def)
  qed
  then show ?thesis using inv assms(3) by (fastforce simp: client_inv_def login_call_def)
qed

end
