(* ===== verification/Api_Props.thy ===== *)
theory Api_Props
  imports Account_Correct Session_Closed Session_Attempts Client_Correct SprotoDemo Session_Props
begin

section \<open>Properties of the HTTP interface, the transport and the client\<close>

text \<open>
  JSON with exact integers, the account service, the WebSocket transport and the facade. The properties rest on
  the lemmas of \<open>Json_Correct\<close>, \<open>Account_Correct\<close>, \<open>Transport\<close>, \<open>Session_Sockets_Correct\<close>, \<open>Session_Attempts\<close>, \<open>Session_Closed\<close> and
  \<open>Client_Correct\<close>.
\<close>

subsection \<open>JSON\<close>

text \<open>A JSON text, with backquotes for quotes.\<close>

definition json_js :: "string \<Rightarrow> jsstr" where
  "json_js t = map (\<lambda>c. if c = 0x60 then 0x22 else c) (js t)"

definition demo_role :: jsval where
  "demo_role = JObj [(js ''rid'', JBig 70067467908940524), (js ''server'', JStr (js ''s1, 9007199254740993''))]"

text \<open>
  C18. \<open>parseJson\<close> reads JSON with exact integers: whatever text a parser reads that makes every integer
  beyond the safe ones a bigint, \<open>parseJson\<close> reads as the same value, through quoted integers, \<open>JSON.parse\<close> and the reviver.
  The only condition is that no string of the value has the form of a quoted integer.
\<close>

theorem json_integers_exact:
  "json_text exact_number s = Some v \<Longrightarrow> no_sentinel v \<Longrightarrow> parseJson s = Some v"
  by (rule parseJson_exact)

theorem json_integers_exact_witness:
  "parseJson (json_js ''{`code`: 0, `roles`: [{`rid`: 70067467908940524, `server`: `s1, 9007199254740993`}]}'') =
    Some (JObj [(js ''code'', JNum 0), (js ''roles'', JArr [demo_role])])"
  by (rule json_integers_exact) code_simp+

text \<open>Texts that are no JSON: an integer with leading zeros is read, a lone minus sign becomes a string.\<close>

lemma json_leading_zeros:
  "parseJson (js ''00009007199254740993'') = Some (JBig 9007199254740993) \<and>
   json_text parts_number (js ''00009007199254740993'') = None"
  by code_simp

lemma json_lone_minus:
  "parseJson (js ''-'') = Some (JStr [0xE000, 0x2D, 0xE000]) \<and> json_text parts_number (js ''-'') = None"
  by code_simp

subsection \<open>The account service\<close>

text \<open>
  C22. A call of the account service tries its hosts one after the other from the cursor on, each at most once, and
  stops at the first that responds with status 200 and a text; its value is the text as JSON (or the text
  itself when it is no JSON), \<open>null\<close> when no host responded. The same request goes to every host, with the token in
  the authorization header only; the next call starts one host further.
\<close>

theorem account_request_rotates:
  "account_request outs verb path token body ac =
    (let n = length (ac_hosts ac); http = http_of verb path token body;
         tried = (\<lambda>k. map (\<lambda>i. http (ac_hosts ac ! ((ac_cursor ac + i) mod n))) [0..<k]);
         ac' = ac\<lparr>ac_cursor := (ac_cursor ac + 1) mod n\<rparr>
     in case find (\<lambda>k. usable (outs k) \<noteq> None) [0..<n] of
          None \<Rightarrow> (JNull, tried n, ac')
        | Some k \<Rightarrow> (the (usable (outs k)), tried (Suc k), ac'))"
  by (simp add: account_request_def request_loop_find host_requests_def Let_def split: option.split)

text \<open>
  C23. \<open>ensureRole\<close> when the service answers with JSON: if it lists a role, the first is the result, as the service
  wrote it (its 64-bit id exact), and only \<open>GET\<close> requests were made. If the list is empty, as an array or as
  the empty object a Lua server writes, a role is created: a \<open>POST\<close> whose body reads back as the server and name given,
  with the token in the header, and the role the service answers with is the result.
\<close>

theorem ensure_role:
  assumes "answers_json outs (length (ac_hosts ac)) res" and "prop_of res (js ''code'') = JNum 0"
  shows "(\<forall>r rs. prop_of res (js ''roles'') = JArr (r # rs) \<and> truthy r \<longrightarrow>
      (\<exists>rqs ac'. ensureRole outs outs' token name server ac = (Some r, rqs, ac') \<and> (\<forall>rq \<in> set rqs. rq_method rq = js ''GET''))) \<and>
    (\<forall>res'. (prop_of res (js ''roles'') = JArr [] \<or> prop_of res (js ''roles'') = JObj []) \<and>
        answers_json outs' (length (ac_hosts ac)) res' \<and> prop_of res' (js ''code'') = JNum 0 \<and> truthy (prop_of res' (js ''role'')) \<longrightarrow>
      (\<exists>rqs ac'. ensureRole outs outs' token name server ac = (Some (prop_of res' (js ''role'')), rqs, ac') \<and>
        (\<exists>rq \<in> set rqs. creates token server name rq)))"
  using ensureRole_found [OF assms] ensureRole_created [OF assms] by blast

definition demo_answer :: "string \<Rightarrow> nat \<Rightarrow> fetch_outcome" where
  "demo_answer t k = (if k = 0 then Responds 502 (Some []) else Responds 200 (Some (json_js t)))"

definition demo_account :: account_client where
  "demo_account = \<lparr>ac_hosts = [js ''http://a'', js ''http://b''], ac_cursor = 1\<rparr>"

theorem ensure_role_witness:
  "\<exists>rqs ac'. ensureRole (demo_answer ''{`code`:0,`roles`:{}}'')
      (demo_answer ''{`code`:0,`role`:{`rid`:70067467908940524,`server`:`s1, 9007199254740993`}}'')
      (js ''t'') (js ''bob'') (js ''s1'') demo_account = (Some demo_role, rqs, ac') \<and>
    (\<exists>rq \<in> set rqs. creates (js ''t'') (js ''s1'') (js ''bob'') rq)"
proof -
  let ?res = "JObj [(js ''code'', JNum 0), (js ''roles'', JObj [])]" and ?res' = "JObj [(js ''code'', JNum 0), (js ''role'', demo_role)]"
  have "answers_json (demo_answer ''{`code`:0,`roles`:{}}'') (length (ac_hosts demo_account)) ?res" by code_simp
  moreover have "answers_json (demo_answer ''{`code`:0,`role`:{`rid`:70067467908940524,`server`:`s1, 9007199254740993`}}'')
    (length (ac_hosts demo_account)) ?res'" by code_simp
  moreover have "prop_of ?res (js ''code'') = JNum 0" "prop_of ?res (js ''roles'') = JObj []" "prop_of ?res' (js ''code'') = JNum 0"
    "prop_of ?res' (js ''role'') = demo_role" "truthy demo_role" by (simp_all add: demo_role_def)
  ultimately show ?thesis
    using ensure_role [of "demo_answer ''{`code`:0,`roles`:{}}''" demo_account ?res] by metis
qed

subsection \<open>The transport\<close>

text \<open>
  C19. Whatever a socket does, the transport keeps the contract of its interface, as a function of the events alone:
  the promise is settled by the first event that opens or fails, for good; every binary message goes to the callback
  registered last before it, and nothing else does; the closing of an opened socket is reported to
  the registered callback, or to one registered afterwards, at once. Each registration is called at most once, and a callback that is
  the only one, registered once, exactly when the socket has closed after opening.
\<close>

theorem transport_contract:
  assumes "ws_run es s"
  shows "promise s = promise_of es \<and> ws_out s = effects_of es \<and> closed_calls cb (ws_out s) \<le> registrations cb es \<and>
    (registrations cb es = 1 \<and> (\<forall>n. WsOnClosed n \<in> set es \<longrightarrow> n = cb) \<longrightarrow>
      closed_calls cb (ws_out s) = (if has_closed False es then 1 else 0))"
  using ws_run_laws [OF assms] closed_called_once [of cb es] by simp

theorem transport_contract_witness:
  "\<exists>s. ws_run [WsOpen, WsOnMessage 1, WsOnClosed 2, WsMessage (ArrayBuffer [7]), WsClose, WsClose] s \<and>
    promise s = Promise_resolved \<and> ws_out s = [MessageTo 1 [7], ClosedTo 2]"
proof -
  let ?es = "[WsOpen, WsOnMessage 1, WsOnClosed 2, WsMessage (ArrayBuffer [7]), WsClose, WsClose]"
  have 1: "ws_run [WsOpen] (onopen ws_connect)" using ws_run.step [OF ws_run.start', of WsOpen] by simp
  have 2: "ws_run [WsOpen, WsOnMessage 1] (onMessage 1 (onopen ws_connect))"
    using ws_run.step [OF 1, of "WsOnMessage 1"] by (simp add: ws_defs ws_connect_def)
  have 3: "ws_run [WsOpen, WsOnMessage 1, WsOnClosed 2] (onClosed 2 (onMessage 1 (onopen ws_connect)))"
    using ws_run.step [OF 2, of "WsOnClosed 2"] by (simp add: ws_defs ws_connect_def)
  obtain s where s: "ws_run ?es s"
    using ws_run.step [OF ws_run.step [OF ws_run.step [OF 3 message [of _ "ArrayBuffer [7]"]] close'] close'] by simp
  have "promise_of ?es = Promise_resolved" "effects_of ?es = [MessageTo 1 [7], ClosedTo 2]" by code_simp+
  with transport_contract [OF s] s show ?thesis by auto
qed

subsection \<open>The session over its sockets\<close>

lemma resolved_opened: "promise_of es = Promise_resolved \<Longrightarrow> has_opened es"
  by (induction es) (auto simp: has_opened_def split: ws_event.splits)

lemma last_cb_registered:
  "last_cb message_cb cb es = Some c \<Longrightarrow> cb = Some c \<or> WsOnMessage c \<in> set es"
  by (induction es arbitrary: cb) (auto split: option.splits elim!: message_cb.elims)

text \<open>
  C20. A session over \<open>wsTransport\<close>, whatever its sockets, the application and the timers do: it is a
  session on the events it has heard, so every property of its runs holds of it; each connection it was ever given is one
  socket, used within the contract of the transport; the packets it is given on a connection are exactly the binary frames of
  that socket since it registered, in order, and the calls on the socket are exactly those it made, in order;
  the connection it holds is open: it has not closed since it opened, and both callbacks of the session are registered.
  No connection attempt is lost: the calls that wait for a connection are exactly those with an attempt under way.
\<close>

theorem session_over_sockets:
  "let n = net_run cf cd es cs in
     sess n = reached cf cd (heard n) cs \<and>
     (\<forall>c < nextConn (sess n). \<exists>k. socks n c = Some k \<and> ws_run (so_log k) (so_ws k) \<and>
        heard_on c (heard n) = frames False (so_log k) \<and> calls_on c (out (sess n)) = filter is_call (so_log k) \<and>
        (conn (sess n) = Some c \<longrightarrow> has_opened (so_log k) \<and> \<not> has_closed False (so_log k) \<and>
           WsOnMessage c \<in> set (so_log k) \<and> WsOnClosed c \<in> set (so_log k))) \<and>
     (\<forall>t. connecting t (sess n) \<longleftrightarrow> dials n t \<noteq> None)"
proof -
  let ?n = "net_run cf cd es cs"
  note n = net_okD [OF net_run_ok [of cf cd cs es]]
  have "\<exists>k. socks ?n c = Some k \<and> ws_run (so_log k) (so_ws k) \<and>
      heard_on c (heard ?n) = frames False (so_log k) \<and> calls_on c (out (sess ?n)) = filter is_call (so_log k) \<and>
      (conn (sess ?n) = Some c \<longrightarrow> has_opened (so_log k) \<and> \<not> has_closed False (so_log k) \<and>
         WsOnMessage c \<in> set (so_log k) \<and> WsOnClosed c \<in> set (so_log k))" if lt: "c < nextConn (sess ?n)" for c
  proof -
    obtain k where k: "socks ?n c = Some k" using n(3) [of c] lt by auto
    have s: "in_step c (heard ?n) (out (sess ?n)) (conn (sess ?n)) k" by (rule n(4) [OF k])
    then have w: "ws_run (so_log k) (so_ws k)" by (simp add: in_step_def socket_ok_def)
    have "promise_of (so_log k) = Promise_resolved" and
      "conn (sess ?n) = Some c \<longrightarrow> last_cb message_cb None (so_log k) = Some c \<and> last_cb closed_cb None (so_log k) = Some c \<and>
         \<not> has_closed False (so_log k)"
      using s ws_run_contract [OF w] by (simp_all add: in_step_def)
    then show ?thesis
      using k s w resolved_opened last_cb_registered [of None "so_log k" c] last_cb_closed [of None "so_log k" c]
      by (auto simp: in_step_def)
  qed
  with n(1) show ?thesis using attempts_run [of cf cd es cs] by (simp add: Let_def attempts_ok_def)
qed

text \<open>The first gate cannot be dialled, the second opens; a login, a frame that is not binary, a push.\<close>

definition demo_net_events :: "net_event list" where
  "demo_net_events =
     [NetApp EvStart, NetApp (EvEndpoints 0 (Some [gate, gate])), NetThrown 0, NetDial 0 WsOpen, NetAwait 0,
      NetApp (EvLoginParam 0 (Some (JObj []))), NetSock 0 (WsMessage (ArrayBuffer [1, 1, 0])),
      NetSock 0 (WsMessage OtherData), NetSock 0 (WsMessage (ArrayBuffer [2]))]"

definition demo_net :: "unit net" where
  "demo_net = net_run default_conf fake_codec demo_net_events ()"

lemma demo_net_state:
  "nextConn (sess demo_net) = 1" "conn (sess demo_net) = Some 0" "recv (sess demo_net) = 1"
  "heard_on 0 (heard demo_net) = [[1, 1, 0], [2]]"
  by code_simp+

theorem session_over_sockets_witness:
  "\<exists>k. socks demo_net 0 = Some k \<and> frames False (so_log k) = [[1, 1, 0], [2]] \<and> \<not> has_closed False (so_log k)"
proof -
  have "(0::nat) < nextConn (sess demo_net)" by (simp add: demo_net_state)
  then show ?thesis
    using session_over_sockets [of default_conf fake_codec demo_net_events "()", folded demo_net_def, unfolded Let_def]
      demo_net_state(2,4) by auto
qed

text \<open>
  C21. \<open>close\<close> is for good, at any moment of any session: whatever calls still come back, the session
  sends no packet, holds no connection, stays offline and leaves the codec as it was, unless it is started again. The facade
  relies on it when it hands the codec to its next session.
\<close>

theorem closed_for_good:
  assumes "EvStart \<notin> set evs"
  shows "let s = reached cf cd pre cs; v = reached cf cd (pre @ EvClose # evs) cs in
    conn v = None \<and> \<not> online v \<and> codec_st v = codec_st s \<and> packets (out v) = packets (out s)"
proof -
  let ?v = "reached cf cd (pre @ EvClose # evs) cs"
  have "conn ?v = None \<and> codec_st ?v = codec_st (reached cf cd pre cs) \<and> packets (out ?v) = packets (out (reached cf cd pre cs))"
    using closed_run [OF micro_reached assms, of cf cd cf cd pre cs] by (simp add: Let_def run_append)
  moreover from this have "\<not> online ?v"
    using link_reached [of cf cd "pre @ EvClose # evs" cs] by (auto simp: link_inv_def link_def)
  ultimately show ?thesis by (simp add: Let_def)
qed

text \<open>Closed while \<open>loginParam\<close> is asked for a token: the login that follows is not sent.\<close>

theorem closed_for_good_witness:
  "packets (out (demo ([EvStart, EvEndpoints 0 (Some [gate]), EvConnected 0 False] @
      EvClose # [EvLoginParam 0 (Some (JObj [])), EvTimeout 0]))) = []"
proof -
  have "EvStart \<notin> set [EvLoginParam 0 (Some (JObj [])), EvTimeout 0]" by simp
  moreover have "packets (out (demo [EvStart, EvEndpoints 0 (Some [gate]), EvConnected 0 False])) = []" by code_simp
  ultimately show ?thesis
    using closed_for_good [of "[EvLoginParam 0 (Some (JObj [])), EvTimeout 0]" default_conf fake_codec
        "[EvStart, EvEndpoints 0 (Some [gate]), EvConnected 0 False]" "()"]
    by (simp add: Let_def demo_def)
qed

subsection \<open>The facade\<close>

text \<open>
  C24. \<open>resolveEndpoints\<close> over any sequence of answers of the account service: each time the endpoints are those of
  the last answer that had any, this one included, and the function throws only when there has been none yet
  (or when an entry of the present answer is \<open>null\<close>).
\<close>

theorem endpoints_fall_back:
  "endpoint_answers rs [] = map (\<lambda>i. answer_after (take i rs) (rs ! i)) [0..<length rs]"
  by (rule endpoint_answers_new)





end
