(* ===== verification/Spec2Isabelle.thy ===== *)
theory Spec2Isabelle
  imports Session_Props Sproto_Props Codec_Props Stack_Props Api_Props
begin

text \<open>
  The TypeScript client SDK of skyext (\<open>sdk/ts/src\<close>): a game client that keeps one session with a server over
  connections that come and go. A packet goes down through the layers
  \<open>client.ts\<close> (facade), \<open>session.ts\<close> (requests, counting, resume, login, heartbeat), \<open>codec.ts\<close> (text and
  values), \<open>sproto/sproto.ts\<close> (schema, encoding, packing, framing) and \<open>transport.ts\<close> (WebSocket); \<open>account.ts\<close> and \<open>json.ts\<close>
  find servers, roles and gates over HTTP; \<open>md5.ts\<close> and \<open>bin.ts\<close> are helpers of the codec.

  Theories and the code they model:

  \<^item> \<open>Prelude\<close>, \<open>JsValue\<close>, \<open>Ieee\<close>: shared types; JavaScript values with truthiness and property reads; doubles as
    bit patterns with exact rounding.
  \<^item> \<open>Session\<close> (\<open>session.ts\<close>): the record \<open>session_client\<close> holds the fields of \<open>SessionClient\<close>. Each stretch of code
    between two \<open>await\<close>s is a function; where a running call waits is a \<open>pc\<close> in \<open>tasks\<close>; settled promises wait in \<open>micro\<close>;
    what reaches the outside is appended to \<open>out\<close>. Events are \<open>on_event\<close>; \<open>turn\<close> (in \<open>Session_Run\<close>) adds the drained
    microtasks, \<open>run\<close> is a list of events.
  \<^item> \<open>SprotoUtil\<close>, \<open>SprotoPack\<close>, \<open>SprotoDouble\<close>, \<open>SprotoSchema\<close>, \<open>SprotoQuery\<close>, \<open>SprotoEncode\<close>, \<open>SprotoDecode\<close>, \<open>SprotoHost\<close>
    (\<open>sproto.ts\<close>): byte arrays with holes (\<open>buf\<close>), zero packing by index, the arithmetic writer of doubles, the loader of
    schema bundles, lookups with caches, the encoder that writes into one array in place, the decoder,
    and the instance and host around them with the sessions they wait for.
  \<^item> \<open>Bin\<close>, \<open>Md5\<close>, \<open>Codec\<close> (\<open>bin.ts\<close>, \<open>md5.ts\<close>, \<open>codec.ts\<close>): UTF-8 and byte strings, the checksum, and \<open>loadCodec\<close>,
    \<open>pack\<close>, \<open>dispatch\<close>, \<open>respond\<close>. \<open>sproto_codec\<close> fits them into the interface \<open>codec\<close> of the session layer.
  \<^item> \<open>Json\<close>, \<open>Account\<close> (\<open>json.ts\<close>, \<open>account.ts\<close>): the scanner that protects integers a double cannot hold, with \<open>JSON.parse\<close> and
    its reviver; the HTTP calls with the outcomes of \<open>fetch\<close> as a parameter.
  \<^item> \<open>Transport\<close> (\<open>transport.ts\<close>): one socket as the step relation \<open>ws_step\<close>. \<open>Session_Sockets\<close> puts the session on such
    sockets: \<open>net\<close> is a session, its connection attempts and its connections, \<open>net_step\<close> one event of either side;
    \<open>hand_out\<close> is the part of \<open>establish\<close> that registers the callbacks.
  \<^item> \<open>Client\<close> (\<open>client.ts\<close>): \<open>skyext_client\<close> over account, codec and session; \<open>client_step\<close> for its events.

  What the lemmas show:

  \<^item> \<open>Session_Run\<close>, \<open>Session_Ledger\<close>, \<open>Session_Link\<close>, \<open>Session_Count\<close>, \<open>Session_Tasks\<close>, \<open>Session_Handshake\<close>, \<open>Session_Calls\<close>:
    termination of the microtask queue and invariants over all runs, each an interpretation of the locale
    \<open>session_invariant\<close> or carried by the same induction over turns: ids and packets, settling, counting, waiting
    calls, what is requested. \<open>Session_Props\<close> holds the properties.
  \<^item> \<open>Session_Sockets_Correct\<close>: session and sockets agree on every packet, call and closing; \<open>Session_Attempts\<close>: no
    connection attempt is lost; \<open>Session_Closed\<close>: what a closed session can no longer do.
  \<^item> \<open>SprotoFormat\<close> is the reference serializer. \<open>SprotoEncode_Correct\<close> shows that the in-place encoder writes it,
    \<open>SprotoDecode_Correct\<close> that the decoder reads it back, \<open>SprotoPack_Correct\<close> the block format of packing,
    \<open>SprotoSchema_Wf\<close> what a loaded schema satisfies; \<open>SprotoDemo\<close> is a bundle for the witnesses. \<open>Sproto_Props\<close>, \<open>Codec_Props\<close>.
  \<^item> \<open>Session_Codec\<close> states what the session layer relies on in a codec as the locale \<open>answer_codec\<close>.
    \<open>SprotoHost_Correct\<close> and \<open>Codec_Correct\<close>: what one codec packs another dispatches, answers settle the session they
    name, duplicates are recognised; \<open>sproto_codec\<close> is shown to be an \<open>answer_codec\<close>. \<open>Md5_Correct\<close>: RFC 1321. \<open>Stack_Props\<close>.
  \<^item> \<open>Json_Correct\<close> is a simulation between a parser with exact integers and \<open>JSON.parse\<close> on the quoted text;
    \<open>Account_Correct\<close>, \<open>Client_Correct\<close>; \<open>Api_Props\<close>.
  \<^item> This theory composes the session layer, the codec and the other end.

  Bounds and fuel. Structs nest at most 64 deep (\<open>ENCODE_DEEPLEVEL\<close>): the encoder's fuel is that number. The decoder's fuel is
  the number of bytes, as a nested struct is shorter (\<open>sprotoDecode_fuel\<close>, and \<open>decoding_terminates\<close> shows the unbounded
  recursion satisfied). The JSON reader's is twice the length and two (\<open>json_fuel\<close>). The loop of the double writer that need
  not end is a \<open>partial_function\<close>. Integers are unbounded where JavaScript keeps them
  exact and 32-bit or 64-bit words where the code works on words; array lengths are taken to be below \<open>2 ^ 31\<close>.

  Parameters. The session layer takes any codec and any behaviour of transport, timers and application as events; over
  \<open>wsTransport\<close> it takes any behaviour of the sockets. The account
  client takes the outcomes of \<open>fetch\<close>. Nothing is assumed of the network.

  Not modelled: \<open>sprotoDump\<close> (prints), in the facade the remaining steps of a session its client has closed (\<open>closed_for_good\<close>
  says what they cannot do; a \<open>/gates\<close> call still under way moves the host cursor), the order in which JavaScript lists keys that look like array indices, the text of error messages, and
  everything outside \<open>sdk/ts/src\<close>: the Lua server and SDK, the example project with its end-to-end script
  (\<open>example/tools/browser_e2e.mjs\<close>, which drives a browser), build scripts and the web console.
\<close>

subsection \<open>A call through all layers\<close>

text \<open>A session online on a connection that takes packets, over the sproto codec, about to give out a fresh id.\<close>

definition ready :: "sproto_instance \<Rightarrow> sproto_type \<Rightarrow> nat \<Rightarrow> sproto_host session_client \<Rightarrow> bool" where
  "ready sp P k s \<longleftrightarrow> conn s = Some k \<and> k \<notin> set (broken s) \<and> host_ok sp P (codec_st s) \<and>
     0 \<le> nextReqId s \<and> number_ok53 (nextReqId s + 1) \<and> map_of (pendings s) (nextReqId s + 1) = None"

lemma request_sends:
  assumes "ready sp P k s" and "codec_pack (codec_st s) name args (Some (nextReqId s + 1)) = (Inr b, c')"
  shows "request sproto_codec name args s =
    (nextReqId s + 1,
     s\<lparr>nextReqId := nextReqId s + 1, pendings := pendings s @ [(nextReqId s + 1, \<lparr>pname = name, pparam = args\<rparr>)],
       codec_st := c', out := out s @ [Sent k (nextReqId s + 1) name args b]\<rparr>)"
  using assms by (simp add: ready_def request_def send_def sproto_codec_def Let_def emit_def)

lemma carried_object: "\<not> nullish (carried sp t v)"
  by (simp add: carried_def ENCODE_DEEPLEVEL_def eval_nat_numeral)

text \<open>
  C2. A call through the whole stack. The session sends a request; the other end, on the same schema,
  dispatches the bytes under the name and id and answers; the session settles exactly that request with
  the answer as its type carries it, the request is no longer in flight, and the count of
  received packets goes up by one (unless the protocol is one of the uncounted ones). When the same
  answer comes again, it is counted and settles nothing.
\<close>

theorem call_through_stack:
  assumes "schema_encodable sp" and "package_ok sp P" and "protocols_ordered sp" and "ready sp P k s" and "host_ok sp P d"
    and "protocol sp (ByName name) = Some p" and "i_request p = Some req" and "i_response p = Some resp" and "number_ok53 (i_tag p)"
    and "fits_type sp req args" and "small_packet sp P (headerTemp (JNum (i_tag p)) (JNum (nextReqId s + 1))) req args"
    and "fits_type sp resp answer" and "small_packet sp P (headerTemp JNull (JNum (nextReqId s + 1))) resp answer"
  shows "\<exists>i s1 b d1 b1. request sproto_codec name args s = (i, s1) \<and> last (out s1) = Sent k i name args b \<and>
    codec_dispatch d b = (Some (MRequest name (carried sp req args) (JNum i) (Some (Some resp, JNum i))), d1) \<and>
    codec_respond d1 (Some resp, JNum i) answer = (Inr b1, d1) \<and>
    (let s2 = handle sproto_codec b1 s1; s3 = handle sproto_codec b1 s2 in
       out s2 = out s1 @ [Settled i (carried sp resp answer)] \<and> map_of (pendings s2) i = None \<and>
       recv s2 = recv s + (if uncounted name then 0 else 1) \<and>
       out s3 = out s2 \<and> pendings s3 = pendings s2 \<and> recv s3 = recv s2 + 1)"
proof -
  let ?i = "nextReqId s + 1"
  have s: "host_ok sp P (codec_st s)" "number_ok53 ?i" "map_of (pendings s) ?i = None" using assms(4) by (simp_all add: ready_def)
  obtain b c1 d1 where b: "codec_pack (codec_st s) name args (Some ?i) = (Inr b, c1)" "host_ok sp P c1"
      "h_session c1 = (h_session (codec_st s))(?i \<mapsto> ResponseOf resp)"
      "codec_dispatch d b = (Some (MRequest name (carried sp req args) (JNum ?i) (Some (Some resp, JNum ?i))), d1)" "host_ok sp P d1"
    using codec_request [OF assms(1-3) s(1) assms(5-7,9,10) s(2) assms(11)] assms(8) by auto
  let ?p = "\<lparr>pname = name, pparam = args\<rparr>"
  define s1 where "s1 = s\<lparr>nextReqId := ?i, pendings := pendings s @ [(?i, ?p)], codec_st := c1,
    out := out s @ [Sent k ?i name args b]\<rparr>"
  have req: "request sproto_codec name args s = (?i, s1)" using request_sends [OF assms(4) b(1)] by (simp add: s1_def)
  obtain b1 where b1: "codec_respond d1 (Some resp, JNum ?i) answer = (Inr b1, d1)"
    using codec_response [OF assms(1,2) b(5,2) s(2) _ assms(12,13)] b(3) by auto
  have awaits: "awaits_type sp P resp (codec_st s1) ?i"
    using assms(1,2) b(2,3) s(2) by (simp add: awaits_type_def s1_def)
  have answer: "answer_of sp P resp b1 ?i (carried sp resp answer)"
    using b(5) assms(12,13) b1 by (auto simp: answer_of_def)
  have p: "map_of (pendings s1) ?i = Some ?p" using s(3) by (simp add: s1_def map_add_def)
  have "coalesce (carried sp resp answer) JNull = carried sp resp answer"
    using carried_object by (simp add: coalesce_def)
  with sproto_answers.answered_once [OF awaits answer p]
  have "let s2 = handle sproto_codec b1 s1; s3 = handle sproto_codec b1 s2 in
      out s2 = out s1 @ [Settled ?i (carried sp resp answer)] \<and> map_of (pendings s2) ?i = None \<and>
      recv s2 = recv s + (if uncounted name then 0 else 1) \<and> out s3 = out s2 \<and> pendings s3 = pendings s2 \<and> recv s3 = recv s2 + 1"
    by (simp add: Let_def) (simp add: s1_def)
  with req b(4) b1 show ?thesis
    by (intro exI [of _ ?i] exI [of _ s1] exI [of _ b] exI [of _ d1] exI [of _ b1]) (simp add: s1_def)
qed

definition demo_session :: "sproto_host session_client" where
  "demo_session = (new_session demo_host)\<lparr>conn := Some 0, online := True, nextReqId := 4\<rparr>"

theorem call_through_stack_witness:
  "\<exists>i s1 b d1 b1. request sproto_codec (js ''bag.get'') demo_args demo_session = (i, s1) \<and>
    last (out s1) = Sent 0 i (js ''bag.get'') demo_args b \<and>
    codec_respond d1 (Some bag_type, JNum i) demo_reply = (Inr b1, d1) \<and>
    out (handle sproto_codec b1 s1) = out s1 @ [Settled i (JObj [(js ''items'', JArr [JObj [(js ''id'', JNum 3)]]),
      (js ''nums'', JArr []), (js ''open'', JBool True)])]"
proof -
  have ready: "ready demo_schema package_type 0 demo_session"
    using demo_host_ok by (simp add: ready_def demo_session_def new_session_def number_ok53_def)
  have p: "i_request demo_info = Some item_type" "i_response demo_info = Some bag_type" "number_ok53 (i_tag demo_info)"
    by (simp_all add: demo_info_def number_ok53_def)
  have next': "nextReqId demo_session + 1 = 5" by (simp add: demo_session_def new_session_def)
  have tag: "i_tag demo_info = 1" by (simp add: demo_info_def)
  have small: "small_packet demo_schema package_type (headerTemp (JNum (i_tag demo_info)) (JNum (nextReqId demo_session + 1))) item_type demo_args"
      "small_packet demo_schema package_type (headerTemp JNull (JNum (nextReqId demo_session + 1))) bag_type demo_reply"
    unfolding next' tag by (rule demo_small)+
  from call_through_stack [OF demo_encodable(1) demo_package demo_ordered ready demo_host_ok demo_info p demo_fits(1) small(1) demo_fits(2) small(2)]
  show ?thesis unfolding demo_carried(2) by (simp add: Let_def) blast
qed

end
